(* ===== verification/Prelude.thy ===== *)
theory Prelude
  imports Main "HOL-Library.Word" "HOL-Library.Multiset" "HOL-Library.Signed_Division"
begin

text \<open>
  Shared vocabulary of the development: the C types the programs use, the return codes of
  the C library, circular windows over arrays, and weighted sums over lists of threads or
  table slots.  The collections declared here are filled by the component theories and
  unfolded by name in their proofs.
\<close>

named_theorems handler_defs \<open>definitions of the operations of a component\<close>
named_theorems inv_defs \<open>definitions of the invariants of a component\<close>

subsection \<open>C types\<close>

text \<open>
  A nullable pointer is an \<open>option\<close>: \<open>None\<close> is \<open>NULL\<close>.  The target is LP64: \<open>size_t\<close>
  and \<open>uintmax_t\<close> have 64 bits, \<open>long\<close> and \<open>long long\<close> 64, \<open>int\<close> 32.
\<close>

type_synonym 'a ptr = "'a option"
type_synonym size_t = "64 word"
type_synonym uint16_t = "16 word"
type_synonym byte = "8 word"

abbreviation NULL :: "'a ptr" where
  "NULL \<equiv> None"

abbreviation INT_MAX :: int where
  "INT_MAX \<equiv> 2 ^ 31 - 1"

abbreviation INT_MIN :: int where
  "INT_MIN \<equiv> - (2 ^ 31)"

text \<open>
  The conversions C makes implicitly: to \<open>size_t\<close>, and the implementation-defined (modulo
  \<open>2 ^ 32\<close> on the compilers the Makefiles name) narrowing to \<open>int\<close>.
\<close>

definition to_size_t :: "int \<Rightarrow> size_t" where
  "to_size_t i = word_of_int i"

definition to_int :: "int \<Rightarrow> int" where
  "to_int i = sint (word_of_int i :: 32 word)"

lemma unat_to_size_t: "0 \<le> i \<Longrightarrow> i < 2 ^ 64 \<Longrightarrow> unat (to_size_t i) = nat i"
  by (simp add: to_size_t_def unat_eq_nat_uint uint_word_of_int)

lemma unat_to_size_t_neg:
  assumes "- (2 ^ 64) \<le> i" and "i < 0"
  shows "unat (to_size_t i) = nat (i + 2 ^ 64)"
proof -
  have "i mod 2 ^ 64 = (i + 2 ^ 64) mod 2 ^ 64" by simp
  also have "\<dots> = i + 2 ^ 64" using assms by (intro mod_pos_pos_trivial) auto
  finally show ?thesis by (simp add: to_size_t_def unat_eq_nat_uint uint_word_of_int)
qed

lemma to_int_id [simp]: "INT_MIN \<le> i \<Longrightarrow> i \<le> INT_MAX \<Longrightarrow> to_int i = i"
  by (simp add: to_int_def sint_sbintrunc' signed_take_bit_int_eq_self)

text \<open>C's \<open>%\<close> agrees with \<open>mod\<close> on what the programs use it for.\<close>

lemma smod_nat: "0 \<le> a \<Longrightarrow> 0 < b \<Longrightarrow> nat (a smod b) = nat a mod nat b" for a b :: int
  by (simp add: smod_mod_positive nat_mod_distrib)

text \<open>
  The allocator: \<open>calloc n m\<close> gives memory exactly when the product does not overflow
  \<open>size_t\<close> and the system has that many bytes, which \<open>avail\<close> decides.
\<close>

definition calloc_ok :: "(nat \<Rightarrow> bool) \<Rightarrow> size_t \<Rightarrow> size_t \<Rightarrow> bool" where
  "calloc_ok avail n m = (unat n * unat m < 2 ^ 64 \<and> avail (unat n * unat m))"

text \<open>
  What a piece of code that may not return normally gives: a value, the process exiting with
  a status, or an access outside an object.
\<close>

datatype 'a outcome = Cont 'a | Exit int | Out_Of_Bounds

subsection \<open>Bytes of numbers\<close>

text \<open>Objects are copied to and from byte arrays in the host's (little-endian) order.\<close>

fun le_bytes :: "nat \<Rightarrow> nat \<Rightarrow> byte list" where
  "le_bytes 0 k = []"
| "le_bytes (Suc n) k = word_of_nat (k mod 256) # le_bytes n (k div 256)"

fun of_le :: "byte list \<Rightarrow> nat" where
  "of_le [] = 0"
| "of_le (b # bs) = unat b + 256 * of_le bs"

lemma length_le_bytes [simp]: "length (le_bytes n k) = n"
  by (induction n arbitrary: k) auto

lemma of_le_le_bytes: "k < 256 ^ n \<Longrightarrow> of_le (le_bytes n k) = k"
proof (induction n arbitrary: k)
  case (Suc n)
  then have "k div 256 < 256 ^ n" by (simp add: less_mult_imp_div_less mult.commute)
  with Suc.IH have "of_le (le_bytes n (k div 256)) = k div 256" by blast
  then show ?case by (simp add: unat_of_nat)
qed simp

subsection \<open>Circular windows\<close>

text \<open>The \<open>n\<close> cells of a circular array from index \<open>s\<close> on.\<close>

definition window :: "'a list \<Rightarrow> nat \<Rightarrow> nat \<Rightarrow> 'a list" where
  "window xs s n = map (\<lambda>k. xs ! ((s + k) mod length xs)) [0..<n]"

lemma length_window [simp]: "length (window xs s n) = n"
  by (simp add: window_def)

lemma window_0 [simp]: "window xs s 0 = []"
  by (simp add: window_def)

lemma mod_add_neq:
  assumes "k < n" and "n < (m::nat)"
  shows "(s + k) mod m \<noteq> (s + n) mod m"
proof
  assume "(s + k) mod m = (s + n) mod m"
  then have "m dvd (s + n) - (s + k)"
    using assms by (metis add_le_mono1 add.commute less_imp_le mod_eq_dvd_iff_nat)
  then have "m dvd n - k" by simp
  with assms show False
    by (meson dvd_imp_le less_imp_diff_less not_le zero_less_diff)
qed

lemma window_push:
  assumes "n < length xs"
  shows "window (xs[(s + n) mod length xs := v]) s (Suc n) = window xs s n @ [v]"
proof -
  have "length xs > 0" using assms by auto
  then show ?thesis
    using assms by (auto simp: window_def nth_list_update mod_add_neq [THEN not_sym])
qed

lemma window_pop:
  assumes "0 < n" and "s < length xs"
  shows "window xs s n = xs ! s # window xs ((s + 1) mod length xs) (n - 1)"
proof (rule nth_equalityI)
  show "length (window xs s n) = length (xs ! s # window xs ((s + 1) mod length xs) (n - 1))"
    using assms by simp
  fix i assume i: "i < length (window xs s n)"
  show "window xs s n ! i = (xs ! s # window xs ((s + 1) mod length xs) (n - 1)) ! i"
    using i assms by (cases i) (auto simp: window_def mod_simps)
qed

subsection \<open>Weighted sums\<close>

text \<open>
  \<open>total f xs\<close> adds up a weight over the threads, slots or records of \<open>xs\<close>.  A step that
  changes one entry changes the sum by the difference of two weights.
\<close>

definition total :: "('a \<Rightarrow> 'b::comm_monoid_add) \<Rightarrow> 'a list \<Rightarrow> 'b" where
  "total f xs = sum_list (map f xs)"

lemma total_Nil [simp]: "total f [] = 0"
  by (simp add: total_def)

lemma total_Cons [simp]: "total f (x # xs) = f x + total f xs"
  by (simp add: total_def)

lemma total_append [simp]: "total f (xs @ ys) = total f xs + total f ys"
  by (simp add: total_def)

lemma total_update:
  "i < length xs \<Longrightarrow> total f (xs[i := v]) + f (xs ! i) = total f xs + f v"
proof (induction xs arbitrary: i)
  case Nil
  then show ?case by simp
next
  case (Cons x xs)
  show ?case
  proof (cases i)
    case 0
    then show ?thesis by (simp add: ac_simps)
  next
    case (Suc j)
    with Cons.prems have "total f (xs[j := v]) + f (xs ! j) = total f xs + f v"
      by (intro Cons.IH) simp
    with Suc show ?thesis by (simp add: add.assoc)
  qed
qed

lemma total_same: "i < length xs \<Longrightarrow> f v = f (xs ! i) \<Longrightarrow> total f (xs[i := v]) = total f xs"
  for f :: "'a \<Rightarrow> 'b::cancel_comm_monoid_add"
  using total_update [of i xs f v] by simp

lemma total_eq_0_iff: "total f xs = (0::nat) \<longleftrightarrow> (\<forall>x \<in> set xs. f x = 0)"
  by (induction xs) auto

lemma total_const_0 [simp]: "(\<And>x. x \<in> set xs \<Longrightarrow> f x = 0) \<Longrightarrow> total f xs = 0"
  by (induction xs) auto

lemma total_ge: "i < length xs \<Longrightarrow> f (xs ! i) \<le> (total f xs :: nat)"
  by (induction xs arbitrary: i) (auto simp: nth_Cons split: nat.splits intro: trans_le_add2)

lemma total_two:
  assumes "i < length xs" and "j < length xs" and "i \<noteq> j"
  shows "f (xs ! i) + f (xs ! j) \<le> (total f xs :: nat)"
proof -
  let ?g = "\<lambda>k. f (xs ! k)"
  have "total f xs = (\<Sum>k<length xs. ?g k)"
    by (simp add: total_def sum_list_sum_nth atLeast0LessThan)
  moreover have "(\<Sum>k\<in>{i, j}. ?g k) \<le> (\<Sum>k<length xs. ?g k)"
    using assms by (intro sum_mono2) auto
  ultimately show ?thesis using assms(3) by simp
qed

text \<open>The same for a property of every entry.\<close>

lemma ball_set_update:
  "(\<And>j. j < length xs \<Longrightarrow> j \<noteq> i \<Longrightarrow> P (xs ! j)) \<Longrightarrow> P v \<Longrightarrow> \<forall>x \<in> set (xs[i := v]). P x"
  by (metis in_set_conv_nth length_list_update nth_list_update_eq nth_list_update_neq)

end
