(* ===== verification/Bounded_Queue.thy ===== *)
theory Bounded_Queue
  imports Prelude
begin

text \<open>
  The interface both circular queues of the repository provide: the line buffer of
  \<open>cw09/zad1/src/buffer.c\<close> and the waiting room of \<open>cw07/zad1/src/barber-shop.c\<close>.  A queue
  state has an invariant, a capacity and an abstract content; pushing and popping either
  fail without a successor state or act at the two ends of the content.  What a client may
  conclude for any sequence of calls is proved once, here.
\<close>

datatype 'a queue_op = Push 'a | Pop

text \<open>
  A run of calls: failed calls leave the state as it is.  The result is the final state, the
  elements accepted by a push and the elements delivered by a pop, each in order.
\<close>

fun fifo_run :: "('a \<Rightarrow> 's \<Rightarrow> 's option) \<Rightarrow> ('s \<Rightarrow> ('a \<times> 's) option) \<Rightarrow>
    'a queue_op list \<Rightarrow> 's \<Rightarrow> 's \<times> 'a list \<times> 'a list" where
  "fifo_run push pop [] s = (s, [], [])"
| "fifo_run push pop (Push x # ops) s =
     (case push x s of
        None \<Rightarrow> fifo_run push pop ops s
      | Some s' \<Rightarrow> (case fifo_run push pop ops s' of (t, ins, outs) \<Rightarrow> (t, x # ins, outs)))"
| "fifo_run push pop (Pop # ops) s =
     (case pop s of
        None \<Rightarrow> fifo_run push pop ops s
      | Some (x, s') \<Rightarrow> (case fifo_run push pop ops s' of (t, ins, outs) \<Rightarrow> (t, ins, x # outs)))"

locale bounded_fifo =
  fixes invar :: "'s \<Rightarrow> bool"
    and capacity :: "'s \<Rightarrow> nat"
    and contents :: "'s \<Rightarrow> 'a list"
    and push :: "'a \<Rightarrow> 's \<Rightarrow> 's option"
    and pop :: "'s \<Rightarrow> ('a \<times> 's) option"
  assumes content_bound: "invar s \<Longrightarrow> length (contents s) \<le> capacity s"
    and push_None: "invar s \<Longrightarrow> push x s = None \<longleftrightarrow> length (contents s) = capacity s"
    and push_Some: "invar s \<Longrightarrow> push x s = Some s' \<Longrightarrow>
      invar s' \<and> capacity s' = capacity s \<and> contents s' = contents s @ [x]"
    and pop_None: "invar s \<Longrightarrow> pop s = None \<longleftrightarrow> contents s = []"
    and pop_Some: "invar s \<Longrightarrow> pop s = Some (x, s') \<Longrightarrow>
      invar s' \<and> capacity s' = capacity s \<and> contents s = x # contents s'"
begin

lemma push_pop_roundtrip:
  assumes "invar s" and "contents s = []" and "push x s = Some s'"
  shows "\<exists>t. pop s' = Some (x, t) \<and> contents t = []"
proof -
  from push_Some [OF assms(1,3)] assms(2) have s': "invar s'" "contents s' = [x]" by auto
  then obtain y t where "pop s' = Some (y, t)"
    using pop_None [of s'] by (cases "pop s'") auto
  with s' pop_Some [of s' y t] show ?thesis by auto
qed

lemma fifo_order:
  assumes "invar s" and "fifo_run push pop ops s = (t, ins, outs)"
  shows "invar t \<and> capacity t = capacity s \<and> contents s @ ins = outs @ contents t"
  using assms
proof (induction ops arbitrary: s t ins outs)
  case Nil
  then show ?case by simp
next
  case (Cons op ops)
  show ?case
  proof (cases op)
    case (Push x)
    show ?thesis
    proof (cases "push x s")
      case None
      with Push Cons.prems Cons.IH [of s] show ?thesis by simp
    next
      case (Some s')
      obtain u i o' where run: "fifo_run push pop ops s' = (u, i, o')"
        by (metis prod_cases3)
      with Push Some Cons.prems have "t = u" "ins = x # i" "outs = o'" by simp_all
      with push_Some [OF Cons.prems(1) Some] Cons.IH [OF _ run] show ?thesis by simp
    qed
  next
    case Pop
    show ?thesis
    proof (cases "pop s")
      case None
      with Pop Cons.prems Cons.IH [of s] show ?thesis by simp
    next
      case (Some r)
      obtain x s' where r: "r = (x, s')" by fastforce
      obtain u i o' where run: "fifo_run push pop ops s' = (u, i, o')"
        by (metis prod_cases3)
      with Pop Some r Cons.prems have "t = u" "ins = i" "outs = x # o'" by simp_all
      with pop_Some [OF Cons.prems(1) Some [unfolded r]] Cons.IH [OF _ run] show ?thesis by simp
    qed
  qed
qed

lemma fifo_never_overfull:
  assumes "invar s" and "fifo_run push pop ops s = (t, ins, outs)"
  shows "length (contents t) \<le> capacity s"
  using fifo_order [OF assms] content_bound [of t] by simp

end

end
