(* ===== verification/Ring_Buffer.thy ===== *)
theory Ring_Buffer
  imports Bounded_Queue
begin

text \<open>
  The line buffer of the producer/consumer programs (\<open>cw09/zad1/src/buffer.c\<close>): a circular
  array of string pointers in four global variables.  The globals are a record; every
  function takes the record and returns the new one beside its C return code.  The buffer
  refines a bounded first-in first-out queue.
\<close>

subsection \<open>State and operations\<close>

text \<open>
  \<open>buffer\<close> lists the cells of the array (no cell when the pointer is \<open>NULL\<close>).  C's \<open>%\<close>
  truncates, which is \<open>smod\<close>.
\<close>

record 'a ring_buffer =
  buffer :: "'a ptr list"
  buffer_size :: int
  buffer_start :: int
  buffer_length :: int

definition buffer_globals :: "'a ring_buffer" where
  "buffer_globals = \<lparr>buffer = [], buffer_size = 0, buffer_start = 0, buffer_length = 0\<rparr>"

definition buffer_at :: "'a ring_buffer \<Rightarrow> int \<Rightarrow> nat" where
  "buffer_at rb index = nat (index smod buffer_size rb)"

definition buffer_init :: "(nat \<Rightarrow> bool) \<Rightarrow> int \<Rightarrow> 'a ring_buffer \<Rightarrow> int \<times> 'a ring_buffer" where
  "buffer_init avail sz rb =
     (if \<not> calloc_ok avail 8 (to_size_t sz) then (-1, rb\<lparr>buffer := []\<rparr>)
      else (0, rb\<lparr>buffer := replicate (unat (to_size_t sz)) NULL,
                  buffer_size := sz, buffer_start := 0, buffer_length := 0\<rparr>))"

definition buffer_empty :: "'a ring_buffer \<Rightarrow> bool" where
  "buffer_empty rb = (buffer_length rb = 0)"

definition buffer_full :: "'a ring_buffer \<Rightarrow> bool" where
  "buffer_full rb = (buffer_length rb = buffer_size rb)"

definition buffer_push :: "'a ptr \<Rightarrow> 'a ring_buffer \<Rightarrow> int \<times> 'a ring_buffer" where
  "buffer_push string rb =
     (if buffer_full rb then (-1, rb)
      else (0, rb\<lparr>buffer := (buffer rb)[buffer_at rb (buffer_start rb + buffer_length rb) := string],
                  buffer_length := buffer_length rb + 1\<rparr>))"

text \<open>\<open>stringp\<close> is the caller's variable: it is written on success only.\<close>

definition buffer_pop :: "'a ptr \<Rightarrow> 'a ring_buffer \<Rightarrow> int \<times> 'a ptr \<times> 'a ring_buffer" where
  "buffer_pop stringp rb =
     (if buffer_empty rb then (-1, stringp, rb)
      else (0, buffer rb ! buffer_at rb (buffer_start rb),
            rb\<lparr>buffer_start := (buffer_start rb + 1) smod buffer_size rb,
               buffer_length := buffer_length rb - 1\<rparr>))"

lemmas [handler_defs] =
  buffer_at_def buffer_empty_def buffer_full_def buffer_push_def buffer_pop_def

subsection \<open>Invariant and abstraction\<close>

definition rb_inv :: "'a ring_buffer \<Rightarrow> bool" where
  "rb_inv rb \<longleftrightarrow>
     buffer_size rb = int (length (buffer rb)) \<and>
     0 \<le> buffer_start rb \<and> (buffer_start rb < buffer_size rb \<or> buffer_start rb = 0) \<and>
     0 \<le> buffer_length rb \<and> buffer_length rb \<le> buffer_size rb"

definition rb_contents :: "'a ring_buffer \<Rightarrow> 'a ptr list" where
  "rb_contents rb = window (buffer rb) (nat (buffer_start rb)) (nat (buffer_length rb))"

definition rb_capacity :: "'a ring_buffer \<Rightarrow> nat" where
  "rb_capacity rb = nat (buffer_size rb)"

lemmas [inv_defs] = rb_inv_def rb_contents_def rb_capacity_def

text \<open>The two operations as the queue interface sees them: a zero return code is success.\<close>

definition rb_push :: "'a ptr \<Rightarrow> 'a ring_buffer \<Rightarrow> 'a ring_buffer option" where
  "rb_push x rb = (case buffer_push x rb of (r, rb') \<Rightarrow> if r = 0 then Some rb' else None)"

definition rb_pop :: "'a ring_buffer \<Rightarrow> ('a ptr \<times> 'a ring_buffer) option" where
  "rb_pop rb = (case buffer_pop NULL rb of (r, x, rb') \<Rightarrow> if r = 0 then Some (x, rb') else None)"

subsection \<open>Lemmas\<close>

lemma length_rb_contents: "rb_inv rb \<Longrightarrow> length (rb_contents rb) = nat (buffer_length rb)"
  by (simp add: inv_defs)

lemma buffer_full_iff: "rb_inv rb \<Longrightarrow> buffer_full rb \<longleftrightarrow> length (rb_contents rb) = rb_capacity rb"
  by (auto simp: inv_defs handler_defs)

lemma buffer_empty_iff: "rb_inv rb \<Longrightarrow> buffer_empty rb \<longleftrightarrow> rb_contents rb = []"
  by (auto simp: length_rb_contents handler_defs inv_defs simp flip: length_0_conv)

lemma buffer_at_in_range:
  "rb_inv rb \<Longrightarrow> 0 < buffer_size rb \<Longrightarrow> 0 \<le> index \<Longrightarrow> buffer_at rb index < length (buffer rb)"
  by (simp add: handler_defs inv_defs smod_nat)

lemma buffer_push_ok:
  assumes "rb_inv rb" and "\<not> buffer_full rb"
  shows "fst (buffer_push x rb) = 0"
    and "rb_inv (snd (buffer_push x rb))"
    and "rb_capacity (snd (buffer_push x rb)) = rb_capacity rb"
    and "rb_contents (snd (buffer_push x rb)) = rb_contents rb @ [x]"
proof -
  let ?s = "nat (buffer_start rb)" and ?n = "nat (buffer_length rb)"
  from assms have n: "?n < length (buffer rb)" and pos: "0 < buffer_size rb"
    by (auto simp: inv_defs handler_defs)
  have at: "buffer_at rb (buffer_start rb + buffer_length rb) = (?s + ?n) mod length (buffer rb)"
    using assms(1) pos by (simp add: inv_defs handler_defs smod_nat nat_add_distrib)
  show "fst (buffer_push x rb) = 0"
    using assms(2) by (simp add: buffer_push_def)
  show "rb_inv (snd (buffer_push x rb))"
    using assms n by (auto simp: buffer_push_def rb_inv_def)
  show "rb_capacity (snd (buffer_push x rb)) = rb_capacity rb"
    by (simp add: buffer_push_def rb_capacity_def)
  have "nat (buffer_length rb + 1) = Suc ?n"
    using assms(1) by (auto simp: inv_defs nat_add_distrib)
  then show "rb_contents (snd (buffer_push x rb)) = rb_contents rb @ [x]"
    using assms(2) window_push [OF n, of ?s x] by (simp add: buffer_push_def rb_contents_def at)
qed

lemma buffer_pop_ok:
  assumes "rb_inv rb" and "\<not> buffer_empty rb" and "buffer_pop y rb = (r, x, rb')"
  shows "r = 0" and "rb_inv rb'" and "rb_capacity rb' = rb_capacity rb"
    and "rb_contents rb = x # rb_contents rb'"
proof -
  let ?s = "nat (buffer_start rb)" and ?n = "nat (buffer_length rb)"
  from assms(1,2) have n: "0 < ?n" and s: "?s < length (buffer rb)" and pos: "0 < buffer_size rb"
    by (auto simp: inv_defs handler_defs)
  from assms(2,3) have x: "x = buffer rb ! buffer_at rb (buffer_start rb)"
    and rb': "rb' = rb\<lparr>buffer_start := (buffer_start rb + 1) smod buffer_size rb,
                       buffer_length := buffer_length rb - 1\<rparr>"
    and "r = 0" by (auto simp: buffer_pop_def)
  show "r = 0" by fact
  have start: "nat ((buffer_start rb + 1) smod buffer_size rb) = (?s + 1) mod length (buffer rb)"
    and at: "buffer_at rb (buffer_start rb) = ?s"
    using assms(1) s pos by (simp_all add: inv_defs buffer_at_def smod_nat nat_add_distrib)
  have "0 \<le> (buffer_start rb + 1) smod buffer_size rb"
    "(buffer_start rb + 1) smod buffer_size rb < buffer_size rb"
    using assms(1) pos by (auto simp: rb_inv_def intro: smod_int_compares)
  with assms(1) n show "rb_inv rb'" by (auto simp: rb' rb_inv_def)
  show "rb_capacity rb' = rb_capacity rb" by (simp add: rb' rb_capacity_def)
  show "rb_contents rb = x # rb_contents rb'"
    using window_pop [OF n s] assms(1) n
    by (simp add: rb_contents_def rb' x at start nat_diff_distrib)
qed

lemma buffer_push_full: "buffer_full rb \<Longrightarrow> buffer_push x rb = (-1, rb)"
  by (simp add: buffer_push_def)

lemma buffer_pop_empty: "buffer_empty rb \<Longrightarrow> buffer_pop y rb = (-1, y, rb)"
  by (simp add: buffer_pop_def)

lemma buffer_init_ok:
  assumes "buffer_init avail sz rb = (0, rb')" and "INT_MIN \<le> sz" and "sz \<le> INT_MAX"
  shows "0 \<le> sz" and "rb_inv rb'" and "rb_contents rb' = []" and "rb_capacity rb' = nat sz"
proof -
  from assms(1) have ok: "calloc_ok avail 8 (to_size_t sz)"
    and rb': "rb' = rb\<lparr>buffer := replicate (unat (to_size_t sz)) NULL,
                  buffer_size := sz, buffer_start := 0, buffer_length := 0\<rparr>"
    by (auto simp: buffer_init_def split: if_splits)
  show nonneg: "0 \<le> sz"
  proof (rule ccontr)
    assume neg: "\<not> 0 \<le> sz"
    then have "unat (to_size_t sz) \<ge> 2 ^ 63"
      using assms(2) by (subst unat_to_size_t_neg) auto
    with ok show False by (simp add: calloc_ok_def)
  qed
  then have "unat (to_size_t sz) = nat sz"
    using assms(3) by (intro unat_to_size_t) auto
  then show "rb_inv rb'" "rb_contents rb' = []" "rb_capacity rb' = nat sz"
    using nonneg by (simp_all add: rb' inv_defs)
qed

subsection \<open>The buffer is a bounded queue\<close>

interpretation ring: bounded_fifo rb_inv rb_capacity rb_contents rb_push rb_pop
proof
  fix rb rb' :: "'a ring_buffer" and x
  assume inv: "rb_inv rb"
  then show "length (rb_contents rb) \<le> rb_capacity rb"
    by (auto simp: inv_defs)
  show "rb_push x rb = None \<longleftrightarrow> length (rb_contents rb) = rb_capacity rb"
    using buffer_full_iff [OF inv] buffer_push_ok(1) [OF inv, of x]
    by (cases "buffer_full rb") (auto simp: rb_push_def buffer_push_full split: prod.splits)
  show "rb_inv rb' \<and> rb_capacity rb' = rb_capacity rb \<and> rb_contents rb' = rb_contents rb @ [x]"
    if "rb_push x rb = Some rb'"
    using that buffer_push_ok [OF inv, of x]
    by (cases "buffer_full rb")
      (auto simp: rb_push_def buffer_push_full split: prod.splits if_splits)
  show "rb_pop rb = None \<longleftrightarrow> rb_contents rb = []"
    using buffer_empty_iff [OF inv] buffer_pop_ok(1) [OF inv]
    by (cases "buffer_empty rb") (auto simp: rb_pop_def buffer_pop_empty split: prod.splits)
  show "rb_inv rb' \<and> rb_capacity rb' = rb_capacity rb \<and> rb_contents rb = x # rb_contents rb'"
    if "rb_pop rb = Some (x, rb')"
    using that buffer_pop_ok [OF inv]
    by (cases "buffer_empty rb")
      (auto simp: rb_pop_def buffer_pop_empty split: prod.splits if_splits)
qed

subsection \<open>Properties\<close>

text \<open>
  C5: The line buffer is a first-in first-out queue: after a successful \<open>buffer_init\<close>, for any
  sequence of \<open>buffer_push\<close> and \<open>buffer_pop\<close> calls, the strings accepted so far are the
  strings delivered so far followed by the buffer's content, in order, and the content never
  exceeds the size asked for.
\<close>

theorem ring_buffer_fifo:
  assumes "buffer_init avail sz rb0 = (0, rb)" and "INT_MIN \<le> sz" and "sz \<le> INT_MAX"
    and "fifo_run rb_push rb_pop ops rb = (t, ins, outs)"
  shows "ins = outs @ rb_contents t \<and> length (rb_contents t) \<le> nat sz"
  using ring.fifo_order [OF _ assms(4)] ring.fifo_never_overfull [OF _ assms(4)]
    buffer_init_ok [OF assms(1,2,3)] by simp

theorem ring_buffer_fifo_witness:
  "\<exists>t. fifo_run rb_push rb_pop [Push (Some (7::nat)), Push (Some 8), Push (Some 9), Pop, Push (Some 9)]
     \<lparr>buffer = [NULL, NULL], buffer_size = 2, buffer_start = 0, buffer_length = 0\<rparr> =
       (t, [Some 7, Some 8, Some 9], [Some 7]) \<and>
     [Some 7, Some 8, Some 9] = [Some 7] @ rb_contents t"
proof -
  let ?rb = "\<lparr>buffer = [NULL, NULL], buffer_size = 2, buffer_start = 0, buffer_length = 0\<rparr> :: nat ring_buffer"
  let ?t = "\<lparr>buffer = [Some 9, Some 8], buffer_size = 2, buffer_start = 1, buffer_length = 2\<rparr>"
  have "replicate (2::nat) NULL = [NULL, NULL :: nat ptr]" by (simp add: numeral_2_eq_2)
  then have init: "buffer_init (\<lambda>_. True) 2 buffer_globals = (0, ?rb)"
    by (simp add: buffer_init_def calloc_ok_def to_size_t_def buffer_globals_def)
  have "fifo_run rb_push rb_pop [Push (Some (7::nat)), Push (Some 8), Push (Some 9), Pop, Push (Some 9)] ?rb =
      (?t, [Some 7, Some 8, Some 9], [Some 7])"
    by (simp add: rb_push_def rb_pop_def handler_defs smod_mod_positive)
  with ring_buffer_fifo [OF init _ _ this] show ?thesis by auto
qed



end
