(* ===== verification/C_Lib.thy ===== *)
theory C_Lib
  imports Prelude
begin

text \<open>
  The parts of the C standard library the programs parse text with: \<open>isspace\<close>, \<open>atoi\<close>,
  \<open>strtok\<close>, \<open>fgets\<close> and the numbers of \<open>fscanf\<close>, over the bytes of a stream or a string.  A C string is the list of
  its characters up to, and without, the terminating NUL.
\<close>

abbreviation NL :: char where
  "NL \<equiv> CHR 0x0A"

abbreviation NUL :: char where
  "NUL \<equiv> CHR 0x00"

definition cstr :: "string \<Rightarrow> string" where
  "cstr mem = takeWhile (\<lambda>c. c \<noteq> NUL) mem"

definition isspace :: "char \<Rightarrow> bool" where
  "isspace c = (c = CHR '' '' \<or> c = CHR 0x09 \<or> c = NL \<or> c = CHR 0x0B \<or> c = CHR 0x0C \<or> c = CHR 0x0D)"

definition isdigit :: "char \<Rightarrow> bool" where
  "isdigit c = (48 \<le> (of_char c :: nat) \<and> (of_char c :: nat) \<le> 57)"

definition digit :: "char \<Rightarrow> int" where
  "digit c = int (of_char c) - 48"

text \<open>
  \<open>atoi\<close> is \<open>strtol\<close> in base 10 with the result narrowed to \<open>int\<close>; \<open>strtol\<close> saturates at
  the bounds of \<open>long\<close>.
\<close>

definition strtol10 :: "string \<Rightarrow> int" where
  "strtol10 s =
     (let t = dropWhile isspace s;
          neg = (t \<noteq> [] \<and> hd t = CHR ''-'');
          u = (if t \<noteq> [] \<and> (hd t = CHR ''-'' \<or> hd t = CHR ''+'') then tl t else t);
          n = foldl (\<lambda>a c. 10 * a + digit c) 0 (takeWhile isdigit u)
      in max (- (2 ^ 63)) (min (2 ^ 63 - 1) (if neg then - n else n)))"

definition atoi :: "string \<Rightarrow> int" where
  "atoi s = to_int (strtol10 s)"

text \<open>
  \<open>strtok\<close> returns the token and the text its static pointer is left at; the delimiter that
  ends a token is overwritten, so the text continues after it.
\<close>

definition strtok :: "char list \<Rightarrow> string \<Rightarrow> string ptr \<times> string" where
  "strtok delims s =
     (let t = dropWhile (\<lambda>c. c \<in> set delims) s in
      if t = [] then (NULL, [])
      else (Some (takeWhile (\<lambda>c. c \<notin> set delims) t), tl (dropWhile (\<lambda>c. c \<notin> set delims) t)))"

text \<open>
  \<open>fgets\<close> on the unread part of a stream: at most \<open>n - 1\<close> characters, up to and with the
  first newline; \<open>None\<close> when there is nothing to read.
\<close>

fun read_line :: "nat \<Rightarrow> string \<Rightarrow> string \<times> string" where
  "read_line 0 s = ([], s)"
| "read_line (Suc n) [] = ([], [])"
| "read_line (Suc n) (c # s) =
     (if c = NL then ([c], s) else (case read_line n s of (l, r) \<Rightarrow> (c # l, r)))"

definition fgets :: "nat \<Rightarrow> string \<Rightarrow> (string \<times> string) option" where
  "fgets n s = (if s = [] then None else Some (read_line (n - 1) s))"

text \<open>
  The conversions of \<open>fscanf\<close>: white space is skipped, then an optional sign and at least one
  digit are needed.  \<open>%zu\<close> saturates at the largest \<open>size_t\<close> and accepts a sign; \<open>%d\<close> saturates
  at the bounds of \<open>long\<close> and is then narrowed.
\<close>

definition scan_num :: "string \<Rightarrow> (int \<times> string) option" where
  "scan_num s =
     (let t = dropWhile isspace s;
          neg = (t \<noteq> [] \<and> hd t = CHR ''-'');
          u = (if t \<noteq> [] \<and> (hd t = CHR ''-'' \<or> hd t = CHR ''+'') then tl t else t);
          n = foldl (\<lambda>a c. 10 * a + digit c) 0 (takeWhile isdigit u)
      in if takeWhile isdigit u = [] then None else Some (if neg then - n else n, dropWhile isdigit u))"

definition scan_zu :: "string \<Rightarrow> (size_t \<times> string) option" where
  "scan_zu s =
     map_option (\<lambda>(v, r). (if v \<le> - (2 ^ 64) \<or> 2 ^ 64 \<le> v then -1 else word_of_int v, r)) (scan_num s)"

definition scan_d :: "string \<Rightarrow> (int \<times> string) option" where
  "scan_d s =
     map_option (\<lambda>(v, r). (to_int (max (- (2 ^ 63)) (min (2 ^ 63 - 1) v)), r)) (scan_num s)"

text \<open>\<open>printf\<close> of an integer in decimal.\<close>

definition digit_char :: "nat \<Rightarrow> char" where
  "digit_char k = char_of (48 + k)"

fun print_u :: "nat \<Rightarrow> string" where
  "print_u n = (if n < 10 then [digit_char n] else print_u (n div 10) @ [digit_char (n mod 10)])"

declare print_u.simps [simp del]

definition print_d :: "int \<Rightarrow> string" where
  "print_d i = (if i < 0 then CHR ''-'' # print_u (nat (- i)) else print_u (nat i))"

lemma isspace_chars [simp]: "isspace NL" "isspace (CHR '' '')" "\<not> isspace NUL"
  by (simp_all add: isspace_def)

lemma read_line_append: "read_line n s = (l, r) \<Longrightarrow> s = l @ r"
  by (induction n s arbitrary: l r rule: read_line.induct) (auto split: if_splits prod.splits)

lemma read_line_length: "read_line n s = (l, r) \<Longrightarrow> length l \<le> n"
  by (induction n s arbitrary: l r rule: read_line.induct) (auto split: if_splits prod.splits)

lemma read_line_nonempty: "read_line n s = (l, r) \<Longrightarrow> 0 < n \<Longrightarrow> s \<noteq> [] \<Longrightarrow> l \<noteq> []"
  by (cases "(n, s)" rule: read_line.cases) (auto split: if_splits prod.splits)

lemma read_line_newline:
  "read_line n s = (l, r) \<Longrightarrow> NL \<in> set (butlast l) \<Longrightarrow> False"
  by (induction n s arbitrary: l r rule: read_line.induct)
    (auto split: if_splits prod.splits)

lemma read_line_NL: "NL \<notin> set l \<Longrightarrow> length l < n \<Longrightarrow> read_line n (l @ NL # r) = (l @ [NL], r)"
proof (induction l arbitrary: n)
  case Nil
  then show ?case by (cases n) auto
next
  case (Cons c l)
  then show ?case by (cases n) auto
qed

text \<open>The file loops end: every \<open>fgets\<close> that reads something consumes input.\<close>

lemma fgets_decreases [termination_simp]:
  "fgets n s = Some (l, r) \<Longrightarrow> 2 \<le> n \<Longrightarrow> length r < length s"
  using read_line_append [of "n - 1" s l r] read_line_nonempty [of "n - 1" s l r]
  by (auto simp: fgets_def split: if_splits)

lemma cstr_no_NUL: "NUL \<notin> set (cstr s)"
  by (auto simp: cstr_def dest: set_takeWhileD)

lemma cstr_id [simp]: "NUL \<notin> set s \<Longrightarrow> cstr s = s"
  by (auto simp: cstr_def takeWhile_eq_all_conv)

lemma atoi_bounds: "INT_MIN \<le> atoi s \<and> atoi s \<le> INT_MAX"
  using sint_range_size [of "word_of_int (strtol10 s) :: 32 word"]
  by (auto simp: atoi_def to_int_def word_size)

subsection \<open>Decimal numbers\<close>

lemma digit_digit_char: "k < 10 \<Longrightarrow> digit (digit_char k) = int k"
  by (simp add: digit_def digit_char_def)

lemma isdigit_digit_char: "k < 10 \<Longrightarrow> isdigit (digit_char k)"
  by (simp add: isdigit_def digit_char_def)

lemma isdigit_cases: "isdigit c \<Longrightarrow> \<not> isspace c \<and> c \<noteq> CHR ''-'' \<and> c \<noteq> CHR ''+'' \<and> c \<noteq> NUL \<and> c \<noteq> CHR ''=''"
  by (auto simp: isdigit_def isspace_def)

lemma print_u_nonempty [simp]: "print_u n \<noteq> []"
  by (subst print_u.simps) simp

lemma print_u_digits: "\<forall>c \<in> set (print_u n). isdigit c"
proof (induction n rule: print_u.induct)
  case (1 n)
  then show ?case
    by (subst print_u.simps) (auto simp: isdigit_digit_char)
qed

lemma int_mod_div: "10 * int (n div 10) + int (n mod 10) = int n"
  by (metis mult_div_mod_eq of_nat_add of_nat_mult of_nat_numeral)

lemma print_u_value: "foldl (\<lambda>a c. 10 * a + digit c) 0 (print_u n) = int n"
proof (induction n rule: print_u.induct)
  case (1 n)
  show ?case
  proof (cases "n < 10")
    case True
    then show ?thesis by (subst print_u.simps) (simp add: digit_digit_char)
  next
    case False
    with 1 have "foldl (\<lambda>a c. 10 * a + digit c) 0 (print_u (n div 10)) = int (n div 10)" by simp
    with False show ?thesis
      using int_mod_div [of n] by (subst print_u.simps) (simp add: digit_digit_char)
  qed
qed

lemma print_u_length: "n < 10 ^ k \<Longrightarrow> 0 < k \<Longrightarrow> length (print_u n) \<le> k"
proof (induction n arbitrary: k rule: print_u.induct)
  case (1 n)
  show ?case
  proof (cases "n < 10")
    case True
    with 1 show ?thesis by (subst print_u.simps) simp
  next
    case False
    obtain j where k: "k = Suc j" using "1.prems" by (cases k) auto
    then have "0 < j" using "1.prems" False by (cases j) auto
    have "n div 10 < 10 ^ j" using "1.prems" k
      by (simp add: less_mult_imp_div_less mult.commute)
    with "1.IH" [of j] False k \<open>0 < j\<close> show ?thesis
      by (subst print_u.simps) simp
  qed
qed

lemma print_d_chars:
  "print_d i \<noteq> [] \<and> (\<forall>c \<in> set (print_d i). isdigit c \<or> c = CHR ''-'')"
  using print_u_digits by (auto simp: print_d_def)

lemma strtol10_digits:
  assumes "\<forall>c \<in> set ds. isdigit c" and "ds \<noteq> []"
  shows "strtol10 ds = min (2 ^ 63 - 1) (foldl (\<lambda>a c. 10 * a + digit c) 0 ds)"
    and "strtol10 (CHR ''-'' # ds) = max (- (2 ^ 63)) (- foldl (\<lambda>a c. 10 * a + digit c) 0 ds)"
proof -
  have nonneg: "0 \<le> a \<Longrightarrow> 0 \<le> foldl (\<lambda>a c. 10 * a + digit c) a ds" for a
    using assms(1) by (induction ds arbitrary: a) (auto simp: digit_def isdigit_def)
  have "hd ds \<in> set ds" using assms(2) by simp
  then have hd: "\<not> isspace (hd ds)" "hd ds \<noteq> CHR ''-''" "hd ds \<noteq> CHR ''+''"
    using assms(1) isdigit_cases by blast+
  then have "dropWhile isspace ds = ds"
    using assms(2) by (cases ds) auto
  moreover have tk: "takeWhile isdigit ds = ds"
    using assms(1) by (simp add: takeWhile_eq_all_conv)
  moreover have "\<not> isspace (CHR ''-'')" by (simp add: isspace_def)
  ultimately show
    "strtol10 ds = min (2 ^ 63 - 1) (foldl (\<lambda>a c. 10 * a + digit c) 0 ds)"
    "strtol10 (CHR ''-'' # ds) = max (- (2 ^ 63)) (- foldl (\<lambda>a c. 10 * a + digit c) 0 ds)"
    using hd assms(2) nonneg [of 0] by (simp_all add: strtol10_def Let_def tk)
qed

text \<open>\<open>atoi\<close> reads back what \<open>printf\<close> wrote.\<close>

lemma atoi_print_d: "INT_MIN \<le> i \<Longrightarrow> i \<le> INT_MAX \<Longrightarrow> atoi (print_d i) = i"
  using print_u_digits print_u_value
  by (auto simp: atoi_def print_d_def strtol10_digits)

lemma not_digit [simp]: "\<not> isdigit NL" "\<not> isdigit (CHR '' '')"
  by (simp_all add: isdigit_def)

lemma span_digits:
  assumes "\<forall>c \<in> set ds. isdigit c" and "r = [] \<or> \<not> isdigit (hd r)"
  shows "takeWhile isdigit (ds @ r) = ds" "dropWhile isdigit (ds @ r) = r"
  using assms by (auto simp: takeWhile_append2 dropWhile_append2; cases r; auto)+

lemma scan_num_digits:
  assumes "\<forall>c \<in> set sp. isspace c" and "r = [] \<or> \<not> isdigit (hd r)"
  shows "scan_num (sp @ print_u n @ r) = Some (int n, r)"
proof -
  have p: "print_u n \<noteq> []" "\<forall>c \<in> set (print_u n). isdigit c" using print_u_digits by auto
  then have h: "isdigit (hd (print_u n))" using hd_in_set by blast
  then have "dropWhile isspace (print_u n @ r) = print_u n @ r" using p(1) isdigit_cases by (cases "print_u n") auto
  then have "dropWhile isspace (sp @ print_u n @ r) = print_u n @ r" using assms(1) by (simp add: dropWhile_append2)
  moreover have "hd (print_u n @ r) \<noteq> CHR ''-''" "hd (print_u n @ r) \<noteq> CHR ''+''"
    using h p(1) isdigit_cases by (auto simp: hd_append)
  ultimately show ?thesis using span_digits [OF p(2) assms(2)] p(1) print_u_value [of n]
    by (simp add: scan_num_def Let_def)
qed

lemma zu_value: "(if uint w \<le> - (2 ^ 64) \<or> 2 ^ 64 \<le> uint w then -1 else word_of_int (uint w)) = w" for w :: size_t
proof -
  have "0 \<le> uint w" "uint w < 2 ^ 64" using uint_bounded [of w] by simp_all
  then have "\<not> (uint w \<le> - (2 ^ 64) \<or> 2 ^ 64 \<le> uint w)" by linarith
  then show ?thesis by (simp only: if_False word_of_int_uint)
qed

lemma to_int_small: "0 \<le> i \<Longrightarrow> i < 256 \<Longrightarrow> to_int (max (- (2 ^ 63)) (min (2 ^ 63 - 1) i)) = i"
  by (simp add: max_def min_def)

lemma d_value: "to_int (max (- (2 ^ 63)) (min (2 ^ 63 - 1) (uint b))) = uint b" for b :: byte
  using uint_bounded [of b] by (intro to_int_small) simp_all

lemma scan_zu_digits:
  assumes "\<forall>c \<in> set sp. isspace c" and "r = [] \<or> \<not> isdigit (hd r)"
  shows "scan_zu (sp @ print_u (unat w) @ r) = Some (w, r)"
  using scan_num_digits [OF assms, of "unat w"] zu_value [of w] by (simp add: scan_zu_def)

lemma scan_d_byte:
  fixes b :: byte
  assumes "r = [] \<or> \<not> isdigit (hd r)"
  shows "scan_d (print_d (uint b) @ r) = Some (uint b, r)"
proof -
  have "print_d (uint b) = print_u (unat b)" by (simp add: print_d_def)
  then show ?thesis using scan_num_digits [of "[]" r "unat b"] assms d_value [of b] by (simp add: scan_d_def)
qed

end
