(* ===== verification/Config_Cl.thy ===== *)
theory Config_Cl
  imports C_Lib
begin

text \<open>
  The configuration of the producer/consumer programs (\<open>cw09/zad1/src/cl.h\<close>, \<open>cl.c\<close>): the
  struct \<open>cl\<close>, the reader of \<open>name = value\<close> files and the test that decides which lines a
  consumer prints.  A run of the reader ends with a configuration or with one of the ways the
  C code gives up; dereferencing \<open>NULL\<close> and overrunning \<open>filename\<close> are such ways.
\<close>

datatype comparison_t = GT | LT | EQ

record cl =
  cl_producers :: int
  cl_consumers :: int
  cl_buffer_size :: int
  cl_filename :: string
  cl_line_length :: int
  cl_cmp :: comparison_t
  cl_time_limit :: int
  cl_verbose :: int
  cl_sleep :: int

datatype cl_error =
    Cl_Usage
  | Cl_Open_Failed
  | Cl_Unrecognized string
  | Cl_Null_Deref
  | Cl_Filename_Overflow

text \<open>The global struct starts zeroed.\<close>

definition cl_globals :: cl where
  "cl_globals = \<lparr>cl_producers = 0, cl_consumers = 0, cl_buffer_size = 0, cl_filename = [],
     cl_line_length = 0, cl_cmp = GT, cl_time_limit = 0, cl_verbose = 0, cl_sleep = 0\<rparr>"

definition trim :: "string ptr \<Rightarrow> cl_error + string ptr" where
  "trim str =
     (case str of
        NULL \<Rightarrow> Inl Cl_Null_Deref
      | Some s \<Rightarrow> Inr (fst (strtok '' '' (dropWhile (\<lambda>c. c = CHR '' '') s))))"

text \<open>The body of the \<open>if\<close> chain, for a value that is not \<open>NULL\<close>.\<close>

definition cl_set :: "string \<Rightarrow> string \<Rightarrow> cl \<Rightarrow> cl_error + cl" where
  "cl_set name value cl =
     (if name = ''producers'' then Inr (cl\<lparr>cl_producers := atoi value\<rparr>)
      else if name = ''consumers'' then Inr (cl\<lparr>cl_consumers := atoi value\<rparr>)
      else if name = ''buffer-size'' then Inr (cl\<lparr>cl_buffer_size := atoi value\<rparr>)
      else if name = ''file'' then
        (if length value < 256 then Inr (cl\<lparr>cl_filename := value\<rparr>) else Inl Cl_Filename_Overflow)
      else if name = ''time-limit'' then Inr (cl\<lparr>cl_time_limit := atoi value\<rparr>)
      else if name = ''verbose'' then Inr (cl\<lparr>cl_verbose := atoi value\<rparr>)
      else if name = ''sleep'' then Inr (cl\<lparr>cl_sleep := atoi value\<rparr>)
      else if name = ''length'' then
        (if value \<noteq> [] \<and> hd value = CHR ''<''
         then Inr (cl\<lparr>cl_cmp := LT, cl_line_length := atoi (tl value)\<rparr>)
         else if value \<noteq> [] \<and> hd value = CHR ''>''
         then Inr (cl\<lparr>cl_cmp := GT, cl_line_length := atoi (tl value)\<rparr>)
         else Inr (cl\<lparr>cl_cmp := EQ, cl_line_length := atoi value\<rparr>))
      else Inl (Cl_Unrecognized name))"

definition cl_keys :: "string list" where
  "cl_keys = [''producers'', ''consumers'', ''buffer-size'', ''file'', ''time-limit'',
     ''verbose'', ''sleep'', ''length'']"

text \<open>One line of the file, as \<open>fgets\<close> left it in \<open>buf\<close>.\<close>

definition cl_line :: "string \<Rightarrow> cl \<Rightarrow> cl_error + cl" where
  "cl_line buf cl =
     (if buf = [] \<or> hd buf = NUL \<or> hd buf = NL then Inr cl
      else
        let (name, rest) = strtok ''='' (cstr buf);
            (value, _) = strtok [NL] rest
        in case trim name of
             Inl e \<Rightarrow> Inl e
           | Inr name' \<Rightarrow>
               (case trim value of
                  Inl e \<Rightarrow> Inl e
                | Inr value' \<Rightarrow>
                    (case name' of
                       NULL \<Rightarrow> Inl Cl_Null_Deref
                     | Some n \<Rightarrow>
                         (case value' of
                            NULL \<Rightarrow> if n \<in> set cl_keys then Inl Cl_Null_Deref else Inl (Cl_Unrecognized n)
                          | Some v \<Rightarrow> cl_set n v cl))))"

function cl_read_lines :: "string \<Rightarrow> cl \<Rightarrow> cl_error + cl" where
  "cl_read_lines file cl =
     (case fgets (4 * 1024) file of
        None \<Rightarrow> Inr cl
      | Some (buf, rest) \<Rightarrow>
          (case cl_line buf cl of Inl e \<Rightarrow> Inl e | Inr cl' \<Rightarrow> cl_read_lines rest cl'))"
  by pat_completeness auto
termination
  by (relation "measure (\<lambda>(file, cl). length file)") (auto dest: fgets_decreases)

declare cl_read_lines.simps [simp del]

definition cl_read_config :: "string \<Rightarrow> cl \<Rightarrow> cl_error + cl" where
  "cl_read_config file cl =
     cl_read_lines file
       (cl\<lparr>cl_time_limit := 0, cl_line_length := -1, cl_cmp := GT, cl_verbose := 0, cl_sleep := 0\<rparr>)"

text \<open>\<open>fopen\<close> gives the text of a readable file; \<open>stdin\<close> is the text on standard input.\<close>

definition cl_initialize ::
    "(string \<Rightarrow> string ptr) \<Rightarrow> string \<Rightarrow> string list \<Rightarrow> cl \<Rightarrow> cl_error + cl" where
  "cl_initialize fopen stdin argv cl =
     (if length argv \<noteq> 1 \<and> length argv \<noteq> 2 then Inl Cl_Usage
      else if length argv = 1 then cl_read_config stdin cl
      else (case fopen (argv ! 1) of NULL \<Rightarrow> Inl Cl_Open_Failed | Some input \<Rightarrow> cl_read_config input cl))"

definition cl_shouldprint :: "cl \<Rightarrow> string \<Rightarrow> bool" where
  "cl_shouldprint cl line =
     (case cl_cmp cl of
        EQ \<Rightarrow> to_int (int (length line)) = cl_line_length cl
      | LT \<Rightarrow> to_int (int (length line)) < cl_line_length cl
      | GT \<Rightarrow> to_int (int (length line)) > cl_line_length cl)"

subsection \<open>Lemmas\<close>

lemma strtok_no_delim:
  "set delims \<inter> set s = {} \<Longrightarrow> strtok delims s = (if s = [] then (NULL, []) else (Some s, []))"
proof -
  assume disj: "set delims \<inter> set s = {}"
  then have "dropWhile (\<lambda>c. c \<in> set delims) s = s"
    by (cases s) auto
  moreover have "takeWhile (\<lambda>c. c \<notin> set delims) s = s"
    using disj by (auto simp: takeWhile_eq_all_conv)
  moreover have "dropWhile (\<lambda>c. c \<notin> set delims) s = []"
    using disj by (auto simp: dropWhile_eq_Nil_conv)
  ultimately show ?thesis by (simp only: strtok_def Let_def list.sel)
qed

lemma cl_line_blank: "buf = [] \<or> hd buf = NUL \<or> hd buf = NL \<Longrightarrow> cl_line buf cl = Inr cl"
  by (simp add: cl_line_def)

lemma cl_line_no_equals:
  assumes "buf \<noteq> []" "hd buf \<noteq> NUL" "hd buf \<noteq> NL" "CHR ''='' \<notin> set (cstr buf)"
  shows "cl_line buf cl = Inl Cl_Null_Deref"
proof -
  have "cstr buf \<noteq> []"
    using assms(1,2) by (cases buf) (auto simp: cstr_def)
  then have "strtok ''='' (cstr buf) = (Some (cstr buf), [])"
    using assms(4) by (subst strtok_no_delim) auto
  moreover have "strtok [NL] [] = (NULL, [])"
    by (simp add: strtok_def)
  ultimately show ?thesis
    using assms(1-3) by (simp add: cl_line_def trim_def)
qed

lemma strtok_token:
  assumes "set delims \<inter> set t = {}" and "t \<noteq> []" and "d \<in> set delims"
  shows "strtok delims (t @ d # r) = (Some t, r)"
proof -
  have "dropWhile (\<lambda>c. c \<in> set delims) (t @ d # r) = t @ d # r"
    using assms(1,2) by (cases t) auto
  moreover have "takeWhile (\<lambda>c. c \<notin> set delims) (t @ d # r) = t"
    "dropWhile (\<lambda>c. c \<notin> set delims) (t @ d # r) = d # r"
    using assms(1,3) by (auto simp: takeWhile_append dropWhile_append)
  ultimately show ?thesis using assms(2) by (simp add: strtok_def)
qed

text \<open>A line \<open>name = value\<close> sets that field, whatever the fields before.\<close>

lemma cl_line_assignment:
  assumes n: "n \<noteq> []" "CHR ''='' \<notin> set n" "CHR '' '' \<notin> set n" "NUL \<notin> set n" "NL \<notin> set n"
    and v: "v \<noteq> []" "CHR '' '' \<notin> set v" "NUL \<notin> set v" "NL \<notin> set v"
  shows "cl_line (n @ '' = '' @ v @ [NL]) cl = cl_set n v cl"
proof -
  let ?buf = "n @ '' = '' @ v @ [NL]"
  have hd: "?buf \<noteq> []" "hd ?buf \<noteq> NUL" "hd ?buf \<noteq> NL"
    using n by (cases n; auto)+
  have cs: "cstr ?buf = ?buf"
    using n(4) v(3) by (intro cstr_id) auto
  have "strtok ''='' ((n @ '' '') @ CHR ''='' # ('' '' @ v @ [NL])) = (Some (n @ '' ''), '' '' @ v @ [NL])"
    using n(1,2) by (intro strtok_token) auto
  then have 1: "strtok ''='' (cstr ?buf) = (Some (n @ '' ''), '' '' @ v @ [NL])"
    unfolding cs by simp
  have 2: "strtok [NL] ('' '' @ v @ [NL]) = (Some ('' '' @ v), [])"
    using strtok_token [of "[NL]" "'' '' @ v" NL "[]"] v(4) by simp
  have "dropWhile (\<lambda>c. c = CHR '' '') (n @ '' '') = n @ '' ''"
    using n(1,3) by (cases n) auto
  then have 3: "trim (Some (n @ '' '')) = Inr (Some n)"
    using strtok_token [of "'' ''" n "CHR '' ''" "[]"] n(1,3) by (simp add: trim_def)
  have "dropWhile (\<lambda>c. c = CHR '' '') ('' '' @ v) = v"
    using v(1,2) by (cases v) auto
  then have 4: "trim (Some ('' '' @ v)) = Inr (Some v)"
    using strtok_no_delim [of "'' ''" v] v(1,2) by (simp add: trim_def)
  show ?thesis
    unfolding cl_line_def 1 using hd 2 3 4 by simp
qed

lemma cl_read_line:
  assumes "NL \<notin> set l" and "length l < 4095"
  shows "cl_read_lines (l @ NL # r) cl =
    (case cl_line (l @ [NL]) cl of Inl e \<Rightarrow> Inl e | Inr cl' \<Rightarrow> cl_read_lines r cl')"
  using assms read_line_NL [of l 4095 r]
  by (subst cl_read_lines.simps) (simp add: fgets_def)

lemma cl_read_assignment:
  assumes "n \<noteq> []" "CHR ''='' \<notin> set n" "CHR '' '' \<notin> set n" "NUL \<notin> set n" "NL \<notin> set n"
    and "v \<noteq> []" "CHR '' '' \<notin> set v" "NUL \<notin> set v" "NL \<notin> set v"
    and "length n + length v < 4000"
  shows "cl_read_lines (n @ '' = '' @ v @ NL # r) cl =
    (case cl_set n v cl of Inl e \<Rightarrow> Inl e | Inr cl' \<Rightarrow> cl_read_lines r cl')"
  using cl_read_line [of "n @ '' = '' @ v" r cl] cl_line_assignment [OF assms(1-9), of cl] assms
  by simp

subsection \<open>Properties\<close>

text \<open>
  A configuration file in the format of \<open>config1\<close> and \<open>config2\<close>: one assignment per line,
  numbers in decimal, the comparison as a prefix of the length.
\<close>

definition cmp_prefix :: "comparison_t \<Rightarrow> string" where
  "cmp_prefix c = (case c of LT \<Rightarrow> ''<'' | GT \<Rightarrow> ''>'' | EQ \<Rightarrow> [])"

definition cl_render :: "cl \<Rightarrow> string" where
  "cl_render c =
     ''producers'' @ '' = '' @ print_d (cl_producers c) @ NL #
     ''consumers'' @ '' = '' @ print_d (cl_consumers c) @ NL #
     ''buffer-size'' @ '' = '' @ print_d (cl_buffer_size c) @ NL #
     ''file'' @ '' = '' @ cl_filename c @ NL #
     ''time-limit'' @ '' = '' @ print_d (cl_time_limit c) @ NL #
     ''verbose'' @ '' = '' @ print_d (cl_verbose c) @ NL #
     ''sleep'' @ '' = '' @ print_d (cl_sleep c) @ NL #
     ''length'' @ '' = '' @ (cmp_prefix (cl_cmp c) @ print_d (cl_line_length c)) @ NL # []"

abbreviation is_int :: "int \<Rightarrow> bool" where
  "is_int i \<equiv> INT_MIN \<le> i \<and> i \<le> INT_MAX"

definition cl_ints :: "cl \<Rightarrow> int list" where
  "cl_ints c = [cl_producers c, cl_consumers c, cl_buffer_size c, cl_line_length c,
     cl_time_limit c, cl_verbose c, cl_sleep c]"

lemma print_d_value:
  "print_d i \<noteq> []" "CHR '' '' \<notin> set (print_d i)" "NUL \<notin> set (print_d i)" "NL \<notin> set (print_d i)"
  using print_d_chars [of i] by (auto simp: isdigit_def)

lemma print_d_length: "is_int i \<Longrightarrow> length (print_d i) \<le> 11"
  using print_u_length [of "nat i" 10] print_u_length [of "nat (- i)" 10]
  by (auto simp: print_d_def nat_less_iff)

lemma hd_print_d: "hd (print_d i) \<noteq> CHR ''<''" "hd (print_d i) \<noteq> CHR ''>''"
proof -
  have "hd (print_d i) \<in> set (print_d i)" using print_d_value(1) by simp
  then have "isdigit (hd (print_d i)) \<or> hd (print_d i) = CHR ''-''"
    using print_d_chars by blast
  then show "hd (print_d i) \<noteq> CHR ''<''" "hd (print_d i) \<noteq> CHR ''>''"
    by (auto simp: isdigit_def)
qed

lemma cl_keys_ok:
  "n \<in> set cl_keys \<Longrightarrow> n \<noteq> [] \<and> CHR ''='' \<notin> set n \<and> CHR '' '' \<notin> set n \<and> NUL \<notin> set n \<and> NL \<notin> set n \<and>
     length n \<le> 11"
  by (auto simp: cl_keys_def)

lemma cl_read_key:
  assumes "n \<in> set cl_keys" and "v \<noteq> []" "CHR '' '' \<notin> set v" "NUL \<notin> set v" "NL \<notin> set v"
    and "length v < 3000"
  shows "cl_read_lines (n @ '' = '' @ v @ NL # r) cl =
    (case cl_set n v cl of Inl e \<Rightarrow> Inl e | Inr cl' \<Rightarrow> cl_read_lines r cl')"
  using assms cl_keys_ok [OF assms(1)] by (intro cl_read_assignment) simp_all

lemma cl_read_number:
  assumes "is_int i" and "n \<in> set cl_keys"
  shows "cl_read_lines (n @ '' = '' @ print_d i @ NL # r) cl =
    (case cl_set n (print_d i) cl of Inl e \<Rightarrow> Inl e | Inr cl' \<Rightarrow> cl_read_lines r cl')"
  using assms print_d_value [of i] print_d_length [of i] by (intro cl_read_key) simp_all

lemma cl_set_length:
  "is_int i \<Longrightarrow> cl_set ''length'' (cmp_prefix c @ print_d i) cl = Inr (cl\<lparr>cl_cmp := c, cl_line_length := i\<rparr>)"
  using hd_print_d [of i] print_d_value(1) [of i]
  by (cases c) (simp_all add: cl_set_def cmp_prefix_def atoi_print_d)

lemma cl_read_length:
  assumes "is_int i"
  shows "cl_read_lines (''length'' @ '' = '' @ (cmp_prefix c @ print_d i) @ NL # r) cl =
    cl_read_lines r (cl\<lparr>cl_cmp := c, cl_line_length := i\<rparr>)"
proof -
  have "cl_read_lines (''length'' @ '' = '' @ (cmp_prefix c @ print_d i) @ NL # r) cl =
    (case cl_set ''length'' (cmp_prefix c @ print_d i) cl of Inl e \<Rightarrow> Inl e | Inr cl' \<Rightarrow> cl_read_lines r cl')"
    using print_d_value [of i] print_d_length [OF assms]
    by (intro cl_read_key) (cases c; simp add: cl_keys_def cmp_prefix_def)+
  then show ?thesis by (simp only: cl_set_length [OF assms] sum.case)
qed

text \<open>
  C7: Reading a configuration file written in the documented format gives back every setting:
  whatever the struct held before, \<open>__cl_read_config\<close> on the rendering of a configuration
  returns that configuration.
\<close>

theorem cl_config_roundtrip:
  assumes "\<forall>i \<in> set (cl_ints c). is_int i"
    and "cl_filename c \<noteq> []" "length (cl_filename c) < 256"
    and "CHR '' '' \<notin> set (cl_filename c)" "NUL \<notin> set (cl_filename c)" "NL \<notin> set (cl_filename c)"
  shows "cl_read_config (cl_render c) cl = Inr c"
proof -
  have fname: "cl_read_lines (''file'' @ '' = '' @ cl_filename c @ NL # r) cl =
      (case cl_set ''file'' (cl_filename c) cl of Inl e \<Rightarrow> Inl e | Inr cl' \<Rightarrow> cl_read_lines r cl')" for r cl
    using assms(2-6) by (intro cl_read_key) (simp_all add: cl_keys_def)
  have end_of_file: "cl_read_lines [] cl = Inr cl" for cl
    by (subst cl_read_lines.simps) (simp add: fgets_def)
  have ints: "is_int (cl_producers c)" "is_int (cl_consumers c)" "is_int (cl_buffer_size c)"
    "is_int (cl_line_length c)" "is_int (cl_time_limit c)" "is_int (cl_verbose c)" "is_int (cl_sleep c)"
    using assms(1) by (simp_all add: cl_ints_def)
  show ?thesis
    unfolding cl_read_config_def cl_render_def
    using ints assms(3)
    by (simp only: cl_read_number cl_read_length fname end_of_file cl_keys_def list.set insert_iff
        simp_thms cl_set_def atoi_print_d sum.case if_True if_False list.inject char.inject list.distinct)
      simp
qed

theorem cl_config_roundtrip_witness:
  "cl_read_config (cl_render (cl_globals\<lparr>cl_filename := ''input'', cl_line_length := 10, cl_cmp := LT\<rparr>))
     cl_globals = Inr (cl_globals\<lparr>cl_filename := ''input'', cl_line_length := 10, cl_cmp := LT\<rparr>)"
  by (rule cl_config_roundtrip) (simp_all add: cl_ints_def cl_globals_def)

text \<open>
  A line without \<open>=\<close> that is not blank crashes the reader: \<open>strtok\<close> returns \<open>NULL\<close> for
  the value and \<open>trim\<close> dereferences it.
\<close>

theorem cl_missing_equals_crashes:
  assumes "buf \<noteq> []" "hd buf \<noteq> NUL" "hd buf \<noteq> NL" "CHR ''='' \<notin> set (cstr buf)"
  shows "cl_line buf cl = Inl Cl_Null_Deref"
  using assms by (rule cl_line_no_equals)

theorem cl_missing_equals_crashes_witness: "cl_line (''verbose'' @ [NL]) cl_globals = Inl Cl_Null_Deref"
  by (rule cl_missing_equals_crashes) simp_all

end
