(* ===== verification/Producer_Consumer.thy ===== *)
theory Producer_Consumer
  imports Ring_Buffer Config_Cl
begin

text \<open>
  The semaphore version of the producer/consumer program (\<open>cw09/zad1/src/main-sem.c\<close>) with
  the thread driver \<open>cw09/zad1/src/runner.c\<close>.  Every thread is a program counter with its
  local variables; a step runs the code from one synchronisation call to the next, so the
  interleavings of the model are those of the threads at the calls that can block or touch
  shared state.  A thread that cannot move (a semaphore at zero, a join on a running thread)
  has no step.  The semaphore calls succeed; log lines are not output of the model.
\<close>

subsection \<open>Shared state\<close>

text \<open>
  The three semaphores, the buffer, the lines the consumers have printed and those they have
  freed.
\<close>

record shared =
  buffer_mx :: nat
  producer_line :: nat
  consumer_line :: nat
  buf :: "string ring_buffer"
  printed :: "string list"
  freed :: "string ptr list"

definition sem_post :: "(nat \<Rightarrow> nat)" where
  "sem_post v = v + 1"

definition sem_wait :: "nat \<Rightarrow> nat option" where
  "sem_wait v = (if v = 0 then None else Some (v - 1))"

subsection \<open>Producer\<close>

text \<open>
  The program counters are the statements of \<open>producer\<close> in order; a counter carries the
  local variable \<open>line\<close> while it matters.  \<open>P_Exit\<close> keeps the line a cancelled thread still
  held; \<open>P_Unopened\<close> is a thread that ended before it had the file open.
\<close>

datatype producer_pc =
    P_Start
  | P_Read
  | P_Lock string
  | P_Test string
  | P_Release string
  | P_Wait string
  | P_Relock string
  | P_Push string
  | P_Signal
  | P_Unlock
  | P_Exit "string ptr"
  | P_Unopened

record producer =
  p_pc :: producer_pc
  p_file :: "string list"
  p_pending :: bool

text \<open>
  \<open>file\<close> is what \<open>fopen(cl.filename)\<close> gives: the lines \<open>getline\<close> will return, with their
  newlines, or \<open>NULL\<close>.  \<open>strtok(line, "\n")\<close> drops the newline; it is \<open>NULL\<close> for an empty
  line, which is skipped.
\<close>

definition producer_step ::
    "string list ptr \<Rightarrow> shared \<Rightarrow> producer \<Rightarrow> (shared \<times> producer) option" where
  "producer_step file sh p =
     (case p_pc p of
        P_Start \<Rightarrow>
          (case file of
             NULL \<Rightarrow> Some (sh, p\<lparr>p_pc := P_Unopened\<rparr>)
           | Some ls \<Rightarrow> Some (sh, p\<lparr>p_pc := P_Read, p_file := ls\<rparr>))
      | P_Read \<Rightarrow>
          (case p_file p of
             [] \<Rightarrow> Some (sh, p\<lparr>p_pc := P_Exit NULL\<rparr>)
           | l # ls \<Rightarrow>
               (case fst (strtok [NL] (cstr l)) of
                  NULL \<Rightarrow> Some (sh, p\<lparr>p_file := ls\<rparr>)
                | Some line \<Rightarrow> Some (sh, p\<lparr>p_pc := P_Lock line, p_file := ls\<rparr>)))
      | P_Lock line \<Rightarrow>
          map_option (\<lambda>v. (sh\<lparr>buffer_mx := v\<rparr>, p\<lparr>p_pc := P_Test line\<rparr>)) (sem_wait (buffer_mx sh))
      | P_Test line \<Rightarrow>
          Some (sh, p\<lparr>p_pc := if buffer_full (buf sh) then P_Release line else P_Push line\<rparr>)
      | P_Release line \<Rightarrow>
          Some (sh\<lparr>buffer_mx := sem_post (buffer_mx sh)\<rparr>, p\<lparr>p_pc := P_Wait line\<rparr>)
      | P_Wait line \<Rightarrow>
          map_option (\<lambda>v. (sh\<lparr>producer_line := v\<rparr>, p\<lparr>p_pc := P_Relock line\<rparr>))
            (sem_wait (producer_line sh))
      | P_Relock line \<Rightarrow>
          map_option (\<lambda>v. (sh\<lparr>buffer_mx := v\<rparr>, p\<lparr>p_pc := P_Test line\<rparr>)) (sem_wait (buffer_mx sh))
      | P_Push line \<Rightarrow>
          Some (sh\<lparr>buf := snd (buffer_push (Some line) (buf sh))\<rparr>, p\<lparr>p_pc := P_Signal\<rparr>)
      | P_Signal \<Rightarrow>
          Some (sh\<lparr>consumer_line := sem_post (consumer_line sh)\<rparr>, p\<lparr>p_pc := P_Unlock\<rparr>)
      | P_Unlock \<Rightarrow>
          Some (sh\<lparr>buffer_mx := sem_post (buffer_mx sh)\<rparr>, p\<lparr>p_pc := P_Read\<rparr>)
      | P_Exit _ \<Rightarrow> None
      | P_Unopened \<Rightarrow> None)"

text \<open>
  A producer never disables cancellation: a pending request takes effect where it calls a
  cancellation point, \<open>getline\<close> or a \<open>sem_wait\<close>, or \<open>usleep\<close> where \<open>cl.sleep\<close> is
  positive.
\<close>

definition producer_cancel :: "cl \<Rightarrow> producer \<Rightarrow> producer option" where
  "producer_cancel cl p =
     (if \<not> p_pending p then None
      else case p_pc p of
          P_Start \<Rightarrow> if 0 < cl_sleep cl then Some (p\<lparr>p_pc := P_Unopened\<rparr>) else None
        | P_Read \<Rightarrow> Some (p\<lparr>p_pc := P_Exit NULL\<rparr>)
        | P_Lock line \<Rightarrow> Some (p\<lparr>p_pc := P_Exit (Some line)\<rparr>)
        | P_Wait line \<Rightarrow> Some (p\<lparr>p_pc := P_Exit (Some line)\<rparr>)
        | P_Relock line \<Rightarrow> Some (p\<lparr>p_pc := P_Exit (Some line)\<rparr>)
        | _ \<Rightarrow> None)"

subsection \<open>Consumer\<close>

datatype consumer_pc =
    C_Start
  | C_Lock
  | C_Test
  | C_Release
  | C_Wait
  | C_Relock
  | C_Pop
  | C_Signal "string ptr"
  | C_Unlock "string ptr"
  | C_Print "string ptr"
  | C_Free "string ptr"
  | C_Exit

record consumer =
  c_pc :: consumer_pc
  c_pending :: bool

text \<open>\<open>cl_shouldprint\<close> reads the line; on a \<open>NULL\<close> line the thread has no step.\<close>

definition consumer_step ::
    "cl \<Rightarrow> shared \<Rightarrow> consumer \<Rightarrow> (shared \<times> consumer) option" where
  "consumer_step cl sh c =
     (case c_pc c of
        C_Start \<Rightarrow> Some (sh, c\<lparr>c_pc := C_Lock\<rparr>)
      | C_Lock \<Rightarrow>
          map_option (\<lambda>v. (sh\<lparr>buffer_mx := v\<rparr>, c\<lparr>c_pc := C_Test\<rparr>)) (sem_wait (buffer_mx sh))
      | C_Test \<Rightarrow>
          Some (sh, c\<lparr>c_pc := if buffer_empty (buf sh) then C_Release else C_Pop\<rparr>)
      | C_Release \<Rightarrow>
          Some (sh\<lparr>buffer_mx := sem_post (buffer_mx sh)\<rparr>, c\<lparr>c_pc := C_Wait\<rparr>)
      | C_Wait \<Rightarrow>
          map_option (\<lambda>v. (sh\<lparr>consumer_line := v\<rparr>, c\<lparr>c_pc := C_Relock\<rparr>))
            (sem_wait (consumer_line sh))
      | C_Relock \<Rightarrow>
          map_option (\<lambda>v. (sh\<lparr>buffer_mx := v\<rparr>, c\<lparr>c_pc := C_Test\<rparr>)) (sem_wait (buffer_mx sh))
      | C_Pop \<Rightarrow>
          (case buffer_pop NULL (buf sh) of (_, line, b) \<Rightarrow>
             Some (sh\<lparr>buf := b\<rparr>, c\<lparr>c_pc := C_Signal line\<rparr>))
      | C_Signal line \<Rightarrow>
          Some (sh\<lparr>producer_line := sem_post (producer_line sh)\<rparr>, c\<lparr>c_pc := C_Unlock line\<rparr>)
      | C_Unlock line \<Rightarrow>
          Some (sh\<lparr>buffer_mx := sem_post (buffer_mx sh)\<rparr>, c\<lparr>c_pc := C_Print line\<rparr>)
      | C_Print line \<Rightarrow>
          (case line of
             NULL \<Rightarrow> None
           | Some l \<Rightarrow>
               Some (if cl_shouldprint cl l then sh\<lparr>printed := printed sh @ [l]\<rparr> else sh,
                     c\<lparr>c_pc := C_Free line\<rparr>))
      | C_Free line \<Rightarrow> Some (sh\<lparr>freed := freed sh @ [line]\<rparr>, c\<lparr>c_pc := C_Lock\<rparr>)
      | C_Exit \<Rightarrow> None)"

text \<open>
  A consumer enables cancellation only around \<open>sem_wait(&consumer_line)\<close>; before its first
  \<open>pthread_setcancelstate\<close> it can be cancelled in \<open>usleep\<close>, which it calls when \<open>cl.sleep\<close>
  is positive.
\<close>

definition consumer_cancel :: "cl \<Rightarrow> consumer \<Rightarrow> consumer option" where
  "consumer_cancel cl c =
     (if \<not> c_pending c then None
      else if c_pc c = C_Wait \<or> (c_pc c = C_Start \<and> 0 < cl_sleep cl)
      then Some (c\<lparr>c_pc := C_Exit\<rparr>) else None)"

subsection \<open>Driver\<close>

text \<open>
  \<open>run\<close> after it has created the threads: the two orders of cancelling and joining, by
  \<open>cl.time_limit\<close>.  \<open>M_Sleep\<close> is the time limit running.
\<close>

datatype main_pc =
    M_Sleep
  | M_Cancel_Producers nat
  | M_Join_Producers nat
  | M_Cancel_Consumers nat
  | M_Join_Consumers nat
  | M_Done

record sys =
  shm :: shared
  producers :: "producer list"
  consumers :: "consumer list"
  main_thread :: main_pc

definition cancel_thread_p :: "nat \<Rightarrow> producer list \<Rightarrow> producer list" where
  "cancel_thread_p i ps = ps[i := (ps ! i)\<lparr>p_pending := True\<rparr>]"

definition cancel_thread_c :: "nat \<Rightarrow> consumer list \<Rightarrow> consumer list" where
  "cancel_thread_c i cs = cs[i := (cs ! i)\<lparr>c_pending := True\<rparr>]"

definition p_finished :: "producer \<Rightarrow> bool" where
  "p_finished p = (case p_pc p of P_Exit _ \<Rightarrow> True | P_Unopened \<Rightarrow> True | _ \<Rightarrow> False)"

definition run_step :: "cl \<Rightarrow> sys \<Rightarrow> sys option" where
  "run_step cl s =
     (case main_thread s of
        M_Sleep \<Rightarrow> Some (s\<lparr>main_thread := M_Cancel_Producers 0\<rparr>)
      | M_Cancel_Producers i \<Rightarrow>
          if i < length (producers s)
          then Some (s\<lparr>producers := cancel_thread_p i (producers s),
                       main_thread := M_Cancel_Producers (Suc i)\<rparr>)
          else Some (s\<lparr>main_thread := M_Cancel_Consumers 0\<rparr>)
      | M_Cancel_Consumers i \<Rightarrow>
          if i < length (consumers s)
          then Some (s\<lparr>consumers := cancel_thread_c i (consumers s),
                       main_thread := M_Cancel_Consumers (Suc i)\<rparr>)
          else Some (s\<lparr>main_thread :=
                 if cl_time_limit cl \<noteq> 0 then M_Join_Producers 0 else M_Join_Consumers 0\<rparr>)
      | M_Join_Producers i \<Rightarrow>
          if i < length (producers s)
          then (if p_finished (producers s ! i)
                then Some (s\<lparr>main_thread := M_Join_Producers (Suc i)\<rparr>) else None)
          else Some (s\<lparr>main_thread :=
                 if cl_time_limit cl \<noteq> 0 then M_Join_Consumers 0 else M_Cancel_Consumers 0\<rparr>)
      | M_Join_Consumers i \<Rightarrow>
          if i < length (consumers s)
          then (if c_pc (consumers s ! i) = C_Exit
                then Some (s\<lparr>main_thread := M_Join_Consumers (Suc i)\<rparr>) else None)
          else Some (s\<lparr>main_thread := M_Done\<rparr>)
      | M_Done \<Rightarrow> None)"

definition sem_init :: "cl \<Rightarrow> string ring_buffer \<Rightarrow> sys" where
  "sem_init cl b =
     \<lparr>shm = \<lparr>buffer_mx = 1, producer_line = 0, consumer_line = 0, buf = b, printed = [], freed = []\<rparr>,
      producers = replicate (nat (cl_producers cl)) \<lparr>p_pc = P_Start, p_file = [], p_pending = False\<rparr>,
      consumers = replicate (nat (cl_consumers cl)) \<lparr>c_pc = C_Start, c_pending = False\<rparr>,
      main_thread = if cl_time_limit cl \<noteq> 0 then M_Sleep else M_Join_Producers 0\<rparr>"

subsection \<open>Interleavings\<close>

datatype action = Producer nat | Cancel_Producer nat | Consumer nat | Cancel_Consumer nat | Main_Thread

definition sem_step :: "cl \<Rightarrow> string list ptr \<Rightarrow> action \<Rightarrow> sys \<Rightarrow> sys option" where
  "sem_step cl file a s =
     (case a of
        Producer i \<Rightarrow>
          if i < length (producers s)
          then map_option (\<lambda>(sh, p). s\<lparr>shm := sh, producers := (producers s)[i := p]\<rparr>)
                 (producer_step file (shm s) (producers s ! i))
          else None
      | Cancel_Producer i \<Rightarrow>
          if i < length (producers s)
          then map_option (\<lambda>p. s\<lparr>producers := (producers s)[i := p]\<rparr>) (producer_cancel cl (producers s ! i))
          else None
      | Consumer i \<Rightarrow>
          if i < length (consumers s)
          then map_option (\<lambda>(sh, c). s\<lparr>shm := sh, consumers := (consumers s)[i := c]\<rparr>)
                 (consumer_step cl (shm s) (consumers s ! i))
          else None
      | Cancel_Consumer i \<Rightarrow>
          if i < length (consumers s)
          then map_option (\<lambda>c. s\<lparr>consumers := (consumers s)[i := c]\<rparr>) (consumer_cancel cl (consumers s ! i))
          else None
      | Main_Thread \<Rightarrow> run_step cl s)"

fun sem_run :: "cl \<Rightarrow> string list ptr \<Rightarrow> action list \<Rightarrow> sys \<Rightarrow> sys option" where
  "sem_run cl file [] s = Some s"
| "sem_run cl file (a # as) s =
     (case sem_step cl file a s of None \<Rightarrow> None | Some s' \<Rightarrow> sem_run cl file as s')"

inductive sem_reachable :: "cl \<Rightarrow> string list ptr \<Rightarrow> string ring_buffer \<Rightarrow> sys \<Rightarrow> bool"
  for cl fl b where
  start: "sem_reachable cl fl b (sem_init cl b)"
| step: "sem_reachable cl fl b s \<Longrightarrow> sem_step cl fl a s = Some t \<Longrightarrow> sem_reachable cl fl b t"

subsection \<open>Invariants\<close>

text \<open>
  Who holds \<open>buffer_mx\<close>, what the holder knows of the buffer, and where the lines are: not
  yet read, held by a thread, in the buffer, or freed.
\<close>

definition p_holds :: "producer \<Rightarrow> nat" where
  "p_holds p = (case p_pc p of
     P_Test _ \<Rightarrow> 1 | P_Release _ \<Rightarrow> 1 | P_Push _ \<Rightarrow> 1 | P_Signal \<Rightarrow> 1 | P_Unlock \<Rightarrow> 1 | _ \<Rightarrow> 0)"

definition c_holds :: "consumer \<Rightarrow> nat" where
  "c_holds c = (case c_pc c of
     C_Test \<Rightarrow> 1 | C_Release \<Rightarrow> 1 | C_Pop \<Rightarrow> 1 | C_Signal _ \<Rightarrow> 1 | C_Unlock _ \<Rightarrow> 1 | _ \<Rightarrow> 0)"

definition p_ok :: "string ring_buffer \<Rightarrow> producer \<Rightarrow> bool" where
  "p_ok b p = (case p_pc p of
     P_Push _ \<Rightarrow> \<not> buffer_full b | P_Release _ \<Rightarrow> buffer_full b | _ \<Rightarrow> True)"

definition c_ok :: "string ring_buffer \<Rightarrow> consumer \<Rightarrow> bool" where
  "c_ok b c = (case c_pc c of
     C_Pop \<Rightarrow> \<not> buffer_empty b | C_Release \<Rightarrow> buffer_empty b | _ \<Rightarrow> True)"

definition lines_of :: "string list \<Rightarrow> string list" where
  "lines_of ls = List.map_filter (\<lambda>l. fst (strtok [NL] (cstr l))) ls"

definition p_todo :: "string list ptr \<Rightarrow> producer \<Rightarrow> string ptr multiset" where
  "p_todo file p =
     (case p_pc p of
        P_Start \<Rightarrow> mset (map Some (lines_of (case file of NULL \<Rightarrow> [] | Some ls \<Rightarrow> ls)))
      | P_Unopened \<Rightarrow> mset (map Some (lines_of (case file of NULL \<Rightarrow> [] | Some ls \<Rightarrow> ls)))
      | pc \<Rightarrow> mset (map Some (lines_of (p_file p))) +
          (case pc of
             P_Lock l \<Rightarrow> {#Some l#} | P_Test l \<Rightarrow> {#Some l#} | P_Release l \<Rightarrow> {#Some l#}
           | P_Wait l \<Rightarrow> {#Some l#} | P_Relock l \<Rightarrow> {#Some l#} | P_Push l \<Rightarrow> {#Some l#}
           | P_Exit (Some l) \<Rightarrow> {#Some l#} | _ \<Rightarrow> {#}))"

definition c_held :: "consumer \<Rightarrow> string ptr multiset" where
  "c_held c =
     (case c_pc c of
        C_Signal l \<Rightarrow> {#l#} | C_Unlock l \<Rightarrow> {#l#} | C_Print l \<Rightarrow> {#l#} | C_Free l \<Rightarrow> {#l#} | _ \<Rightarrow> {#})"

definition sem_inv :: "sys \<Rightarrow> bool" where
  "sem_inv s \<longleftrightarrow>
     rb_inv (buf (shm s)) \<and>
     buffer_mx (shm s) + total p_holds (producers s) + total c_holds (consumers s) = 1 \<and>
     (\<forall>p \<in> set (producers s). p_ok (buf (shm s)) p) \<and>
     (\<forall>c \<in> set (consumers s). c_ok (buf (shm s)) c)"

definition all_lines :: "string list ptr \<Rightarrow> sys \<Rightarrow> string ptr multiset" where
  "all_lines file s =
     total (p_todo file) (producers s) + mset (rb_contents (buf (shm s))) +
     total c_held (consumers s) + mset (freed (shm s))"

lemmas thread_weights = p_holds_def c_holds_def p_ok_def c_ok_def p_todo_def c_held_def

subsection \<open>One thread's step\<close>

lemma lines_of_simps [simp]:
  "lines_of [] = []"
  "lines_of (l # ls) =
     (case fst (strtok [NL] (cstr l)) of None \<Rightarrow> lines_of ls | Some x \<Rightarrow> x # lines_of ls)"
  by (auto simp: lines_of_def map_filter_simps split: option.splits)

lemma producer_step_holds:
  "producer_step file sh p = Some (sh', p') \<Longrightarrow>
     buffer_mx sh' + p_holds p' = buffer_mx sh + p_holds p"
  by (cases "p_pc p")
    (auto simp: producer_step_def p_holds_def sem_wait_def sem_post_def
       split: option.splits list.splits if_splits)

lemma producer_step_buf:
  assumes "producer_step file sh p = Some (sh', p')" and "rb_inv (buf sh)" and "p_ok (buf sh) p"
  shows "rb_inv (buf sh')" and "p_ok (buf sh') p'" and "buf sh' = buf sh \<or> p_holds p = 1"
  using assms buffer_push_ok(2) [of "buf sh"]
  by (cases "p_pc p";
      auto simp: producer_step_def p_holds_def p_ok_def sem_wait_def sem_post_def
       split: option.splits list.splits if_splits)+

lemma producer_step_lines:
  assumes "producer_step file sh p = Some (sh', p')" and "rb_inv (buf sh)" and "p_ok (buf sh) p"
  shows "p_todo file p' + mset (rb_contents (buf sh')) = p_todo file p + mset (rb_contents (buf sh))"
    and "freed sh' = freed sh" and "printed sh' = printed sh"
  using assms buffer_push_ok(4) [of "buf sh"]
  by (cases "p_pc p";
      auto simp: producer_step_def p_todo_def p_ok_def sem_wait_def sem_post_def
       split: option.splits list.splits if_splits)+

lemma consumer_step_holds:
  "consumer_step cl sh c = Some (sh', c') \<Longrightarrow>
     buffer_mx sh' + c_holds c' = buffer_mx sh + c_holds c"
  by (cases "c_pc c")
    (auto simp: consumer_step_def c_holds_def sem_wait_def sem_post_def
       split: option.splits prod.splits if_splits)

lemma consumer_step_buf:
  assumes "consumer_step cl sh c = Some (sh', c')" and "rb_inv (buf sh)" and "c_ok (buf sh) c"
  shows "rb_inv (buf sh')" and "c_ok (buf sh') c'" and "buf sh' = buf sh \<or> c_holds c = 1"
  using assms buffer_pop_ok(2) [of "buf sh"]
  by (cases "c_pc c";
      auto simp: consumer_step_def c_holds_def c_ok_def sem_wait_def sem_post_def
       split: option.splits prod.splits if_splits)+

lemma consumer_step_lines:
  assumes "consumer_step cl sh c = Some (sh', c')" and "rb_inv (buf sh)" and "c_ok (buf sh) c"
  shows "c_held c' + mset (rb_contents (buf sh')) + mset (freed sh') =
    c_held c + mset (rb_contents (buf sh)) + mset (freed sh)"
  using assms buffer_pop_ok(4) [of "buf sh"]
  by (cases "c_pc c")
    (auto simp: consumer_step_def c_held_def c_ok_def sem_wait_def sem_post_def
       split: option.splits prod.splits if_splits)

subsection \<open>Steps of the whole program\<close>

lemma p_ok_not_holding: "p_holds p = 0 \<Longrightarrow> p_ok b p"
  by (auto simp: p_holds_def p_ok_def split: producer_pc.splits)

lemma c_ok_not_holding: "c_holds c = 0 \<Longrightarrow> c_ok b c"
  by (auto simp: c_holds_def c_ok_def split: consumer_pc.splits)

text \<open>While one thread holds the mutex, no other thread does.\<close>

lemma holder_excludes:
  assumes "sem_inv s"
  shows "i < length (producers s) \<Longrightarrow> p_holds (producers s ! i) = 1 \<Longrightarrow>
      (\<forall>j < length (producers s). j \<noteq> i \<longrightarrow> p_holds (producers s ! j) = 0) \<and>
      (\<forall>c \<in> set (consumers s). c_holds c = 0)"
    and "i < length (consumers s) \<Longrightarrow> c_holds (consumers s ! i) = 1 \<Longrightarrow>
      (\<forall>j < length (consumers s). j \<noteq> i \<longrightarrow> c_holds (consumers s ! j) = 0) \<and>
      (\<forall>p \<in> set (producers s). p_holds p = 0)"
proof -
  have one: "total p_holds (producers s) + total c_holds (consumers s) \<le> 1"
    using assms by (auto simp: sem_inv_def)
  show "(\<forall>j < length (producers s). j \<noteq> i \<longrightarrow> p_holds (producers s ! j) = 0) \<and>
      (\<forall>c \<in> set (consumers s). c_holds c = 0)"
    if "i < length (producers s)" "p_holds (producers s ! i) = 1"
    using one that total_ge [of i "producers s" p_holds] total_two [of i "producers s" _ p_holds]
      total_eq_0_iff [of c_holds "consumers s"] by fastforce
  show "(\<forall>j < length (consumers s). j \<noteq> i \<longrightarrow> c_holds (consumers s ! j) = 0) \<and>
      (\<forall>p \<in> set (producers s). p_holds p = 0)"
    if "i < length (consumers s)" "c_holds (consumers s ! i) = 1"
    using one that total_ge [of i "consumers s" c_holds] total_two [of i "consumers s" _ c_holds]
      total_eq_0_iff [of p_holds "producers s"] by fastforce
qed

lemma sem_inv_producer:
  assumes inv: "sem_inv s" and i: "i < length (producers s)"
    and st: "producer_step file (shm s) (producers s ! i) = Some (sh, p)"
  shows "sem_inv (s\<lparr>shm := sh, producers := (producers s)[i := p]\<rparr>)"
proof -
  have ok: "rb_inv (buf (shm s))" "p_ok (buf (shm s)) (producers s ! i)"
    using inv i by (auto simp: sem_inv_def)
  note b = producer_step_buf [OF st ok]
  have others: "buf sh = buf (shm s) \<or>
      (\<forall>j < length (producers s). j \<noteq> i \<longrightarrow> p_holds (producers s ! j) = 0) \<and>
      (\<forall>c \<in> set (consumers s). c_holds c = 0)"
    using b(3) holder_excludes(1) [OF inv i] by auto
  have "p_ok (buf sh) (producers s ! j)" if "j < length (producers s)" "j \<noteq> i" for j
    using others that inv p_ok_not_holding by (auto simp: sem_inv_def)
  then have "\<forall>q \<in> set ((producers s)[i := p]). p_ok (buf sh) q"
    using b(2) by (intro ball_set_update) auto
  moreover have "\<forall>c \<in> set (consumers s). c_ok (buf sh) c"
    using others inv c_ok_not_holding by (auto simp: sem_inv_def)
  moreover have "buffer_mx sh + total p_holds ((producers s)[i := p]) + total c_holds (consumers s) = 1"
    using producer_step_holds [OF st] total_update [OF i, of p_holds p] inv
    by (auto simp: sem_inv_def)
  ultimately show ?thesis
    using b(1) by (simp add: sem_inv_def)
qed

lemma sem_inv_consumer:
  assumes inv: "sem_inv s" and i: "i < length (consumers s)"
    and st: "consumer_step cl (shm s) (consumers s ! i) = Some (sh, c)"
  shows "sem_inv (s\<lparr>shm := sh, consumers := (consumers s)[i := c]\<rparr>)"
proof -
  have ok: "rb_inv (buf (shm s))" "c_ok (buf (shm s)) (consumers s ! i)"
    using inv i by (auto simp: sem_inv_def)
  note b = consumer_step_buf [OF st ok]
  have others: "buf sh = buf (shm s) \<or>
      (\<forall>j < length (consumers s). j \<noteq> i \<longrightarrow> c_holds (consumers s ! j) = 0) \<and>
      (\<forall>p \<in> set (producers s). p_holds p = 0)"
    using b(3) holder_excludes(2) [OF inv i] by auto
  have "c_ok (buf sh) (consumers s ! j)" if "j < length (consumers s)" "j \<noteq> i" for j
    using others that inv c_ok_not_holding by (auto simp: sem_inv_def)
  then have "\<forall>q \<in> set ((consumers s)[i := c]). c_ok (buf sh) q"
    using b(2) by (intro ball_set_update) auto
  moreover have "\<forall>p \<in> set (producers s). p_ok (buf sh) p"
    using others inv p_ok_not_holding by (auto simp: sem_inv_def)
  moreover have "buffer_mx sh + total p_holds (producers s) + total c_holds ((consumers s)[i := c]) = 1"
    using consumer_step_holds [OF st] total_update [OF i, of c_holds c] inv
    by (auto simp: sem_inv_def)
  ultimately show ?thesis
    using b(1) by (simp add: sem_inv_def)
qed

text \<open>
  Replacing a thread by one of the same weights (cancelling it, asking it to cancel) keeps the
  invariant and the account of the lines.
\<close>

lemma same_producer:
  assumes "i < length (producers s)" and "p_holds p = p_holds (producers s ! i)"
    and "\<And>b. p_ok b (producers s ! i) \<Longrightarrow> p_ok b p"
    and "p_todo file p = p_todo file (producers s ! i)"
  shows "sem_inv s \<Longrightarrow> sem_inv (s\<lparr>producers := (producers s)[i := p], main_thread := m\<rparr>)"
    and "all_lines file (s\<lparr>producers := (producers s)[i := p], main_thread := m\<rparr>) = all_lines file s"
  using assms total_update [OF assms(1), of p_holds p] total_update [OF assms(1), of "p_todo file" p]
  by (auto simp: sem_inv_def all_lines_def dest!: subsetD [OF set_update_subset_insert])

lemma same_consumer:
  assumes "i < length (consumers s)" and "c_holds c = c_holds (consumers s ! i)"
    and "\<And>b. c_ok b (consumers s ! i) \<Longrightarrow> c_ok b c" and "c_held c = c_held (consumers s ! i)"
  shows "sem_inv s \<Longrightarrow> sem_inv (s\<lparr>consumers := (consumers s)[i := c], main_thread := m\<rparr>)"
    and "all_lines file (s\<lparr>consumers := (consumers s)[i := c], main_thread := m\<rparr>) = all_lines file s"
  using assms total_update [OF assms(1), of c_holds c] total_update [OF assms(1), of c_held c]
  by (auto simp: sem_inv_def all_lines_def dest!: subsetD [OF set_update_subset_insert])

lemma producer_cancel_same:
  "producer_cancel cl p = Some p' \<Longrightarrow>
     p_holds p' = p_holds p \<and> (\<forall>b. p_ok b p') \<and> p_todo file p' = p_todo file p"
  by (cases "p_pc p") (auto simp: producer_cancel_def thread_weights split: if_splits)

lemma consumer_cancel_same:
  "consumer_cancel cl c = Some c' \<Longrightarrow>
     c_holds c' = c_holds c \<and> (\<forall>b. c_ok b c') \<and> c_held c' = c_held c"
  by (auto simp: consumer_cancel_def thread_weights split: if_splits)

lemma run_step_same:
  assumes "run_step cl s = Some t"
  shows "sem_inv s \<Longrightarrow> sem_inv t" and "all_lines file t = all_lines file s" and "shm t = shm s"
proof -
  have upd: "sem_inv s \<Longrightarrow> sem_inv (s\<lparr>main_thread := m\<rparr>)"
    "all_lines file (s\<lparr>main_thread := m\<rparr>) = all_lines file s" for m
    by (simp_all add: sem_inv_def all_lines_def)
  have p: "p_holds (x\<lparr>p_pending := True\<rparr>) = p_holds x" "p_ok b (x\<lparr>p_pending := True\<rparr>) = p_ok b x"
    "p_todo file (x\<lparr>p_pending := True\<rparr>) = p_todo file x" for x b
    by (cases "p_pc x"; simp add: thread_weights)+
  have c: "c_holds (x\<lparr>c_pending := True\<rparr>) = c_holds x" "c_ok b (x\<lparr>c_pending := True\<rparr>) = c_ok b x"
    "c_held (x\<lparr>c_pending := True\<rparr>) = c_held x" for x b
    by (simp_all add: thread_weights)
  show "sem_inv s \<Longrightarrow> sem_inv t" and "all_lines file t = all_lines file s"
    using assms upd same_producer [of _ s _ "file"] same_consumer [of _ s]
    by (auto simp: run_step_def cancel_thread_p_def cancel_thread_c_def p c
        split: main_pc.splits if_splits)
  show "shm t = shm s"
    using assms by (auto simp: run_step_def split: main_pc.splits if_splits)
qed

lemma sem_step_inv:
  assumes "sem_step cl file a s = Some t" and "sem_inv s"
  shows "sem_inv t \<and> all_lines file t = all_lines file s"
proof (cases a)
  case (Producer i)
  with assms(1) obtain sh p where i: "i < length (producers s)"
    and st: "producer_step file (shm s) (producers s ! i) = Some (sh, p)"
    and t: "t = s\<lparr>shm := sh, producers := (producers s)[i := p]\<rparr>"
    by (auto simp: sem_step_def split: if_splits)
  have ok: "rb_inv (buf (shm s))" "p_ok (buf (shm s)) (producers s ! i)"
    using assms(2) i by (auto simp: sem_inv_def)
  note l = producer_step_lines [OF st ok]
  have "all_lines file t + p_todo file (producers s ! i) = all_lines file s + p_todo file (producers s ! i)"
    using l total_update [OF i, of "p_todo file" p] by (simp add: all_lines_def t ac_simps)
  then show ?thesis
    using sem_inv_producer [OF assms(2) i st] t by simp
next
  case (Consumer i)
  with assms(1) obtain sh c where i: "i < length (consumers s)"
    and st: "consumer_step cl (shm s) (consumers s ! i) = Some (sh, c)"
    and t: "t = s\<lparr>shm := sh, consumers := (consumers s)[i := c]\<rparr>"
    by (auto simp: sem_step_def split: if_splits)
  have ok: "rb_inv (buf (shm s))" "c_ok (buf (shm s)) (consumers s ! i)"
    using assms(2) i by (auto simp: sem_inv_def)
  note l = consumer_step_lines [OF st ok]
  have "all_lines file t + c_held (consumers s ! i) = all_lines file s + c_held (consumers s ! i)"
    using l total_update [OF i, of c_held c] by (simp add: all_lines_def t ac_simps)
  then show ?thesis
    using sem_inv_consumer [OF assms(2) i st] t by simp
next
  case (Cancel_Producer i)
  with assms(1) obtain p where i: "i < length (producers s)"
    and p: "producer_cancel cl (producers s ! i) = Some p"
    and t: "t = s\<lparr>producers := (producers s)[i := p]\<rparr>"
    by (auto simp: sem_step_def split: if_splits)
  show ?thesis
    using same_producer [OF i, of p "file" "main_thread s"] producer_cancel_same [OF p, of "file"] assms(2) t
    by simp
next
  case (Cancel_Consumer i)
  with assms(1) obtain c where i: "i < length (consumers s)"
    and c: "consumer_cancel cl (consumers s ! i) = Some c"
    and t: "t = s\<lparr>consumers := (consumers s)[i := c]\<rparr>"
    by (auto simp: sem_step_def split: if_splits)
  show ?thesis
    using same_consumer [OF i, where c = c and m = "main_thread s"] consumer_cancel_same [OF c] assms(2) t
    by simp
next
  case Main_Thread
  then show ?thesis using assms run_step_same [of cl s t] by (simp add: sem_step_def)
qed

lemma total_replicate: "total f (replicate n x) = (\<Sum>i<n. f x)"
  by (induction n) (auto simp: add.commute)

lemma sem_inv_init: "rb_inv b \<Longrightarrow> sem_inv (sem_init cl b)"
  by (auto simp: sem_inv_def sem_init_def total_replicate thread_weights)

lemma sem_reachable_inv:
  "sem_reachable cl file b s \<Longrightarrow> rb_inv b \<Longrightarrow> sem_inv s \<and> all_lines file s = all_lines file (sem_init cl b)"
  by (induction rule: sem_reachable.induct) (auto simp: sem_inv_init dest: sem_step_inv)

subsection \<open>No wake-up is lost\<close>

text \<open>
  A producer that waits saw a full buffer.  From then on every free cell is accounted for: by
  a post on \<open>producer_line\<close> not yet taken, by a producer that has taken one and not yet
  pushed, or by a consumer about to post.  Dually for consumers and used cells.
\<close>

definition p_waits :: "producer \<Rightarrow> bool" where
  "p_waits p = (case p_pc p of P_Release _ \<Rightarrow> True | P_Wait _ \<Rightarrow> True | _ \<Rightarrow> False)"

definition p_woken :: "producer \<Rightarrow> nat" where
  "p_woken p = (case p_pc p of P_Relock _ \<Rightarrow> 1 | P_Test _ \<Rightarrow> 1 | P_Push _ \<Rightarrow> 1 | _ \<Rightarrow> 0)"

definition p_signals :: "producer \<Rightarrow> nat" where
  "p_signals p = (case p_pc p of P_Signal \<Rightarrow> 1 | _ \<Rightarrow> 0)"

definition c_waits :: "consumer \<Rightarrow> bool" where
  "c_waits c = (case c_pc c of C_Release \<Rightarrow> True | C_Wait \<Rightarrow> True | _ \<Rightarrow> False)"

definition c_woken :: "consumer \<Rightarrow> nat" where
  "c_woken c = (case c_pc c of C_Relock \<Rightarrow> 1 | C_Test \<Rightarrow> 1 | C_Pop \<Rightarrow> 1 | _ \<Rightarrow> 0)"

definition c_signals :: "consumer \<Rightarrow> nat" where
  "c_signals c = (case c_pc c of C_Signal _ \<Rightarrow> 1 | _ \<Rightarrow> 0)"

definition used_cells :: "string ring_buffer \<Rightarrow> nat" where
  "used_cells b = nat (buffer_length b)"

definition free_cells :: "string ring_buffer \<Rightarrow> nat" where
  "free_cells b = nat (buffer_size b - buffer_length b)"

definition wake_inv :: "sys \<Rightarrow> bool" where
  "wake_inv s \<longleftrightarrow>
     ((\<exists>p \<in> set (producers s). p_waits p) \<longrightarrow>
        free_cells (buf (shm s)) \<le>
          producer_line (shm s) + total p_woken (producers s) + total c_signals (consumers s)) \<and>
     ((\<exists>c \<in> set (consumers s). c_waits c) \<longrightarrow>
        used_cells (buf (shm s)) \<le>
          consumer_line (shm s) + total c_woken (consumers s) + total p_signals (producers s))"

lemmas wake_weights =
  p_waits_def p_woken_def p_signals_def c_waits_def c_woken_def c_signals_def

lemma buffer_push_cells:
  "rb_inv b \<Longrightarrow> \<not> buffer_full b \<Longrightarrow>
     used_cells (snd (buffer_push x b)) = used_cells b + 1 \<and>
     free_cells (snd (buffer_push x b)) + 1 = free_cells b"
  by (auto simp: buffer_push_def buffer_full_def used_cells_def free_cells_def rb_inv_def)

lemma buffer_pop_cells:
  "rb_inv b \<Longrightarrow> \<not> buffer_empty b \<Longrightarrow> buffer_pop y b = (r, x, b') \<Longrightarrow>
     used_cells b' + 1 = used_cells b \<and> free_cells b' = free_cells b + 1"
  by (auto simp: buffer_pop_def buffer_empty_def used_cells_def free_cells_def rb_inv_def)

lemma free_cells_full: "buffer_full b \<Longrightarrow> free_cells b = 0"
  by (simp add: free_cells_def buffer_full_def)

lemma used_cells_empty: "buffer_empty b \<Longrightarrow> used_cells b = 0"
  by (simp add: used_cells_def buffer_empty_def)

lemma producer_step_wake:
  assumes "producer_step file sh p = Some (sh', p')" and "rb_inv (buf sh)" and "p_ok (buf sh) p"
  shows "free_cells (buf sh') + producer_line sh + p_woken p \<le>
      free_cells (buf sh) + producer_line sh' + p_woken p' \<or> free_cells (buf sh') = 0"
    and "used_cells (buf sh') + consumer_line sh + p_signals p \<le>
      used_cells (buf sh) + consumer_line sh' + p_signals p'"
    and "p_waits p' \<Longrightarrow> p_waits p \<or> free_cells (buf sh') = 0"
  using assms buffer_push_cells [of "buf sh"]
  by (cases "p_pc p";
      fastforce simp: producer_step_def p_ok_def sem_wait_def sem_post_def wake_weights free_cells_full
       split: option.splits list.splits if_splits)+

lemma consumer_step_wake:
  assumes "consumer_step cl sh c = Some (sh', c')" and "rb_inv (buf sh)" and "c_ok (buf sh) c"
  shows "used_cells (buf sh') + consumer_line sh + c_woken c \<le>
      used_cells (buf sh) + consumer_line sh' + c_woken c' \<or> used_cells (buf sh') = 0"
    and "free_cells (buf sh') + producer_line sh + c_signals c \<le>
      free_cells (buf sh) + producer_line sh' + c_signals c'"
    and "c_waits c' \<Longrightarrow> c_waits c \<or> used_cells (buf sh') = 0"
  using assms buffer_pop_cells [of "buf sh"]
  by (cases "c_pc c";
      fastforce simp: consumer_step_def c_ok_def sem_wait_def sem_post_def wake_weights used_cells_empty
       split: option.splits prod.splits if_splits)+

lemma wake_inv_producer:
  assumes wake: "wake_inv s" and inv: "sem_inv s" and i: "i < length (producers s)"
    and st: "producer_step file (shm s) (producers s ! i) = Some (sh, p)"
  shows "wake_inv (s\<lparr>shm := sh, producers := (producers s)[i := p]\<rparr>)"
proof -
  have ok: "rb_inv (buf (shm s))" "p_ok (buf (shm s)) (producers s ! i)"
    using inv i by (auto simp: sem_inv_def)
  note w = producer_step_wake [OF st ok]
  have waits: "(\<exists>q \<in> set (producers s). p_waits q) \<or> free_cells (buf sh) = 0"
    if "\<exists>q \<in> set ((producers s)[i := p]). p_waits q"
    using that w(3) i by (auto dest!: subsetD [OF set_update_subset_insert])
  have "free_cells (buf sh) \<le>
      producer_line sh + total p_woken ((producers s)[i := p]) + total c_signals (consumers s)"
    if "\<exists>q \<in> set ((producers s)[i := p]). p_waits q"
    using waits [OF that] wake w(1) total_update [OF i, of p_woken p] by (auto simp: wake_inv_def)
  moreover have "used_cells (buf sh) \<le>
      consumer_line sh + total c_woken (consumers s) + total p_signals ((producers s)[i := p])"
    if "\<exists>c \<in> set (consumers s). c_waits c"
    using that wake w(2) total_update [OF i, of p_signals p] by (auto simp: wake_inv_def)
  ultimately show ?thesis by (simp add: wake_inv_def)
qed

lemma wake_inv_consumer:
  assumes wake: "wake_inv s" and inv: "sem_inv s" and i: "i < length (consumers s)"
    and st: "consumer_step cl (shm s) (consumers s ! i) = Some (sh, c)"
  shows "wake_inv (s\<lparr>shm := sh, consumers := (consumers s)[i := c]\<rparr>)"
proof -
  have ok: "rb_inv (buf (shm s))" "c_ok (buf (shm s)) (consumers s ! i)"
    using inv i by (auto simp: sem_inv_def)
  note w = consumer_step_wake [OF st ok]
  have waits: "(\<exists>q \<in> set (consumers s). c_waits q) \<or> used_cells (buf sh) = 0"
    if "\<exists>q \<in> set ((consumers s)[i := c]). c_waits q"
    using that w(3) i by (auto dest!: subsetD [OF set_update_subset_insert])
  have "used_cells (buf sh) \<le>
      consumer_line sh + total c_woken ((consumers s)[i := c]) + total p_signals (producers s)"
    if "\<exists>q \<in> set ((consumers s)[i := c]). c_waits q"
    using waits [OF that] wake w(1) total_update [OF i, of c_woken c] by (auto simp: wake_inv_def)
  moreover have "free_cells (buf sh) \<le>
      producer_line sh + total p_woken (producers s) + total c_signals ((consumers s)[i := c])"
    if "\<exists>p \<in> set (producers s). p_waits p"
    using that wake w(2) total_update [OF i, of c_signals c] by (auto simp: wake_inv_def)
  ultimately show ?thesis by (simp add: wake_inv_def)
qed

lemma wake_inv_cancel_consumer:
  assumes wake: "wake_inv s" and i: "i < length (consumers s)"
    and "c_woken c = c_woken (consumers s ! i)" "c_signals c = c_signals (consumers s ! i)"
    and "c_waits c \<Longrightarrow> c_waits (consumers s ! i)"
  shows "wake_inv (s\<lparr>consumers := (consumers s)[i := c], main_thread := m\<rparr>)"
proof -
  have "(\<exists>q \<in> set (consumers s). c_waits q)"
    if "\<exists>q \<in> set ((consumers s)[i := c]). c_waits q"
    using that assms(5) i by (auto dest!: subsetD [OF set_update_subset_insert])
  then show ?thesis
    using wake assms(3,4) total_update [OF i, of c_woken c] total_update [OF i, of c_signals c]
    by (auto simp: wake_inv_def)
qed

subsection \<open>The driver without a time limit\<close>

text \<open>
  Without a time limit no producer is ever cancelled, and no consumer before all producers
  have ended.
\<close>

definition driver_inv :: "sys \<Rightarrow> bool" where
  "driver_inv s \<longleftrightarrow>
     (\<forall>p \<in> set (producers s). \<not> p_pending p) \<and>
     (case main_thread s of
        M_Join_Producers i \<Rightarrow>
          (\<forall>j < i. j < length (producers s) \<longrightarrow> p_finished (producers s ! j)) \<and>
          (\<forall>c \<in> set (consumers s). \<not> c_pending c \<and> c_pc c \<noteq> C_Exit)
      | M_Sleep \<Rightarrow> False
      | M_Cancel_Producers _ \<Rightarrow> False
      | _ \<Rightarrow> \<forall>p \<in> set (producers s). p_finished p)"

lemma producer_step_driver:
  "producer_step file sh p = Some (sh', p') \<Longrightarrow> p_pending p' = p_pending p \<and> \<not> p_finished p"
  by (cases "p_pc p")
    (auto simp: producer_step_def p_finished_def sem_wait_def split: option.splits list.splits if_splits)

lemma consumer_step_driver:
  "consumer_step cl sh c = Some (sh', c') \<Longrightarrow> c_pending c' = c_pending c \<and> c_pc c' \<noteq> C_Exit"
  by (cases "c_pc c")
    (auto simp: consumer_step_def sem_wait_def split: option.splits prod.splits if_splits)

lemma driver_inv_step:
  assumes st: "sem_step cl file a s = Some t" and dr: "driver_inv s" and tl: "cl_time_limit cl = 0"
  shows "driver_inv t"
proof (cases a)
  case (Producer i)
  with st obtain sh p where i: "i < length (producers s)"
    and ps: "producer_step file (shm s) (producers s ! i) = Some (sh, p)"
    and t: "t = s\<lparr>shm := sh, producers := (producers s)[i := p]\<rparr>"
    by (auto simp: sem_step_def split: if_splits)
  note d = producer_step_driver [OF ps]
  show ?thesis
    using dr d i unfolding t driver_inv_def
    by (auto split: main_pc.splits dest!: subsetD [OF set_update_subset_insert]
        simp: nth_list_update)
next
  case (Consumer i)
  with st obtain sh c where i: "i < length (consumers s)"
    and cs: "consumer_step cl (shm s) (consumers s ! i) = Some (sh, c)"
    and t: "t = s\<lparr>shm := sh, consumers := (consumers s)[i := c]\<rparr>"
    by (auto simp: sem_step_def split: if_splits)
  show ?thesis
    using dr consumer_step_driver [OF cs] i unfolding t driver_inv_def
    by (auto split: main_pc.splits dest!: subsetD [OF set_update_subset_insert])
next
  case (Cancel_Producer i)
  with st dr show ?thesis
    by (auto simp: sem_step_def producer_cancel_def driver_inv_def split: if_splits)
next
  case (Cancel_Consumer i)
  with st obtain c where i: "i < length (consumers s)" and "c_pending (consumers s ! i)"
    and t: "t = s\<lparr>consumers := (consumers s)[i := c]\<rparr>"
    by (auto simp: sem_step_def consumer_cancel_def split: if_splits)
  with dr show ?thesis
    by (auto simp: driver_inv_def split: main_pc.splits)
next
  case Main_Thread
  with st have run: "run_step cl s = Some t" by (simp add: sem_step_def)
  show ?thesis
    using run dr tl
    by (auto simp: run_step_def driver_inv_def in_set_conv_nth less_Suc_eq
        split: main_pc.splits if_splits)
qed

lemma driver_inv_init: "cl_time_limit cl = 0 \<Longrightarrow> driver_inv (sem_init cl b)"
  by (auto simp: driver_inv_def sem_init_def)

lemma wake_inv_step:
  assumes st: "sem_step cl file a s = Some t" and "sem_inv s" and "wake_inv s" and dr: "driver_inv s"
  shows "wake_inv t"
proof (cases a)
  case (Cancel_Producer i)
  with st dr show ?thesis
    by (auto simp: sem_step_def producer_cancel_def driver_inv_def split: if_splits)
next
  case (Cancel_Consumer i)
  with st obtain c where i: "i < length (consumers s)"
    and c: "consumer_cancel cl (consumers s ! i) = Some c"
    and t: "t = s\<lparr>consumers := (consumers s)[i := c]\<rparr>"
    by (auto simp: sem_step_def split: if_splits)
  have "c_woken c = c_woken (consumers s ! i)" "c_signals c = c_signals (consumers s ! i)" "\<not> c_waits c"
    using c by (auto simp: consumer_cancel_def wake_weights split: if_splits)
  then show ?thesis
    using wake_inv_cancel_consumer [OF assms(3) i, of c "main_thread s"] t by simp
next
  case Main_Thread
  with st have run: "run_step cl s = Some t" by (simp add: sem_step_def)
  have c: "c_woken (x\<lparr>c_pending := True\<rparr>) = c_woken x" "c_signals (x\<lparr>c_pending := True\<rparr>) = c_signals x"
    "c_waits (x\<lparr>c_pending := True\<rparr>) = c_waits x" for x
    by (simp_all add: wake_weights)
  have "wake_inv (s\<lparr>main_thread := m\<rparr>)" for m
    using assms(3) by (simp add: wake_inv_def)
  moreover have "wake_inv (s\<lparr>consumers := (consumers s)[i := (consumers s ! i)\<lparr>c_pending := True\<rparr>],
      main_thread := m\<rparr>)" if "i < length (consumers s)" for i m
    using assms(3) that by (rule wake_inv_cancel_consumer) (simp_all add: c)
  ultimately show ?thesis
    using run dr
    by (auto simp: run_step_def driver_inv_def cancel_thread_c_def split: main_pc.splits if_splits)
qed (use assms wake_inv_producer wake_inv_consumer in
     \<open>auto simp: sem_step_def split: if_splits\<close>)

lemma wake_inv_init: "wake_inv (sem_init cl b)"
  by (auto simp: wake_inv_def sem_init_def wake_weights)

text \<open>A producer that was not cancelled ends at the end of its file.\<close>

definition p_clean :: "string list ptr \<Rightarrow> producer \<Rightarrow> bool" where
  "p_clean file p = (case p_pc p of
     P_Exit l \<Rightarrow> l = NULL \<and> p_file p = [] | P_Unopened \<Rightarrow> file = NULL | _ \<Rightarrow> True)"

lemma producer_step_clean: "producer_step file sh p = Some (sh', p') \<Longrightarrow> p_clean file p'"
  by (cases "p_pc p")
    (auto simp: producer_step_def p_clean_def sem_wait_def split: option.splits list.splits if_splits)

lemma p_clean_todo: "p_clean file p \<Longrightarrow> p_finished p \<Longrightarrow> p_todo file p = {#}"
  by (cases "p_pc p") (auto simp: p_clean_def p_finished_def p_todo_def)

lemma p_clean_step:
  assumes st: "sem_step cl file a s = Some t" and dr: "driver_inv s"
    and cl: "\<forall>p \<in> set (producers s). p_clean file p"
  shows "\<forall>p \<in> set (producers t). p_clean file p"
proof (cases a)
  case (Producer i)
  then show ?thesis
    using st cl producer_step_clean
    by (auto simp: sem_step_def split: if_splits dest!: subsetD [OF set_update_subset_insert])
next
  case (Cancel_Producer i)
  with st dr show ?thesis
    by (auto simp: sem_step_def producer_cancel_def driver_inv_def split: if_splits)
next
  case Main_Thread
  then show ?thesis
    using st cl dr by (auto simp: sem_step_def run_step_def driver_inv_def split: main_pc.splits if_splits)
qed (use st cl in \<open>auto simp: sem_step_def split: if_splits\<close>)

subsection \<open>What is printed\<close>

text \<open>The printed lines are those of the freed lines that pass the length test.\<close>

definition c_freeing :: "consumer \<Rightarrow> string ptr multiset" where
  "c_freeing c = (case c_pc c of C_Free l \<Rightarrow> {#l#} | _ \<Rightarrow> {#})"

definition print_inv :: "cl \<Rightarrow> sys \<Rightarrow> bool" where
  "print_inv cl s \<longleftrightarrow>
     mset (printed (shm s)) =
       filter_mset (cl_shouldprint cl) (image_mset the (mset (freed (shm s)) + total c_freeing (consumers s)))"

lemma consumer_step_print:
  "consumer_step cl sh c = Some (sh', c') \<Longrightarrow>
     mset (printed sh') + filter_mset (cl_shouldprint cl) (image_mset the (mset (freed sh) + c_freeing c)) =
     mset (printed sh) + filter_mset (cl_shouldprint cl) (image_mset the (mset (freed sh') + c_freeing c'))"
  by (cases "c_pc c")
    (auto simp: consumer_step_def c_freeing_def sem_wait_def split: option.splits prod.splits if_splits)

lemma print_inv_same:
  assumes "print_inv cl s" and "i < length (consumers s)" and "c_freeing c = c_freeing (consumers s ! i)"
  shows "print_inv cl (s\<lparr>consumers := (consumers s)[i := c], main_thread := m\<rparr>)"
  using assms total_update [OF assms(2), of c_freeing c] by (simp add: print_inv_def)

lemma print_inv_step:
  assumes st: "sem_step cl file a s = Some t" and pr: "print_inv cl s" and inv: "sem_inv s"
  shows "print_inv cl t"
proof (cases a)
  case (Consumer i)
  with st obtain sh c where i: "i < length (consumers s)"
    and cs: "consumer_step cl (shm s) (consumers s ! i) = Some (sh, c)"
    and t: "t = s\<lparr>shm := sh, consumers := (consumers s)[i := c]\<rparr>"
    by (auto simp: sem_step_def split: if_splits)
  let ?f = "\<lambda>m. filter_mset (cl_shouldprint cl) (image_mset the m)"
  have tot: "?f (total c_freeing ((consumers s)[i := c])) + ?f (c_freeing (consumers s ! i)) =
      ?f (total c_freeing (consumers s)) + ?f (c_freeing c)"
    using arg_cong [OF total_update [OF i, of c_freeing c], of ?f] by simp
  have "mset (printed sh) + (?f (mset (freed (shm s))) + ?f (c_freeing (consumers s ! i))) =
      ?f (mset (freed (shm s))) + ?f (mset (freed sh)) + (?f (total c_freeing (consumers s)) + ?f (c_freeing c))"
    using consumer_step_print [OF cs] pr by (simp add: print_inv_def ac_simps)
  also have "\<dots> = ?f (mset (freed sh)) + ?f (total c_freeing ((consumers s)[i := c])) +
      (?f (mset (freed (shm s))) + ?f (c_freeing (consumers s ! i)))"
    unfolding tot [symmetric] by (simp add: ac_simps)
  finally have "mset (printed sh) = ?f (mset (freed sh)) + ?f (total c_freeing ((consumers s)[i := c]))"
    by (simp only: add_right_cancel)
  then show ?thesis by (simp add: print_inv_def t)
next
  case (Producer i)
  then show ?thesis
    using st pr inv producer_step_lines(2,3) [of "file" "shm s" "producers s ! i"]
    by (auto simp: sem_step_def print_inv_def sem_inv_def split: if_splits)
next
  case (Cancel_Consumer i)
  with st show ?thesis
    using print_inv_same [OF pr, where m = "main_thread s"]
    by (auto simp: sem_step_def consumer_cancel_def c_freeing_def split: if_splits)
next
  case Main_Thread
  have "print_inv cl (s\<lparr>main_thread := m\<rparr>)" "print_inv cl (s\<lparr>producers := ps, main_thread := m\<rparr>)" for m ps
    using pr by (simp_all add: print_inv_def)
  moreover have "print_inv cl (s\<lparr>consumers := (consumers s)[i := (consumers s ! i)\<lparr>c_pending := True\<rparr>],
      main_thread := m\<rparr>)" if "i < length (consumers s)" for i m
    using pr that by (rule print_inv_same) (simp add: c_freeing_def)
  ultimately show ?thesis
    using Main_Thread st
    by (auto simp: sem_step_def run_step_def cancel_thread_c_def split: main_pc.splits if_splits)
qed (use st pr in \<open>auto simp: sem_step_def print_inv_def split: if_splits\<close>)

lemma print_inv_init: "print_inv cl (sem_init cl b)"
  by (simp add: print_inv_def sem_init_def total_replicate c_freeing_def)

subsection \<open>Quiescent states\<close>

lemma producer_stuck:
  "producer_step file sh p = None \<Longrightarrow>
     p_holds p = 0 \<and> p_signals p = 0 \<and>
     (0 < buffer_mx sh \<longrightarrow> p_woken p = 0 \<and> (p_finished p \<or> p_waits p \<and> producer_line sh = 0))"
  by (cases "p_pc p")
    (auto simp: producer_step_def p_holds_def p_finished_def wake_weights sem_wait_def
       split: option.splits list.splits if_splits)

lemma consumer_stuck:
  "consumer_step cl sh c = None \<Longrightarrow> NULL \<notin># c_held c \<Longrightarrow>
     c_holds c = 0 \<and> c_signals c = 0 \<and>
     (0 < buffer_mx sh \<longrightarrow> c_woken c = 0 \<and> (c_pc c = C_Exit \<or> c_pc c = C_Wait \<and> consumer_line sh = 0))"
  by (cases "c_pc c")
    (auto simp: consumer_step_def c_holds_def c_held_def wake_weights sem_wait_def
       split: option.splits prod.splits if_splits)

lemma total_member: "x \<in> set xs \<Longrightarrow> z \<in># f x \<Longrightarrow> z \<in># total f xs"
  by (induction xs) auto

lemma total_replicate_mset: "total f (replicate n x) = repeat_mset n (f x)"
  by (induction n) auto

definition expected_lines :: "cl \<Rightarrow> string list ptr \<Rightarrow> string multiset" where
  "expected_lines cl file =
     repeat_mset (nat (cl_producers cl)) (mset (lines_of (case file of NULL \<Rightarrow> [] | Some ls \<Rightarrow> ls)))"

lemma image_mset_repeat: "image_mset f (repeat_mset n m) = repeat_mset n (image_mset f m)"
  by (induction n) auto

lemma all_lines_init:
  "rb_contents b = [] \<Longrightarrow> all_lines file (sem_init cl b) = image_mset Some (expected_lines cl file)"
  by (auto simp: all_lines_def sem_init_def expected_lines_def total_replicate_mset p_todo_def c_held_def
      image_mset_repeat split: option.splits)

lemma sem_reachable_all:
  assumes "sem_reachable cl file b s" and "rb_inv b" and "rb_contents b = []" and "cl_time_limit cl = 0"
  shows "sem_inv s \<and> all_lines file s = image_mset Some (expected_lines cl file) \<and> driver_inv s \<and>
    wake_inv s \<and> (\<forall>p \<in> set (producers s). p_clean file p) \<and> print_inv cl s \<and>
    rb_capacity (buf (shm s)) = rb_capacity b \<and>
    length (producers s) = nat (cl_producers cl) \<and> length (consumers s) = nat (cl_consumers cl)"
  using assms
proof (induction rule: sem_reachable.induct)
  case start
  then show ?case
    by (auto simp: sem_inv_init driver_inv_init wake_inv_init print_inv_init all_lines_init)
      (auto simp: sem_init_def p_clean_def)
next
  case (step s a t)
  then have IH: "sem_inv s" "driver_inv s" "wake_inv s" "\<forall>p \<in> set (producers s). p_clean file p"
    "print_inv cl s" by auto
  have "buffer_size (buf (shm t)) = buffer_size (buf (shm s)) \<and>
      length (producers t) = length (producers s) \<and> length (consumers t) = length (consumers s)"
    using step.hyps(2)
    by (cases a) (auto simp: sem_step_def producer_step_def consumer_step_def run_step_def buffer_push_def
        buffer_pop_def cancel_thread_p_def cancel_thread_c_def
        split: if_splits producer_pc.splits consumer_pc.splits main_pc.splits option.splits list.splits)
  then show ?case
    using step sem_step_inv [OF step.hyps(2) IH(1)] driver_inv_step [OF step.hyps(2) IH(2)]
      wake_inv_step [OF step.hyps(2) IH(1,3,2)] p_clean_step [OF step.hyps(2) IH(2,4)]
      print_inv_step [OF step.hyps(2) IH(5,1)]
    by (simp add: rb_capacity_def)
qed

lemma quiescent_state:
  assumes reach: "sem_reachable cl file b s" and b: "rb_inv b" "rb_contents b = []" "0 < rb_capacity b"
    and tl: "cl_time_limit cl = 0" and cons: "0 < cl_consumers cl"
    and running: "\<forall>c \<in> set (consumers s). c_pc c \<noteq> C_Exit"
    and stuck: "\<forall>p \<in> set (producers s). producer_step file (shm s) p = None"
      "\<forall>c \<in> set (consumers s). consumer_step cl (shm s) c = None"
  shows "(\<forall>p \<in> set (producers s). p_finished p) \<and> (\<forall>c \<in> set (consumers s). c_pc c = C_Wait) \<and>
    rb_contents (buf (shm s)) = []"
proof -
  note all = sem_reachable_all [OF reach b(1,2) tl]
  have held: "NULL \<notin># c_held c" if "c \<in> set (consumers s)" for c
  proof
    assume "NULL \<in># c_held c"
    then have "NULL \<in># all_lines file s"
      using total_member [OF that, of NULL c_held] by (simp add: all_lines_def)
    then show False using all by auto
  qed
  have ps: "\<forall>p \<in> set (producers s). p_holds p = 0 \<and> p_signals p = 0"
    and cs: "\<forall>c \<in> set (consumers s). c_holds c = 0 \<and> c_signals c = 0"
    using stuck producer_stuck consumer_stuck held by blast+
  then have mx: "buffer_mx (shm s) = 1"
    using all by (simp add: sem_inv_def)
  have pw: "p_woken p = 0 \<and> (p_finished p \<or> p_waits p \<and> producer_line (shm s) = 0)"
    if "p \<in> set (producers s)" for p
    using that stuck(1) producer_stuck [of "file" "shm s" p] mx by simp
  have cw: "c_woken c = 0 \<and> c_pc c = C_Wait \<and> consumer_line (shm s) = 0"
    if "c \<in> set (consumers s)" for c
    using that stuck(2) consumer_stuck [of cl "shm s" c] held mx running by auto
  obtain c where c: "c \<in> set (consumers s)"
    using all cons by (cases "consumers s") auto
  have "c_waits c" using cw [OF c] by (simp add: c_waits_def)
  then have used: "used_cells (buf (shm s)) = 0"
    using all c cw ps by (auto simp: wake_inv_def)
  have "p_finished p" if "p \<in> set (producers s)" for p
  proof (rule ccontr)
    assume "\<not> p_finished p"
    then have "p_waits p" "producer_line (shm s) = 0" using pw [OF that] by auto
    then have "free_cells (buf (shm s)) = 0"
      using all that pw cs by (auto simp: wake_inv_def)
    with used have "rb_capacity (buf (shm s)) = 0"
      by (simp add: used_cells_def free_cells_def rb_capacity_def)
    with all b(3) show False by simp
  qed
  moreover have "rb_contents (buf (shm s)) = []"
    using used by (simp add: used_cells_def rb_contents_def)
  ultimately show ?thesis using cw by blast
qed

text \<open>Inside the hypotheses: what has been printed once nothing can move.\<close>

lemma quiescent_printed:
  assumes "sem_reachable cl file b s" "rb_inv b" "rb_contents b = []" "cl_time_limit cl = 0"
    and q: "\<forall>p \<in> set (producers s). p_finished p" "\<forall>c \<in> set (consumers s). c_pc c = C_Wait"
      "rb_contents (buf (shm s)) = []"
  shows "mset (printed (shm s)) = filter_mset (cl_shouldprint cl) (expected_lines cl file)"
proof -
  note all = sem_reachable_all [OF assms(1-4)]
  have "total (p_todo file) (producers s) = {#}"
    using all q(1) p_clean_todo by (intro total_const_0) blast
  moreover have "total c_held (consumers s) = {#}" "total c_freeing (consumers s) = {#}"
    using q(2) by (auto intro!: total_const_0 simp: c_held_def c_freeing_def)
  ultimately have "mset (freed (shm s)) = image_mset Some (expected_lines cl file)"
    and "mset (printed (shm s)) = filter_mset (cl_shouldprint cl) (image_mset the (mset (freed (shm s))))"
    using all q(3) by (auto simp: all_lines_def print_inv_def)
  then show ?thesis by (simp add: multiset.map_comp comp_def)
qed

lemma sem_run_reachable:
  "sem_run cl file as s = Some t \<Longrightarrow> sem_reachable cl file b s \<Longrightarrow> sem_reachable cl file b t"
  by (induction cl "file" as s rule: sem_run.induct)
    (auto split: option.splits intro: sem_reachable.step)

subsection \<open>Properties\<close>

text \<open>
  A small run for the witnesses: one producer with a one-line file, one consumer, a buffer of
  one cell, every line printed.
\<close>

definition demo_cl :: cl where
  "demo_cl = cl_globals\<lparr>cl_producers := 1, cl_consumers := 1, cl_buffer_size := 1, cl_line_length := -1\<rparr>"

definition demo_file :: "string list ptr" where
  "demo_file = Some [''ab'' @ [NL]]"

definition demo_buf :: "string ring_buffer" where
  "demo_buf = \<lparr>buffer = [NULL], buffer_size = 1, buffer_start = 0, buffer_length = 0\<rparr>"

definition demo_produce :: "action list" where
  "demo_produce = replicate 4 (Consumer 0) @ replicate 8 (Producer 0)"

definition demo_consume :: "action list" where
  "demo_consume = replicate 11 (Consumer 0)"

definition demo_shutdown :: "action list" where
  "demo_shutdown = replicate 4 Main_Thread @ [Cancel_Consumer 0] @ replicate 2 Main_Thread"

definition demo_idle :: sys where
  "demo_idle =
     \<lparr>shm = \<lparr>buffer_mx = 1, producer_line = 1, consumer_line = 0,
        buf = \<lparr>buffer = [Some ''ab''], buffer_size = 1, buffer_start = 0, buffer_length = 0\<rparr>,
        printed = [''ab''], freed = [Some ''ab'']\<rparr>,
      producers = [\<lparr>p_pc = P_Exit NULL, p_file = [], p_pending = False\<rparr>],
      consumers = [\<lparr>c_pc = C_Wait, c_pending = False\<rparr>],
      main_thread = M_Join_Producers 0\<rparr>"

lemmas demo_simps =
  demo_cl_def demo_file_def demo_buf_def demo_produce_def demo_consume_def demo_shutdown_def
  demo_idle_def cl_globals_def sem_init_def

lemmas step_simps =
  sem_step_def producer_step_def consumer_step_def run_step_def sem_wait_def sem_post_def
  cancel_thread_c_def p_finished_def consumer_cancel_def cl_shouldprint_def

lemma demo_line: "strtok [NL] [CHR ''a'', CHR ''b'', NL] = (Some ''ab'', [])"
  by (simp add: strtok_def)

lemma demo_buf_init: "buffer_init (\<lambda>_. True) (cl_buffer_size demo_cl) buffer_globals = (0, demo_buf)"
  by (simp add: buffer_init_def calloc_ok_def to_size_t_def buffer_globals_def demo_simps)

lemma demo_idle_run:
  "sem_run demo_cl demo_file (demo_produce @ demo_consume) (sem_init demo_cl demo_buf) = Some demo_idle"
  by (simp add: demo_simps step_simps demo_line handler_defs numeral_eq_Suc smod_mod_positive)

lemma demo_idle_reachable: "sem_reachable demo_cl demo_file demo_buf demo_idle"
  using demo_idle_run sem_reachable.start by (rule sem_run_reachable)



text \<open>
  C3: No line is lost or duplicated on the way, whatever the schedule and with or without
  cancellation: in every reachable state the lines not yet read, those held by a producer or
  a consumer, those in the buffer and those already freed add up to the lines of the file,
  once per producer, and at most one thread is inside the critical section of
  \<open>buffer_mx\<close>.
\<close>

theorem sem_lines_conserved:
  assumes "buffer_init avail (cl_buffer_size cl) buffer_globals = (0, b)"
    and "INT_MIN \<le> cl_buffer_size cl" and "cl_buffer_size cl \<le> INT_MAX"
    and "sem_reachable cl file b s"
  shows "all_lines file s = image_mset Some (expected_lines cl file) \<and>
    total p_holds (producers s) + total c_holds (consumers s) \<le> 1"
proof -
  note b = buffer_init_ok [OF assms(1,2,3)]
  show ?thesis
    using sem_reachable_inv [OF assms(4) b(2)] all_lines_init [OF b(3)] by (auto simp: sem_inv_def)
qed

theorem sem_lines_conserved_witness:
  "all_lines demo_file demo_idle = image_mset Some (expected_lines demo_cl demo_file)"
  using sem_lines_conserved [OF demo_buf_init _ _ demo_idle_reachable] by (simp add: demo_simps)


end
