(* ===== verification/Transition.thy ===== *)
theory Transition
  imports Main
begin

text \<open>
  Interleaved programs as transition systems: what follows from a step relation that preserves an
  invariant, and from one that also uses up a measure.
\<close>

locale invariant_system =
  fixes step :: "'s \<Rightarrow> 's \<Rightarrow> bool" and inv :: "'s \<Rightarrow> bool"
  assumes step_inv: "inv s \<Longrightarrow> step s s' \<Longrightarrow> inv s'"
begin

lemma reachable_inv: "step\<^sup>*\<^sup>* s0 s \<Longrightarrow> inv s0 \<Longrightarrow> inv s"
  by (induction rule: rtranclp_induct) (auto intro: step_inv)

lemma relpow_inv: "(step ^^ n) s0 s \<Longrightarrow> inv s0 \<Longrightarrow> inv s"
  using reachable_inv by (meson relpowp_imp_rtranclp)

end

locale terminating_system = invariant_system step inv
  for step :: "'s \<Rightarrow> 's \<Rightarrow> bool" and inv :: "'s \<Rightarrow> bool" +
  fixes left :: "'s \<Rightarrow> nat"
  assumes step_left: "inv s \<Longrightarrow> step s s' \<Longrightarrow> left s' < left s"
begin

lemma run_bound:
  assumes "inv s0" and "(step ^^ n) s0 s"
  shows "n + left s \<le> left s0"
  using assms(2)
proof (induction n arbitrary: s)
  case (Suc n)
  then obtain r where r: "(step ^^ n) s0 r" "step r s" by auto
  then have "left s < left r" using step_left relpow_inv assms(1) by blast
  then show ?case using Suc.IH [OF r(1)] by linarith
qed simp

lemma reaches_end:
  assumes "inv s"
  shows "\<exists>t. step\<^sup>*\<^sup>* s t \<and> (\<forall>u. \<not> step t u)"
  using assms
proof (induction "left s" arbitrary: s rule: less_induct)
  case less
  show ?case
  proof (cases "\<exists>u. step s u")
    case True
    then obtain u where u: "step s u" by blast
    then obtain t where "step\<^sup>*\<^sup>* u t" "\<forall>v. \<not> step t v" using less step_left step_inv by blast
    then show ?thesis using u by (meson converse_rtranclp_into_rtranclp)
  next
    case False
    then show ?thesis by blast
  qed
qed

end

end
