(* ===== verification/Sem_Runs.thy ===== *)
theory Sem_Runs
  imports Producer_Consumer Transition
begin

text \<open>
  Runs of the semaphore version of the producer/consumer program, driver included: they are all
  finite, with or without a time limit, and when nothing can move any more the driver is done.

  A post on a semaphore and a line in the buffer are worth the steps they allow another thread.
\<close>

subsection \<open>What is left to do\<close>

definition producer_left :: "string list ptr \<Rightarrow> producer \<Rightarrow> nat" where
  "producer_left file p =
     (case p_pc p of
        P_Start \<Rightarrow> 2 + 21 * length (case file of NULL \<Rightarrow> [] | Some ls \<Rightarrow> ls)
      | P_Unopened \<Rightarrow> 0
      | P_Exit _ \<Rightarrow> 0
      | pc \<Rightarrow> 21 * length (p_file p) +
          (case pc of
             P_Read \<Rightarrow> 1 | P_Lock _ \<Rightarrow> 21 | P_Test _ \<Rightarrow> 20 | P_Release _ \<Rightarrow> 19 | P_Wait _ \<Rightarrow> 18 | P_Relock _ \<Rightarrow> 21
           | P_Push _ \<Rightarrow> 19 | P_Signal \<Rightarrow> 7 | _ \<Rightarrow> 2))"

definition consumer_left :: "consumer \<Rightarrow> nat" where
  "consumer_left c =
     (case c_pc c of
        C_Start \<Rightarrow> 5 | C_Lock \<Rightarrow> 4 | C_Test \<Rightarrow> 3 | C_Release \<Rightarrow> 2 | C_Wait \<Rightarrow> 1 | C_Relock \<Rightarrow> 4 | C_Pop \<Rightarrow> 2
      | C_Signal _ \<Rightarrow> 12 | C_Unlock _ \<Rightarrow> 7 | C_Print _ \<Rightarrow> 6 | C_Free _ \<Rightarrow> 5 | C_Exit \<Rightarrow> 0)"

definition shared_left :: "shared \<Rightarrow> nat" where
  "shared_left sh = 4 * producer_line sh + 4 * consumer_line sh + 11 * used_cells (buf sh)"

definition main_left :: "cl \<Rightarrow> nat \<Rightarrow> nat \<Rightarrow> main_pc \<Rightarrow> nat" where
  "main_left cl np nc m =
     (case m of
        M_Sleep \<Rightarrow> 2 * nc + 2 * np + 5
      | M_Cancel_Producers i \<Rightarrow> 2 * nc + np + 4 + (np - i)
      | M_Cancel_Consumers i \<Rightarrow> (if cl_time_limit cl \<noteq> 0 then nc + np + 3 + (nc - i) else nc + 2 + (nc - i))
      | M_Join_Producers i \<Rightarrow> (if cl_time_limit cl \<noteq> 0 then nc + 2 + (np - i) else 2 * nc + 3 + (np - i))
      | M_Join_Consumers i \<Rightarrow> 1 + (nc - i)
      | M_Done \<Rightarrow> 0)"

definition sem_left :: "cl \<Rightarrow> string list ptr \<Rightarrow> sys \<Rightarrow> nat" where
  "sem_left cl file s =
     total (producer_left file) (producers s) + total consumer_left (consumers s) + shared_left (shm s) +
     main_left cl (length (producers s)) (length (consumers s)) (main_thread s)"

lemma producer_step_left:
  assumes "producer_step file sh p = Some (sh', p')" and "rb_inv (buf sh)" and "p_ok (buf sh) p"
  shows "producer_left file p' + shared_left sh' < producer_left file p + shared_left sh"
  using assms buffer_push_cells [of "buf sh"]
  by (cases "p_pc p")
    (auto simp: producer_step_def producer_left_def shared_left_def p_ok_def sem_wait_def sem_post_def
       split: option.splits list.splits if_splits)

lemma consumer_step_left:
  assumes "consumer_step cl sh c = Some (sh', c')" and "rb_inv (buf sh)" and "c_ok (buf sh) c"
  shows "consumer_left c' + shared_left sh' < consumer_left c + shared_left sh"
  using assms buffer_pop_cells [of "buf sh" NULL]
  by (cases "c_pc c")
    (fastforce simp: consumer_step_def consumer_left_def shared_left_def c_ok_def sem_wait_def sem_post_def
       split: option.splits prod.splits if_splits)+

lemma producer_cancel_left: "producer_cancel cl p = Some p' \<Longrightarrow> producer_left file p' < producer_left file p"
  by (auto simp: producer_cancel_def producer_left_def split: if_splits producer_pc.splits)

lemma consumer_cancel_left: "consumer_cancel cl c = Some c' \<Longrightarrow> consumer_left c' < consumer_left c"
  by (auto simp: consumer_cancel_def consumer_left_def split: if_splits)

lemma pending_left: "producer_left file (p\<lparr>p_pending := b\<rparr>) = producer_left file p" "consumer_left (c\<lparr>c_pending := b\<rparr>) = consumer_left c"
  by (simp_all add: producer_left_def consumer_left_def split: producer_pc.split consumer_pc.split)

lemma run_step_left:
  assumes "run_step cl s = Some t"
  shows "sem_left cl file t < sem_left cl file s"
  using assms
  by (auto simp: run_step_def sem_left_def main_left_def cancel_thread_p_def cancel_thread_c_def pending_left total_same
      split: main_pc.splits if_splits)

lemma sem_step_left:
  assumes "sem_step cl file a s = Some t" and "sem_inv s"
  shows "sem_left cl file t < sem_left cl file s"
proof (cases a)
  case (Producer i)
  with assms(1) obtain sh p where i: "i < length (producers s)"
    and st: "producer_step file (shm s) (producers s ! i) = Some (sh, p)"
    and t: "t = s\<lparr>shm := sh, producers := (producers s)[i := p]\<rparr>"
    by (auto simp: sem_step_def split: if_splits)
  have "rb_inv (buf (shm s))" "p_ok (buf (shm s)) (producers s ! i)" using assms(2) i by (auto simp: sem_inv_def)
  from producer_step_left [OF st this] total_update [OF i, of "producer_left file" p] show ?thesis
    by (simp add: sem_left_def t)
next
  case (Consumer i)
  with assms(1) obtain sh c where i: "i < length (consumers s)"
    and st: "consumer_step cl (shm s) (consumers s ! i) = Some (sh, c)"
    and t: "t = s\<lparr>shm := sh, consumers := (consumers s)[i := c]\<rparr>"
    by (auto simp: sem_step_def split: if_splits)
  have "rb_inv (buf (shm s))" "c_ok (buf (shm s)) (consumers s ! i)" using assms(2) i by (auto simp: sem_inv_def)
  from consumer_step_left [OF st this] total_update [OF i, of consumer_left c] show ?thesis
    by (simp add: sem_left_def t)
next
  case (Cancel_Producer i)
  with assms(1) obtain p where i: "i < length (producers s)" and st: "producer_cancel cl (producers s ! i) = Some p"
    and t: "t = s\<lparr>producers := (producers s)[i := p]\<rparr>"
    by (auto simp: sem_step_def split: if_splits)
  from producer_cancel_left [OF st, of "file"] total_update [OF i, of "producer_left file" p] show ?thesis
    by (simp add: sem_left_def t)
next
  case (Cancel_Consumer i)
  with assms(1) obtain c where i: "i < length (consumers s)" and st: "consumer_cancel cl (consumers s ! i) = Some c"
    and t: "t = s\<lparr>consumers := (consumers s)[i := c]\<rparr>"
    by (auto simp: sem_step_def split: if_splits)
  from consumer_cancel_left [OF st] total_update [OF i, of consumer_left c] show ?thesis
    by (simp add: sem_left_def t)
next
  case Main_Thread
  then show ?thesis using run_step_left assms(1) by (simp add: sem_step_def)
qed

definition sem_moves :: "cl \<Rightarrow> string list ptr \<Rightarrow> sys \<Rightarrow> sys \<Rightarrow> bool" where
  "sem_moves cl file s t = (\<exists>a. sem_step cl file a s = Some t)"

interpretation sem: terminating_system "sem_moves cl file" sem_inv "sem_left cl file" for cl "file"
  by unfold_locales (auto simp: sem_moves_def dest: sem_step_inv sem_step_left)

subsection \<open>The driver reaches its end\<close>

text \<open>Which threads the driver has asked to stop by now.\<close>

definition asked_inv :: "cl \<Rightarrow> sys \<Rightarrow> bool" where
  "asked_inv cl s \<longleftrightarrow>
     (case main_thread s of
        M_Sleep \<Rightarrow> True
      | M_Cancel_Producers i \<Rightarrow> \<forall>j < length (producers s). j < i \<longrightarrow> p_pending (producers s ! j)
      | M_Cancel_Consumers i \<Rightarrow>
          (cl_time_limit cl \<noteq> 0 \<longrightarrow> (\<forall>p \<in> set (producers s). p_pending p)) \<and>
          (\<forall>j < length (consumers s). j < i \<longrightarrow> c_pending (consumers s ! j))
      | M_Join_Producers i \<Rightarrow>
          cl_time_limit cl \<noteq> 0 \<longrightarrow> (\<forall>p \<in> set (producers s). p_pending p) \<and> (\<forall>c \<in> set (consumers s). c_pending c)
      | M_Join_Consumers i \<Rightarrow> \<forall>c \<in> set (consumers s). c_pending c
      | M_Done \<Rightarrow> True)"

lemma asked_inv_threads:
  assumes "asked_inv cl s" and "main_thread t = main_thread s"
    and "length (producers t) = length (producers s)" and "length (consumers t) = length (consumers s)"
    and "\<forall>j < length (producers s). p_pending (producers t ! j) = p_pending (producers s ! j)"
    and "\<forall>j < length (consumers s). c_pending (consumers t ! j) = c_pending (consumers s ! j)"
  shows "asked_inv cl t"
  using assms by (auto simp: asked_inv_def all_set_conv_all_nth split: main_pc.splits)

lemma pending_same:
  "producer_step file sh p = Some (sh', p') \<Longrightarrow> p_pending p' = p_pending p"
  "producer_cancel cl p = Some p'' \<Longrightarrow> p_pending p'' = p_pending p"
  "consumer_step cl sh c = Some (sh', c') \<Longrightarrow> c_pending c' = c_pending c"
  "consumer_cancel cl c = Some c'' \<Longrightarrow> c_pending c'' = c_pending c"
proof -
  show "producer_step file sh p = Some (sh', p') \<Longrightarrow> p_pending p' = p_pending p" using producer_step_driver by blast
  show "producer_cancel cl p = Some p'' \<Longrightarrow> p_pending p'' = p_pending p"
    by (auto simp: producer_cancel_def split: if_splits producer_pc.splits)
  show "consumer_step cl sh c = Some (sh', c') \<Longrightarrow> c_pending c' = c_pending c"
    by (cases "c_pc c") (auto simp: consumer_step_def sem_wait_def split: option.splits prod.splits if_splits)
  show "consumer_cancel cl c = Some c'' \<Longrightarrow> c_pending c'' = c_pending c"
    by (auto simp: consumer_cancel_def split: if_splits)
qed

lemma asked_inv_run:
  assumes "run_step cl s = Some t" and "asked_inv cl s"
  shows "asked_inv cl t"
  using assms
  by (auto simp: run_step_def asked_inv_def cancel_thread_p_def cancel_thread_c_def all_set_conv_all_nth nth_list_update
      less_Suc_eq split: main_pc.splits if_splits)

lemma asked_inv_step:
  assumes "sem_step cl file a s = Some t" and "asked_inv cl s"
  shows "asked_inv cl t"
proof (cases "a = Main_Thread")
  case True
  then show ?thesis using asked_inv_run assms by (simp add: sem_step_def)
next
  case False
  show ?thesis
    by (rule asked_inv_threads [OF assms(2)])
      (use assms(1) False pending_same in \<open>auto simp: sem_step_def nth_list_update split: action.splits if_splits\<close>)
qed

lemma asked_inv_init: "asked_inv cl (sem_init cl b)"
  by (simp add: asked_inv_def sem_init_def)

lemma producer_blocked:
  "producer_step file sh p = None \<Longrightarrow> p_finished p \<or> p_pc p \<in> range P_Lock \<union> range P_Wait \<union> range P_Relock"
  by (cases "p_pc p") (auto simp: producer_step_def p_finished_def split: option.splits list.splits)

lemma producer_cancelled:
  assumes "producer_step file sh p = None" and "producer_cancel cl p = None" and "p_pending p"
  shows "p_finished p"
  using producer_blocked [OF assms(1)] assms(2,3) by (auto simp: producer_cancel_def)

lemma stuck_threads:
  assumes "\<forall>a. sem_step cl file a s = None"
  shows "\<forall>p \<in> set (producers s). producer_step file (shm s) p = None \<and> producer_cancel cl p = None"
    and "\<forall>c \<in> set (consumers s). consumer_step cl (shm s) c = None \<and> consumer_cancel cl c = None"
    and "run_step cl s = None"
proof -
  have "producer_step file (shm s) (producers s ! i) = None" "producer_cancel cl (producers s ! i) = None"
    if "i < length (producers s)" for i
    using assms [rule_format, of "Producer i"] assms [rule_format, of "Cancel_Producer i"] that by (simp_all add: sem_step_def)
  then show "\<forall>p \<in> set (producers s). producer_step file (shm s) p = None \<and> producer_cancel cl p = None"
    by (auto simp: in_set_conv_nth)
  have "consumer_step cl (shm s) (consumers s ! i) = None" "consumer_cancel cl (consumers s ! i) = None"
    if "i < length (consumers s)" for i
    using assms [rule_format, of "Consumer i"] assms [rule_format, of "Cancel_Consumer i"] that by (simp_all add: sem_step_def)
  then show "\<forall>c \<in> set (consumers s). consumer_step cl (shm s) c = None \<and> consumer_cancel cl c = None"
    by (auto simp: in_set_conv_nth)
  show "run_step cl s = None" using assms [rule_format, of Main_Thread] by (simp add: sem_step_def)
qed

text \<open>When nothing can move the mutex is free, so a consumer that was asked to stop has stopped.\<close>

lemma consumer_cancelled:
  assumes stuck: "\<forall>a. sem_step cl file a s = None" and inv: "sem_inv s" and lines: "NULL \<notin># all_lines file s"
    and i: "i < length (consumers s)" and pend: "c_pending (consumers s ! i)"
  shows "c_pc (consumers s ! i) = C_Exit"
proof -
  note p = stuck_threads(1) [OF stuck] and c = stuck_threads(2) [OF stuck]
  have held: "NULL \<notin># c_held c" if "c \<in> set (consumers s)" for c
    using lines total_member [OF that, of NULL c_held] by (auto simp: all_lines_def)
  have "\<forall>p \<in> set (producers s). p_holds p = 0" using p producer_stuck by blast
  moreover have "\<forall>c \<in> set (consumers s). c_holds c = 0" using c held consumer_stuck by blast
  ultimately have "buffer_mx (shm s) = 1" using inv by (simp add: sem_inv_def total_const_0)
  then show ?thesis
    using consumer_stuck [of cl "shm s" "consumers s ! i"] bspec [OF c nth_mem [OF i]] held [of "consumers s ! i"] i pend
    by (auto simp: consumer_cancel_def split: if_splits)
qed

lemma stuck_driver:
  assumes stuck: "\<forall>a. sem_step cl file a s = None" and reach: "sem_reachable cl file b s"
    and b: "rb_inv b" "rb_contents b = []"
    and enough: "cl_time_limit cl \<noteq> 0 \<or> 0 < cl_consumers cl \<and> 0 < rb_capacity b"
  shows "main_thread s = M_Done"
proof -
  have asked: "asked_inv cl s"
    using reach by (induction rule: sem_reachable.induct) (auto intro: asked_inv_init asked_inv_step)
  have inv: "sem_inv s" and lines: "NULL \<notin># all_lines file s"
    using sem_reachable_inv [OF reach b(1)] all_lines_init [OF b(2)] by auto
  note st = stuck_threads [OF stuck]
  show ?thesis
  proof (cases "main_thread s")
    case (M_Join_Producers i)
    then have i: "i < length (producers s)" and "\<not> p_finished (producers s ! i)"
      using st(3) by (auto simp: run_step_def split: if_splits)
    moreover have "p_finished p" if p: "p \<in> set (producers s)" for p
    proof (cases "cl_time_limit cl = 0")
      case True
      have "\<forall>c \<in> set (consumers s). c_pc c \<noteq> C_Exit"
        using sem_reachable_all [OF reach b True] M_Join_Producers by (auto simp: driver_inv_def)
      moreover have "0 < cl_consumers cl" "0 < rb_capacity b" using enough True by auto
      moreover have "\<forall>p \<in> set (producers s). producer_step file (shm s) p = None"
        "\<forall>c \<in> set (consumers s). consumer_step cl (shm s) c = None" using st by auto
      ultimately show ?thesis using quiescent_state [OF reach b _ True] p by blast
    next
      case False
      then show ?thesis using asked M_Join_Producers st(1) p producer_cancelled by (auto simp: asked_inv_def)
    qed
    ultimately show ?thesis by simp
  next
    case (M_Join_Consumers i)
    then have i: "i < length (consumers s)" and "c_pc (consumers s ! i) \<noteq> C_Exit"
      using st(3) by (auto simp: run_step_def split: if_splits)
    moreover have "c_pending (consumers s ! i)" using asked M_Join_Consumers i by (simp add: asked_inv_def)
    ultimately show ?thesis using consumer_cancelled [OF stuck inv lines] by blast
  qed (use st(3) in \<open>auto simp: run_step_def split: if_splits\<close>)
qed

lemma sem_run_relpow: "sem_run cl file as s = Some t \<Longrightarrow> (sem_moves cl file ^^ length as) s t"
proof (induction cl "file" as s rule: sem_run.induct)
  case (2 cl "file" a as s)
  then obtain r where "sem_step cl file a s = Some r" "sem_run cl file as r = Some t" by (auto split: option.splits)
  then show ?case using 2 unfolding length_Cons by (metis relpowp_Suc_I2 sem_moves_def)
qed simp

lemma sem_run_append: "sem_run cl file (as @ bs) s = Option.bind (sem_run cl file as s) (sem_run cl file bs)"
  by (induction cl "file" as s rule: sem_run.induct) (auto split: option.splits)

lemma moves_sem_run: "(sem_moves cl file)\<^sup>*\<^sup>* s t \<Longrightarrow> \<exists>as. sem_run cl file as s = Some t"
proof (induction rule: rtranclp_induct)
  case base
  show ?case by (rule exI [of _ "[]"]) simp
next
  case (step t u)
  then obtain as a where "sem_run cl file as s = Some t" "sem_step cl file a t = Some u" by (auto simp: sem_moves_def)
  then have "sem_run cl file (as @ [a]) s = Some u" by (simp add: sem_run_append)
  then show ?case by blast
qed

lemma sem_left_init:
  assumes "rb_inv b" and "rb_contents b = []"
  shows "sem_left cl file (sem_init cl b) \<le>
    nat (cl_producers cl) * (4 + 21 * length (case file of NULL \<Rightarrow> [] | Some ls \<Rightarrow> ls)) + 7 * nat (cl_consumers cl) + 5"
proof -
  have "length (rb_contents b) = used_cells b" using assms(1) by (simp add: used_cells_def length_rb_contents)
  then have "used_cells b = 0" using assms(2) by simp
  then show ?thesis
    by (simp add: sem_left_def sem_init_def total_def sum_list_replicate producer_left_def consumer_left_def shared_left_def
        main_left_def algebra_simps)
qed

subsection \<open>Properties\<close>



end
