(* ===== verification/Monitor.thy ===== *)
theory Monitor
  imports Producer_Consumer Transition
begin

text \<open>
  The monitor version of the producer/consumer program (\<open>cw09/zad1/src/main-monitor.c\<close>): a mutex and
  two condition variables instead of three semaphores.  \<open>pthread_cond_wait\<close> gives up the mutex and
  waits in one step; a woken thread has to take the mutex again before it goes on.  A signal wakes
  one waiting thread, any one, or none when nobody waits; threads may also wake up by themselves.

  The program runs without a time limit: the driver waits for the producers and then cancels the
  consumers, which takes effect where they wait, after the mutex has been taken and released again
  by the cleanup handler, or in the \<open>usleep\<close> they start with when \<open>cl.sleep\<close> is positive.
\<close>

record mon_shared =
  locked :: bool
  mbuf :: "string ring_buffer"
  mprinted :: "string list"
  mfreed :: "string ptr list"

datatype mp_pc =
    MP_Start
  | MP_Read
  | MP_Lock string
  | MP_Push string
  | MP_Wait string
  | MP_Woken string
  | MP_Signal
  | MP_Unlock
  | MP_Exit
  | MP_Unopened

record mproducer =
  mp_pc :: mp_pc
  mp_file :: "string list"

datatype mc_pc =
    MC_Start
  | MC_Lock
  | MC_Pop
  | MC_Wait
  | MC_Woken
  | MC_Signal "string ptr"
  | MC_Unlock "string ptr"
  | MC_Print "string ptr"
  | MC_Free "string ptr"
  | MC_Exit

record mon_sys =
  msh :: mon_shared
  mprods :: "mproducer list"
  mcons :: "mc_pc list"

subsection \<open>Threads\<close>

text \<open>
  The steps that concern the thread and the shared state; signalling is below.  \<open>file\<close> is as in the
  semaphore version.
\<close>

definition mon_producer :: "string list ptr \<Rightarrow> mon_shared \<Rightarrow> mproducer \<Rightarrow> (mon_shared \<times> mproducer) option" where
  "mon_producer file sh p =
     (case mp_pc p of
        MP_Start \<Rightarrow>
          (case file of
             NULL \<Rightarrow> Some (sh, p\<lparr>mp_pc := MP_Unopened\<rparr>)
           | Some ls \<Rightarrow> Some (sh, p\<lparr>mp_pc := MP_Read, mp_file := ls\<rparr>))
      | MP_Read \<Rightarrow>
          (case mp_file p of
             [] \<Rightarrow> Some (sh, p\<lparr>mp_pc := MP_Exit\<rparr>)
           | l # ls \<Rightarrow>
               (case fst (strtok [NL] (cstr l)) of
                  NULL \<Rightarrow> Some (sh, p\<lparr>mp_file := ls\<rparr>)
                | Some line \<Rightarrow> Some (sh, p\<lparr>mp_pc := MP_Lock line, mp_file := ls\<rparr>)))
      | MP_Lock line \<Rightarrow> if locked sh then None else Some (sh\<lparr>locked := True\<rparr>, p\<lparr>mp_pc := MP_Push line\<rparr>)
      | MP_Push line \<Rightarrow>
          (case buffer_push (Some line) (mbuf sh) of
             (r, b) \<Rightarrow>
               Some (if r \<noteq> 0 then (sh\<lparr>mbuf := b, locked := False\<rparr>, p\<lparr>mp_pc := MP_Wait line\<rparr>)
                     else (sh\<lparr>mbuf := b\<rparr>, p\<lparr>mp_pc := MP_Signal\<rparr>)))
      | MP_Wait line \<Rightarrow> None
      | MP_Woken line \<Rightarrow> if locked sh then None else Some (sh\<lparr>locked := True\<rparr>, p\<lparr>mp_pc := MP_Push line\<rparr>)
      | MP_Signal \<Rightarrow> None
      | MP_Unlock \<Rightarrow> Some (sh\<lparr>locked := False\<rparr>, p\<lparr>mp_pc := MP_Read\<rparr>)
      | MP_Exit \<Rightarrow> None
      | MP_Unopened \<Rightarrow> None)"

definition mon_consumer :: "cl \<Rightarrow> mon_shared \<Rightarrow> mc_pc \<Rightarrow> (mon_shared \<times> mc_pc) option" where
  "mon_consumer cl sh c =
     (case c of
        MC_Start \<Rightarrow> Some (sh, MC_Lock)
      | MC_Lock \<Rightarrow> if locked sh then None else Some (sh\<lparr>locked := True\<rparr>, MC_Pop)
      | MC_Pop \<Rightarrow>
          (case buffer_pop NULL (mbuf sh) of
             (r, line, b) \<Rightarrow>
               Some (if r \<noteq> 0 then (sh\<lparr>mbuf := b, locked := False\<rparr>, MC_Wait) else (sh\<lparr>mbuf := b\<rparr>, MC_Signal line)))
      | MC_Wait \<Rightarrow> None
      | MC_Woken \<Rightarrow> if locked sh then None else Some (sh\<lparr>locked := True\<rparr>, MC_Pop)
      | MC_Signal line \<Rightarrow> None
      | MC_Unlock line \<Rightarrow> Some (sh\<lparr>locked := False\<rparr>, MC_Print line)
      | MC_Print line \<Rightarrow>
          (case line of
             NULL \<Rightarrow> None
           | Some l \<Rightarrow> Some (if cl_shouldprint cl l then sh\<lparr>mprinted := mprinted sh @ [l]\<rparr> else sh, MC_Free line))
      | MC_Free line \<Rightarrow> Some (sh\<lparr>mfreed := mfreed sh @ [line]\<rparr>, MC_Lock)
      | MC_Exit \<Rightarrow> None)"

definition mp_waits :: "mproducer \<Rightarrow> bool" where
  "mp_waits p = (case mp_pc p of MP_Wait _ \<Rightarrow> True | _ \<Rightarrow> False)"

definition mp_finished :: "mproducer \<Rightarrow> bool" where
  "mp_finished p = (mp_pc p \<in> {MP_Exit, MP_Unopened})"

definition mp_wake :: "mproducer \<Rightarrow> mproducer" where
  "mp_wake p = (case mp_pc p of MP_Wait line \<Rightarrow> p\<lparr>mp_pc := MP_Woken line\<rparr> | _ \<Rightarrow> p)"

definition mc_after_signal :: "mc_pc \<Rightarrow> mc_pc option" where
  "mc_after_signal c = (case c of MC_Signal line \<Rightarrow> Some (MC_Unlock line) | _ \<Rightarrow> None)"

subsection \<open>The program\<close>

text \<open>
  A signal names the thread it wakes; without a waiting thread it does nothing.
\<close>

datatype mon_event =
    M_Producer nat
  | M_Consumer nat
  | M_Signal_Consumer nat "nat option"
  | M_Signal_Producer nat "nat option"
  | M_Cancel nat
  | M_Spurious_Producer nat
  | M_Spurious_Consumer nat

definition signal_consumer :: "nat \<Rightarrow> nat option \<Rightarrow> mon_sys \<Rightarrow> mon_sys option" where
  "signal_consumer i w s =
     (if i < length (mprods s) \<and> mp_pc (mprods s ! i) = MP_Signal then
        let s1 = s\<lparr>mprods := (mprods s)[i := (mprods s ! i)\<lparr>mp_pc := MP_Unlock\<rparr>]\<rparr> in
        case w of
          None \<Rightarrow> if MC_Wait \<in> set (mcons s) then None else Some s1
        | Some k \<Rightarrow>
            if k < length (mcons s) \<and> mcons s ! k = MC_Wait then Some (s1\<lparr>mcons := (mcons s)[k := MC_Woken]\<rparr>) else None
      else None)"

definition signal_producer :: "nat \<Rightarrow> nat option \<Rightarrow> mon_sys \<Rightarrow> mon_sys option" where
  "signal_producer i w s =
     (if i < length (mcons s) then
        (case mc_after_signal (mcons s ! i) of
           None \<Rightarrow> None
         | Some c \<Rightarrow>
             let s1 = s\<lparr>mcons := (mcons s)[i := c]\<rparr> in
             case w of
               None \<Rightarrow> if \<exists>p \<in> set (mprods s). mp_waits p then None else Some s1
             | Some k \<Rightarrow>
                 if k < length (mprods s) \<and> mp_waits (mprods s ! k)
                 then Some (s1\<lparr>mprods := (mprods s)[k := mp_wake (mprods s ! k)]\<rparr>) else None)
      else None)"

definition mon_act :: "cl \<Rightarrow> string list ptr \<Rightarrow> mon_event \<Rightarrow> mon_sys \<Rightarrow> mon_sys option" where
  "mon_act cl file a s =
     (case a of
        M_Producer i \<Rightarrow>
          if i < length (mprods s)
          then map_option (\<lambda>(sh, p). s\<lparr>msh := sh, mprods := (mprods s)[i := p]\<rparr>) (mon_producer file (msh s) (mprods s ! i))
          else None
      | M_Consumer i \<Rightarrow>
          if i < length (mcons s)
          then map_option (\<lambda>(sh, c). s\<lparr>msh := sh, mcons := (mcons s)[i := c]\<rparr>) (mon_consumer cl (msh s) (mcons s ! i))
          else None
      | M_Signal_Consumer i w \<Rightarrow> signal_consumer i w s
      | M_Signal_Producer i w \<Rightarrow> signal_producer i w s
      | M_Cancel i \<Rightarrow>
          if i < length (mcons s) \<and> (\<forall>p \<in> set (mprods s). mp_finished p) \<and>
            ((mcons s ! i = MC_Wait \<and> \<not> locked (msh s)) \<or> (mcons s ! i = MC_Start \<and> 0 < cl_sleep cl))
          then Some (s\<lparr>mcons := (mcons s)[i := MC_Exit]\<rparr>) else None
      | M_Spurious_Producer i \<Rightarrow>
          if i < length (mprods s) \<and> mp_waits (mprods s ! i)
          then Some (s\<lparr>mprods := (mprods s)[i := mp_wake (mprods s ! i)]\<rparr>) else None
      | M_Spurious_Consumer i \<Rightarrow>
          if i < length (mcons s) \<and> mcons s ! i = MC_Wait then Some (s\<lparr>mcons := (mcons s)[i := MC_Woken]\<rparr>) else None)"

definition mon_step :: "cl \<Rightarrow> string list ptr \<Rightarrow> mon_sys \<Rightarrow> mon_sys \<Rightarrow> bool" where
  "mon_step cl file s t = (\<exists>a. mon_act cl file a s = Some t)"

definition mon_init :: "cl \<Rightarrow> string ring_buffer \<Rightarrow> mon_sys" where
  "mon_init cl b =
     \<lparr>msh = \<lparr>locked = False, mbuf = b, mprinted = [], mfreed = []\<rparr>,
      mprods = replicate (nat (cl_producers cl)) \<lparr>mp_pc = MP_Start, mp_file = []\<rparr>,
      mcons = replicate (nat (cl_consumers cl)) MC_Start\<rparr>"

subsection \<open>Weights\<close>

text \<open>Holding the mutex, having a signal to send, and being about to look at the buffer.\<close>

definition mp_holds :: "mproducer \<Rightarrow> nat" where
  "mp_holds p = (case mp_pc p of MP_Push _ \<Rightarrow> 1 | MP_Signal \<Rightarrow> 1 | MP_Unlock \<Rightarrow> 1 | _ \<Rightarrow> 0)"

definition mp_sig :: "mproducer \<Rightarrow> nat" where
  "mp_sig p = (if mp_pc p = MP_Signal then 1 else 0)"

definition mp_ready :: "mproducer \<Rightarrow> nat" where
  "mp_ready p = (case mp_pc p of MP_Push _ \<Rightarrow> 1 | MP_Woken _ \<Rightarrow> 1 | _ \<Rightarrow> 0)"

definition mc_holds :: "mc_pc \<Rightarrow> nat" where
  "mc_holds c = (case c of MC_Pop \<Rightarrow> 1 | MC_Signal _ \<Rightarrow> 1 | MC_Unlock _ \<Rightarrow> 1 | _ \<Rightarrow> 0)"

definition mc_sig :: "mc_pc \<Rightarrow> nat" where
  "mc_sig c = (case c of MC_Signal _ \<Rightarrow> 1 | _ \<Rightarrow> 0)"

definition mc_ready :: "mc_pc \<Rightarrow> nat" where
  "mc_ready c = (case c of MC_Pop \<Rightarrow> 1 | MC_Woken \<Rightarrow> 1 | _ \<Rightarrow> 0)"

definition mp_todo :: "string list ptr \<Rightarrow> mproducer \<Rightarrow> string ptr multiset" where
  "mp_todo file p =
     (case mp_pc p of
        MP_Start \<Rightarrow> mset (map Some (lines_of (case file of NULL \<Rightarrow> [] | Some ls \<Rightarrow> ls)))
      | MP_Unopened \<Rightarrow> mset (map Some (lines_of (case file of NULL \<Rightarrow> [] | Some ls \<Rightarrow> ls)))
      | pc \<Rightarrow> mset (map Some (lines_of (mp_file p))) +
          (case pc of
             MP_Lock l \<Rightarrow> {#Some l#} | MP_Push l \<Rightarrow> {#Some l#} | MP_Wait l \<Rightarrow> {#Some l#} | MP_Woken l \<Rightarrow> {#Some l#}
           | _ \<Rightarrow> {#}))"

definition mc_held :: "mc_pc \<Rightarrow> string ptr multiset" where
  "mc_held c = (case c of MC_Signal l \<Rightarrow> {#l#} | MC_Unlock l \<Rightarrow> {#l#} | MC_Print l \<Rightarrow> {#l#} | MC_Free l \<Rightarrow> {#l#} | _ \<Rightarrow> {#})"

definition mc_freeing :: "mc_pc \<Rightarrow> string ptr multiset" where
  "mc_freeing c = (case c of MC_Free l \<Rightarrow> {#l#} | _ \<Rightarrow> {#})"

definition mp_clean :: "string list ptr \<Rightarrow> mproducer \<Rightarrow> bool" where
  "mp_clean file p = (case mp_pc p of MP_Exit \<Rightarrow> mp_file p = [] | MP_Unopened \<Rightarrow> file = NULL | _ \<Rightarrow> True)"

lemmas mon_weights = mp_holds_def mp_sig_def mp_ready_def mc_holds_def mc_sig_def mc_ready_def mp_waits_def mp_finished_def

subsection \<open>One thread\<close>

text \<open>The number of lines in the buffer and the room left.\<close>

abbreviation used :: "mon_shared \<Rightarrow> nat" where
  "used sh \<equiv> length (rb_contents (mbuf sh))"

abbreviation room :: "mon_shared \<Rightarrow> nat" where
  "room sh \<equiv> rb_capacity (mbuf sh) - used sh"

lemma push_cases:
  assumes "rb_inv b" and "buffer_push (Some x) b = (r, b')"
  obtains (full) "r = -1" "b' = b" "length (rb_contents b) = rb_capacity b"
  | (pushed) "r = 0" "rb_inv b'" "rb_capacity b' = rb_capacity b" "rb_contents b' = rb_contents b @ [Some x]"
      "length (rb_contents b) < rb_capacity b"
proof (cases "buffer_full b")
  case True
  then show ?thesis using full assms buffer_full_iff [OF assms(1)] by (simp add: buffer_push_full)
next
  case False
  moreover have "length (rb_contents b) < rb_capacity b"
    using False buffer_full_iff [OF assms(1)] ring.content_bound [OF assms(1)] by simp
  ultimately show ?thesis using pushed buffer_push_ok [OF assms(1) False, of "Some x"] assms(2) by simp
qed

lemma pop_cases:
  assumes "rb_inv b" and "buffer_pop NULL b = (r, x, b')"
  obtains (empty) "r = -1" "b' = b" "rb_contents b = []"
  | (popped) "r = 0" "rb_inv b'" "rb_capacity b' = rb_capacity b" "rb_contents b = x # rb_contents b'"
proof (cases "buffer_empty b")
  case True
  then show ?thesis using empty assms buffer_empty_iff [OF assms(1)] by (simp add: buffer_pop_empty)
next
  case False
  then show ?thesis using popped buffer_pop_ok [OF assms(1) False assms(2)] by simp
qed


definition mc_idle :: "mc_pc \<Rightarrow> bool" where
  "mc_idle c = (c \<in> {MC_Wait, MC_Exit})"

lemma mon_producer_local:
  assumes st: "mon_producer file sh p = Some (sh', p')" and b: "rb_inv (mbuf sh)" and h: "mp_holds p = 1 \<longrightarrow> locked sh"
  shows "rb_inv (mbuf sh') \<and> rb_capacity (mbuf sh') = rb_capacity (mbuf sh) \<and>
      of_bool (\<not> locked sh') + mp_holds p' = (of_bool (\<not> locked sh) + mp_holds p :: nat)"
    and "mp_todo file p' + mset (rb_contents (mbuf sh')) = mp_todo file p + mset (rb_contents (mbuf sh)) \<and>
      mfreed sh' = mfreed sh \<and> mprinted sh' = mprinted sh \<and> mp_clean file p' \<and> \<not> mp_finished p"
    and "used sh' + mp_sig p = used sh + mp_sig p'"
    and "room sh' = 0 \<or> (room sh' + mp_ready p \<le> room sh + mp_ready p' \<and> (mp_waits p' \<longrightarrow> mp_waits p))"
proof -
  have "(rb_inv (mbuf sh') \<and> rb_capacity (mbuf sh') = rb_capacity (mbuf sh) \<and>
      of_bool (\<not> locked sh') + mp_holds p' = (of_bool (\<not> locked sh) + mp_holds p :: nat)) \<and>
    (mp_todo file p' + mset (rb_contents (mbuf sh')) = mp_todo file p + mset (rb_contents (mbuf sh)) \<and>
      mfreed sh' = mfreed sh \<and> mprinted sh' = mprinted sh \<and> mp_clean file p' \<and> \<not> mp_finished p) \<and>
    used sh' + mp_sig p = used sh + mp_sig p' \<and>
    (room sh' = 0 \<or> (room sh' + mp_ready p \<le> room sh + mp_ready p' \<and> (mp_waits p' \<longrightarrow> mp_waits p)))"
  proof (cases "mp_pc p")
    case (MP_Push x)
    obtain r b' where r: "buffer_push (Some x) (mbuf sh) = (r, b')" by (metis surj_pair)
    have l: "locked sh" using h MP_Push by (simp add: mp_holds_def)
    from b r show ?thesis
      by (cases rule: push_cases) (use st MP_Push r b l in \<open>auto simp: mon_producer_def mon_weights mp_todo_def mp_clean_def\<close>)
  qed (use st b h in \<open>auto simp: mon_producer_def mon_weights mp_todo_def mp_clean_def split: option.splits list.splits if_splits\<close>)
  then show "rb_inv (mbuf sh') \<and> rb_capacity (mbuf sh') = rb_capacity (mbuf sh) \<and>
      of_bool (\<not> locked sh') + mp_holds p' = (of_bool (\<not> locked sh) + mp_holds p :: nat)"
    and "mp_todo file p' + mset (rb_contents (mbuf sh')) = mp_todo file p + mset (rb_contents (mbuf sh)) \<and>
      mfreed sh' = mfreed sh \<and> mprinted sh' = mprinted sh \<and> mp_clean file p' \<and> \<not> mp_finished p"
    and "used sh' + mp_sig p = used sh + mp_sig p'"
    and "room sh' = 0 \<or> (room sh' + mp_ready p \<le> room sh + mp_ready p' \<and> (mp_waits p' \<longrightarrow> mp_waits p))"
    by blast+
qed

text \<open>What has been printed, as the part of the freed lines that pass the test.\<close>

definition passing :: "cl \<Rightarrow> string ptr multiset \<Rightarrow> string multiset" where
  "passing cl m = filter_mset (cl_shouldprint cl) (image_mset the m)"

lemma passing_simps [simp]: "passing cl {#} = {#}" "passing cl (m + n) = passing cl m + passing cl n"
  by (simp_all add: passing_def)

lemma mon_consumer_local:
  assumes st: "mon_consumer cl sh c = Some (sh', c')" and b: "rb_inv (mbuf sh)" and h: "mc_holds c = 1 \<longrightarrow> locked sh"
  shows "rb_inv (mbuf sh') \<and> rb_capacity (mbuf sh') = rb_capacity (mbuf sh) \<and>
      of_bool (\<not> locked sh') + mc_holds c' = (of_bool (\<not> locked sh) + mc_holds c :: nat)"
    and "mc_held c' + mset (rb_contents (mbuf sh')) + mset (mfreed sh') = mc_held c + mset (rb_contents (mbuf sh)) + mset (mfreed sh) \<and>
      mset (mprinted sh') + passing cl (mset (mfreed sh) + mc_freeing c) =
        mset (mprinted sh) + passing cl (mset (mfreed sh') + mc_freeing c') \<and> c' \<noteq> MC_Exit"
    and "room sh' + mc_sig c = room sh + mc_sig c'"
    and "used sh' = 0 \<or> (used sh' + mc_ready c \<le> used sh + mc_ready c' \<and> (mc_idle c' \<longrightarrow> mc_idle c))"
proof -
  have "(rb_inv (mbuf sh') \<and> rb_capacity (mbuf sh') = rb_capacity (mbuf sh) \<and>
      of_bool (\<not> locked sh') + mc_holds c' = (of_bool (\<not> locked sh) + mc_holds c :: nat)) \<and>
    (mc_held c' + mset (rb_contents (mbuf sh')) + mset (mfreed sh') = mc_held c + mset (rb_contents (mbuf sh)) + mset (mfreed sh) \<and>
      mset (mprinted sh') + passing cl (mset (mfreed sh) + mc_freeing c) =
        mset (mprinted sh) + passing cl (mset (mfreed sh') + mc_freeing c') \<and> c' \<noteq> MC_Exit) \<and>
    room sh' + mc_sig c = room sh + mc_sig c' \<and>
    (used sh' = 0 \<or> (used sh' + mc_ready c \<le> used sh + mc_ready c' \<and> (mc_idle c' \<longrightarrow> mc_idle c)))"
  proof (cases c)
    case MC_Pop
    obtain r x b' where r: "buffer_pop NULL (mbuf sh) = (r, x, b')" by (metis surj_pair)
    have l: "locked sh" using h MC_Pop by (simp add: mc_holds_def)
    have bd: "used sh \<le> rb_capacity (mbuf sh)" using ring.content_bound [OF b] .
    from b r show ?thesis
      by (cases rule: pop_cases) (use st MC_Pop r b l bd in \<open>auto simp: mon_consumer_def mon_weights mc_held_def mc_freeing_def mc_idle_def\<close>)
  qed (use st b h in \<open>auto simp: mon_consumer_def mon_weights mc_held_def mc_freeing_def mc_idle_def passing_def split: option.splits if_splits\<close>)
  then show "rb_inv (mbuf sh') \<and> rb_capacity (mbuf sh') = rb_capacity (mbuf sh) \<and>
      of_bool (\<not> locked sh') + mc_holds c' = (of_bool (\<not> locked sh) + mc_holds c :: nat)"
    and "mc_held c' + mset (rb_contents (mbuf sh')) + mset (mfreed sh') = mc_held c + mset (rb_contents (mbuf sh)) + mset (mfreed sh) \<and>
      mset (mprinted sh') + passing cl (mset (mfreed sh) + mc_freeing c) =
        mset (mprinted sh) + passing cl (mset (mfreed sh') + mc_freeing c') \<and> c' \<noteq> MC_Exit"
    and "room sh' + mc_sig c = room sh + mc_sig c'"
    and "used sh' = 0 \<or> (used sh' + mc_ready c \<le> used sh + mc_ready c' \<and> (mc_idle c' \<longrightarrow> mc_idle c))"
    by blast+
qed


subsection \<open>Invariant\<close>

text \<open>
  Somebody waits only while enough others are awake: as long as a consumer is idle, every line in
  the buffer has a consumer about to take it or a signal about to be sent; likewise for the
  producers and the room in the buffer.
\<close>

definition mon_inv :: "cl \<Rightarrow> string list ptr \<Rightarrow> nat \<Rightarrow> string ptr multiset \<Rightarrow> mon_sys \<Rightarrow> bool" where
  "mon_inv cl file cap L s \<longleftrightarrow>
     rb_inv (mbuf (msh s)) \<and> rb_capacity (mbuf (msh s)) = cap \<and>
     of_bool (\<not> locked (msh s)) + total mp_holds (mprods s) + total mc_holds (mcons s) = (1::nat) \<and>
     ((\<exists>c \<in> set (mcons s). mc_idle c) \<longrightarrow> used (msh s) \<le> total mc_ready (mcons s) + total mp_sig (mprods s)) \<and>
     ((\<exists>p \<in> set (mprods s). mp_waits p) \<longrightarrow> room (msh s) \<le> total mp_ready (mprods s) + total mc_sig (mcons s)) \<and>
     (MC_Exit \<in> set (mcons s) \<longrightarrow> (\<forall>p \<in> set (mprods s). mp_finished p)) \<and>
     (\<forall>p \<in> set (mprods s). mp_clean file p) \<and>
     mset (mprinted (msh s)) = passing cl (mset (mfreed (msh s)) + total mc_freeing (mcons s)) \<and>
     total (mp_todo file) (mprods s) + mset (rb_contents (mbuf (msh s))) + total mc_held (mcons s) + mset (mfreed (msh s)) = L"

lemma mon_inv_exclusive:
  assumes "mon_inv cl file cap L s"
  shows "i < length (mprods s) \<Longrightarrow> mp_holds (mprods s ! i) = 1 \<Longrightarrow> locked (msh s)"
    and "i < length (mcons s) \<Longrightarrow> mc_holds (mcons s ! i) = 1 \<Longrightarrow> locked (msh s)"
  using assms total_ge [of i "mprods s" mp_holds] total_ge [of i "mcons s" mc_holds]
  by (auto simp: mon_inv_def of_bool_def split: if_splits)

lemma mon_inv_waiting:
  assumes "mon_inv cl file cap L s"
  shows "\<exists>c \<in> set (mcons s). mc_idle c \<Longrightarrow> used (msh s) \<le> total mc_ready (mcons s) + total mp_sig (mprods s)"
    and "\<exists>p \<in> set (mprods s). mp_waits p \<Longrightarrow> room (msh s) \<le> total mp_ready (mprods s) + total mc_sig (mcons s)"
  using assms unfolding mon_inv_def by blast+

lemma ex_update:
  assumes "i < length xs" and "\<exists>x \<in> set (xs[i := v]). P x"
  shows "P v \<or> (\<exists>x \<in> set xs. P x)"
  using assms set_update_subset_insert [of xs i v] by auto

lemma all_update: "\<forall>x \<in> set xs. P x \<Longrightarrow> P v \<Longrightarrow> \<forall>x \<in> set (xs[i := v]). P x"
  using set_update_subset_insert [of xs i v] by auto

lemma mon_inv_producer:
  assumes inv: "mon_inv cl file cap L s" and i: "i < length (mprods s)"
    and st: "mon_producer file (msh s) (mprods s ! i) = Some (sh, p)"
  shows "mon_inv cl file cap L (s\<lparr>msh := sh, mprods := (mprods s)[i := p]\<rparr>)"
proof -
  let ?q = "mprods s ! i" and ?ps = "(mprods s)[i := p]"
  have b: "rb_inv (mbuf (msh s))" using inv by (simp add: mon_inv_def)
  have h: "mp_holds ?q = 1 \<longrightarrow> locked (msh s)" using mon_inv_exclusive(1) [OF inv i] by blast
  note loc = mon_producer_local [OF st b h]
  have u: "total f ?ps + f ?q = total f (mprods s) + f p" for f :: "mproducer \<Rightarrow> nat" by (rule total_update [OF i])
  have ne: "MC_Exit \<notin> set (mcons s)" using inv i loc(2) by (auto simp: mon_inv_def)
  have "of_bool (\<not> locked sh) + total mp_holds ?ps + total mc_holds (mcons s) = (1::nat)"
    using u [of mp_holds] loc(1) inv by (simp add: mon_inv_def)
  moreover have "used sh \<le> total mc_ready (mcons s) + total mp_sig ?ps" if "\<exists>c \<in> set (mcons s). mc_idle c"
    using u [of mp_sig] loc(3) inv that by (simp add: mon_inv_def)
  moreover have "room sh \<le> total mp_ready ?ps + total mc_sig (mcons s)" if "\<exists>p \<in> set ?ps. mp_waits p"
  proof -
    have old: "room (msh s) \<le> total mp_ready (mprods s) + total mc_sig (mcons s)" if "\<exists>p \<in> set (mprods s). mp_waits p"
      using mon_inv_waiting(2) [OF inv that] .
    show ?thesis
    proof (cases "room sh = 0")
      case False
      then have "room sh + mp_ready ?q \<le> room (msh s) + mp_ready p" "mp_waits p \<longrightarrow> mp_waits ?q" using loc(4) by linarith+
      moreover have "\<exists>p \<in> set (mprods s). mp_waits p" using ex_update [OF i that] calculation(2) i by (auto intro: nth_mem)
      ultimately show ?thesis using old u [of mp_ready] by linarith
    qed simp
  qed
  moreover have "\<forall>p \<in> set ?ps. mp_clean file p" using inv loc(2) by (intro all_update) (simp_all add: mon_inv_def)
  moreover have "total (mp_todo file) ?ps + mset (rb_contents (mbuf sh)) = total (mp_todo file) (mprods s) + mset (rb_contents (mbuf (msh s)))"
  proof -
    have "total (mp_todo file) ?ps + mset (rb_contents (mbuf sh)) + mp_todo file ?q =
        total (mp_todo file) (mprods s) + (mp_todo file p + mset (rb_contents (mbuf sh)))"
      using total_update [OF i, of "mp_todo file" p] by (simp add: ac_simps)
    also have "\<dots> = total (mp_todo file) (mprods s) + mset (rb_contents (mbuf (msh s))) + mp_todo file ?q"
      using loc(2) by (simp add: ac_simps)
    finally show ?thesis by simp
  qed
  ultimately show ?thesis using inv loc(1,2) ne by (auto simp: mon_inv_def)
qed

lemma mon_inv_consumer:
  assumes inv: "mon_inv cl file cap L s" and i: "i < length (mcons s)"
    and st: "mon_consumer cl (msh s) (mcons s ! i) = Some (sh, c)"
  shows "mon_inv cl file cap L (s\<lparr>msh := sh, mcons := (mcons s)[i := c]\<rparr>)"
proof -
  let ?q = "mcons s ! i" and ?cs = "(mcons s)[i := c]"
  have b: "rb_inv (mbuf (msh s))" using inv by (simp add: mon_inv_def)
  have h: "mc_holds ?q = 1 \<longrightarrow> locked (msh s)" using mon_inv_exclusive(2) [OF inv i] by blast
  note loc = mon_consumer_local [OF st b h]
  have u: "total f ?cs + f ?q = total f (mcons s) + f c" for f :: "mc_pc \<Rightarrow> nat" by (rule total_update [OF i])
  have ne: "MC_Exit \<in> set (mcons s)" if "MC_Exit \<in> set ?cs" using ex_update [OF i, of c "\<lambda>x. x = MC_Exit"] that loc(2) by auto
  have "of_bool (\<not> locked sh) + total mp_holds (mprods s) + total mc_holds ?cs = (1::nat)"
    using u [of mc_holds] loc(1) inv by (simp add: mon_inv_def)
  moreover have "room sh \<le> total mp_ready (mprods s) + total mc_sig ?cs" if "\<exists>p \<in> set (mprods s). mp_waits p"
    using u [of mc_sig] loc(3) mon_inv_waiting(2) [OF inv that] by linarith
  moreover have "used sh \<le> total mc_ready ?cs + total mp_sig (mprods s)" if "\<exists>c \<in> set ?cs. mc_idle c"
  proof -
    have old: "used (msh s) \<le> total mc_ready (mcons s) + total mp_sig (mprods s)" if "\<exists>c \<in> set (mcons s). mc_idle c"
      using inv that by (simp add: mon_inv_def)
    show ?thesis
    proof (cases "used sh = 0")
      case False
      then have "used sh + mc_ready ?q \<le> used (msh s) + mc_ready c" "mc_idle c \<longrightarrow> mc_idle ?q" using loc(4) by blast+
      moreover have "\<exists>c \<in> set (mcons s). mc_idle c" using ex_update [OF i that] calculation(2) i by (auto intro: nth_mem)
      ultimately show ?thesis using old u [of mc_ready] by linarith
    qed simp
  qed
  moreover have "total (mp_todo file) (mprods s) + mset (rb_contents (mbuf sh)) + total mc_held ?cs + mset (mfreed sh) = L"
  proof -
    have "mset (rb_contents (mbuf sh)) + total mc_held ?cs + mset (mfreed sh) + mc_held ?q =
        total mc_held (mcons s) + (mc_held c + mset (rb_contents (mbuf sh)) + mset (mfreed sh))"
      using total_update [OF i, of mc_held c] by (simp add: ac_simps)
    also have "\<dots> = mset (rb_contents (mbuf (msh s))) + total mc_held (mcons s) + mset (mfreed (msh s)) + mc_held ?q"
      using loc(2) by (simp add: ac_simps)
    finally have "mset (rb_contents (mbuf sh)) + total mc_held ?cs + mset (mfreed sh) =
        mset (rb_contents (mbuf (msh s))) + total mc_held (mcons s) + mset (mfreed (msh s))" by simp
    then have "total (mp_todo file) (mprods s) + (mset (rb_contents (mbuf sh)) + total mc_held ?cs + mset (mfreed sh)) =
        total (mp_todo file) (mprods s) + (mset (rb_contents (mbuf (msh s))) + total mc_held (mcons s) + mset (mfreed (msh s)))"
      by (simp only:)
    then show ?thesis using inv by (simp add: mon_inv_def add.assoc)
  qed
  moreover have "mset (mprinted sh) = passing cl (mset (mfreed sh) + total mc_freeing ?cs)"
  proof -
    have t: "passing cl (total mc_freeing ?cs) + passing cl (mc_freeing ?q) = passing cl (total mc_freeing (mcons s)) + passing cl (mc_freeing c)"
      using arg_cong [OF total_update [OF i, of mc_freeing c], of "passing cl"] by simp
    have "mset (mprinted sh) + passing cl (mset (mfreed (msh s)) + mc_freeing ?q) =
        passing cl (mset (mfreed (msh s))) + passing cl (mset (mfreed sh)) + (passing cl (total mc_freeing (mcons s)) + passing cl (mc_freeing c))"
      using loc(2) inv by (simp add: mon_inv_def ac_simps)
    also have "\<dots> = passing cl (mset (mfreed sh) + total mc_freeing ?cs) + passing cl (mset (mfreed (msh s)) + mc_freeing ?q)"
      unfolding t [symmetric] by (simp add: ac_simps)
    finally show ?thesis by (simp only: add_right_cancel)
  qed
  ultimately show ?thesis using inv loc(1) ne by (auto simp: mon_inv_def)
qed


text \<open>A waiting thread that wakes up, or is cancelled.\<close>

lemma mc_wait_zero: "mc_holds MC_Wait = 0" "mc_sig MC_Wait = 0" "mc_ready MC_Wait = 0" "mc_held MC_Wait = {#}" "mc_freeing MC_Wait = {#}"
  "mc_holds MC_Woken = 0" "mc_sig MC_Woken = 0" "mc_ready MC_Woken = 1" "mc_held MC_Woken = {#}" "mc_freeing MC_Woken = {#}"
  "mc_holds MC_Exit = 0" "mc_sig MC_Exit = 0" "mc_ready MC_Exit = 0" "mc_held MC_Exit = {#}" "mc_freeing MC_Exit = {#}"
  "mc_idle MC_Wait" "mc_idle MC_Exit" "\<not> mc_idle MC_Woken"
  by (simp_all add: mon_weights mc_held_def mc_freeing_def mc_idle_def)

lemma mon_inv_wake_consumer:
  assumes inv: "mon_inv cl file cap L s" and k: "k < length (mcons s)" "mcons s ! k = MC_Wait"
  shows "mon_inv cl file cap L (s\<lparr>mcons := (mcons s)[k := MC_Woken]\<rparr>) \<and>
    total mc_ready ((mcons s)[k := MC_Woken]) = Suc (total mc_ready (mcons s))"
proof -
  let ?cs = "(mcons s)[k := MC_Woken]"
  have u: "total mc_holds ?cs = total mc_holds (mcons s)" "total mc_sig ?cs = total mc_sig (mcons s)"
    "total mc_ready ?cs = Suc (total mc_ready (mcons s))" "total mc_held ?cs = total mc_held (mcons s)"
    "total mc_freeing ?cs = total mc_freeing (mcons s)"
    using total_update [OF k(1), of mc_holds MC_Woken] total_update [OF k(1), of mc_sig MC_Woken] total_update [OF k(1), of mc_ready MC_Woken]
      total_update [OF k(1), of mc_held MC_Woken] total_update [OF k(1), of mc_freeing MC_Woken] k(2) by (simp_all add: mc_wait_zero)
  have "\<exists>c \<in> set (mcons s). mc_idle c" using k mc_wait_zero(16) by (metis nth_mem)
  note w = mon_inv_waiting(1) [OF inv this]
  have "MC_Exit \<in> set (mcons s)" if "MC_Exit \<in> set ?cs" using ex_update [OF k(1), of MC_Woken "\<lambda>x. x = MC_Exit"] that by auto
  then show ?thesis using inv w by (auto simp: mon_inv_def u)
qed

lemma mon_inv_cancel:
  assumes inv: "mon_inv cl file cap L s" and k: "k < length (mcons s)" "mcons s ! k = MC_Wait" and fin: "\<forall>p \<in> set (mprods s). mp_finished p"
  shows "mon_inv cl file cap L (s\<lparr>mcons := (mcons s)[k := MC_Exit]\<rparr>)"
proof -
  let ?cs = "(mcons s)[k := MC_Exit]"
  have u: "total mc_holds ?cs = total mc_holds (mcons s)" "total mc_sig ?cs = total mc_sig (mcons s)"
    "total mc_ready ?cs = total mc_ready (mcons s)" "total mc_held ?cs = total mc_held (mcons s)"
    "total mc_freeing ?cs = total mc_freeing (mcons s)"
    using total_update [OF k(1), of mc_holds MC_Exit] total_update [OF k(1), of mc_sig MC_Exit] total_update [OF k(1), of mc_ready MC_Exit]
      total_update [OF k(1), of mc_held MC_Exit] total_update [OF k(1), of mc_freeing MC_Exit] k(2) by (simp_all add: mc_wait_zero)
  have "\<exists>c \<in> set (mcons s). mc_idle c" using k mc_wait_zero(16) by (metis nth_mem)
  note w = mon_inv_waiting(1) [OF inv this]
  show ?thesis using inv w fin by (auto simp: mon_inv_def u)
qed

lemma mp_wake_simps:
  assumes "mp_waits p"
  shows "mp_holds (mp_wake p) = mp_holds p" "mp_sig (mp_wake p) = mp_sig p" "mp_ready (mp_wake p) = Suc (mp_ready p)"
    "mp_todo file (mp_wake p) = mp_todo file p" "mp_clean file (mp_wake p)" "\<not> mp_waits (mp_wake p)" "\<not> mp_finished p"
  using assms by (auto simp: mp_wake_def mon_weights mp_todo_def mp_clean_def split: mp_pc.splits)

lemma mon_inv_wake_producer:
  assumes inv: "mon_inv cl file cap L s" and k: "k < length (mprods s)" "mp_waits (mprods s ! k)"
  shows "mon_inv cl file cap L (s\<lparr>mprods := (mprods s)[k := mp_wake (mprods s ! k)]\<rparr>) \<and>
    total mp_ready ((mprods s)[k := mp_wake (mprods s ! k)]) = Suc (total mp_ready (mprods s))"
proof -
  let ?p = "mp_wake (mprods s ! k)" and ?ps = "(mprods s)[k := mp_wake (mprods s ! k)]"
  note z = mp_wake_simps [OF k(2)]
  have u: "total mp_holds ?ps = total mp_holds (mprods s)" "total mp_sig ?ps = total mp_sig (mprods s)"
    "total mp_ready ?ps = Suc (total mp_ready (mprods s))" "total (mp_todo file) ?ps = total (mp_todo file) (mprods s)"
    using total_update [OF k(1), of mp_holds ?p] total_update [OF k(1), of mp_sig ?p] total_update [OF k(1), of mp_ready ?p]
      total_update [OF k(1), of "mp_todo file" ?p] by (simp_all add: z)
  have "\<exists>p \<in> set (mprods s). mp_waits p" using k nth_mem by blast
  note w = mon_inv_waiting(2) [OF inv this]
  have "MC_Exit \<notin> set (mcons s)" using inv k z(7) nth_mem unfolding mon_inv_def by blast
  moreover have "\<forall>p \<in> set ?ps. mp_clean file p" using inv z(5) by (intro all_update) (simp_all add: mon_inv_def)
  ultimately show ?thesis using inv w by (auto simp: mon_inv_def u)
qed


lemma mon_inv_no_exit:
  assumes "mon_inv cl file cap L s" and "i < length (mprods s)" and "\<not> mp_finished (mprods s ! i)"
  shows "MC_Exit \<notin> set (mcons s)"
  using assms nth_mem [OF assms(2)] unfolding mon_inv_def by blast

lemma mon_update_commute: "s\<lparr>mcons := cs, mprods := ps\<rparr> = s\<lparr>mprods := ps, mcons := cs\<rparr>"
  by (cases s) simp

text \<open>The thread that has sent its signal goes on to release the mutex.\<close>

lemma mon_inv_sent_producer:
  assumes inv: "mon_inv cl file cap L s" and i: "i < length (mprods s)" "mp_pc (mprods s ! i) = MP_Signal"
    and covered: "(\<exists>c \<in> set (mcons s). mc_idle c) \<longrightarrow> Suc (used (msh s)) \<le> total mc_ready (mcons s) + total mp_sig (mprods s)"
  shows "mon_inv cl file cap L (s\<lparr>mprods := (mprods s)[i := (mprods s ! i)\<lparr>mp_pc := MP_Unlock\<rparr>]\<rparr>)"
proof -
  let ?p = "(mprods s ! i)\<lparr>mp_pc := MP_Unlock\<rparr>" and ?ps = "(mprods s)[i := (mprods s ! i)\<lparr>mp_pc := MP_Unlock\<rparr>]"
  have u: "total mp_holds ?ps = total mp_holds (mprods s)" "Suc (total mp_sig ?ps) = total mp_sig (mprods s)"
    "total mp_ready ?ps = total mp_ready (mprods s)" "total (mp_todo file) ?ps = total (mp_todo file) (mprods s)"
    using total_update [OF i(1), of mp_holds ?p] total_update [OF i(1), of mp_sig ?p] total_update [OF i(1), of mp_ready ?p]
      total_update [OF i(1), of "mp_todo file" ?p] i(2) by (simp_all add: mon_weights mp_todo_def)
  have "\<exists>p \<in> set (mprods s). mp_waits p" if "\<exists>p \<in> set ?ps. mp_waits p"
    using ex_update [OF i(1) that] by (simp add: mp_waits_def)
  moreover have "MC_Exit \<notin> set (mcons s)" using mon_inv_no_exit [OF inv i(1)] i(2) by (simp add: mp_finished_def)
  moreover have "\<forall>p \<in> set ?ps. mp_clean file p" using inv by (intro all_update) (simp_all add: mon_inv_def mp_clean_def)
  moreover have "used (msh s) \<le> total mc_ready (mcons s) + total mp_sig ?ps" if "\<exists>c \<in> set (mcons s). mc_idle c"
    using covered that u(2) by linarith
  ultimately show ?thesis using inv mon_inv_waiting(2) [OF inv] by (auto simp: mon_inv_def u)
qed

lemma mon_inv_sent_consumer:
  assumes inv: "mon_inv cl file cap L s" and i: "i < length (mcons s)" "mcons s ! i = MC_Signal x"
    and covered: "(\<exists>p \<in> set (mprods s). mp_waits p) \<longrightarrow> Suc (room (msh s)) \<le> total mp_ready (mprods s) + total mc_sig (mcons s)"
  shows "mon_inv cl file cap L (s\<lparr>mcons := (mcons s)[i := MC_Unlock x]\<rparr>)"
proof -
  let ?cs = "(mcons s)[i := MC_Unlock x]"
  have u: "total mc_holds ?cs = total mc_holds (mcons s)" "Suc (total mc_sig ?cs) = total mc_sig (mcons s)"
    "total mc_ready ?cs = total mc_ready (mcons s)" "total mc_freeing ?cs = total mc_freeing (mcons s)"
    using total_update [OF i(1), of mc_holds "MC_Unlock x"] total_update [OF i(1), of mc_sig "MC_Unlock x"]
      total_update [OF i(1), of mc_ready "MC_Unlock x"] total_update [OF i(1), of mc_freeing "MC_Unlock x"] i(2)
    by (simp_all add: mon_weights mc_freeing_def)
  have "add_mset x (total mc_held ?cs) = add_mset x (total mc_held (mcons s))"
    using total_update [OF i(1), of mc_held "MC_Unlock x"] i(2) by (simp add: mc_held_def)
  then have h: "total mc_held ?cs = total mc_held (mcons s)" by simp
  have "\<exists>c \<in> set (mcons s). mc_idle c" if "\<exists>c \<in> set ?cs. mc_idle c"
    using ex_update [OF i(1) that] by (simp add: mc_idle_def)
  moreover have "MC_Exit \<in> set (mcons s)" if "MC_Exit \<in> set ?cs"
    using ex_update [OF i(1), of "MC_Unlock x" "\<lambda>c. c = MC_Exit"] that by auto
  moreover have "room (msh s) \<le> total mp_ready (mprods s) + total mc_sig ?cs" if "\<exists>p \<in> set (mprods s). mp_waits p"
    using covered that u(2) by linarith
  ultimately show ?thesis using inv mon_inv_waiting(1) [OF inv] by (auto simp: mon_inv_def u h)
qed

lemma mon_inv_signal_consumer:
  assumes inv: "mon_inv cl file cap L s" and st: "signal_consumer i w s = Some t"
  shows "mon_inv cl file cap L t"
proof -
  have i: "i < length (mprods s)" "mp_pc (mprods s ! i) = MP_Signal" using st by (auto simp: signal_consumer_def split: if_splits)
  show ?thesis
  proof (cases w)
    case None
    then have n: "MC_Wait \<notin> set (mcons s)" and t: "t = s\<lparr>mprods := (mprods s)[i := (mprods s ! i)\<lparr>mp_pc := MP_Unlock\<rparr>]\<rparr>"
      using st i by (auto simp: signal_consumer_def Let_def split: if_splits)
    have "MC_Exit \<notin> set (mcons s)" using mon_inv_no_exit [OF inv i(1)] i(2) by (simp add: mp_finished_def)
    with n have "\<not> (\<exists>c \<in> set (mcons s). mc_idle c)" by (auto simp: mc_idle_def)
    then show ?thesis using mon_inv_sent_producer [OF inv i] t by blast
  next
    case (Some k)
    then have k: "k < length (mcons s)" "mcons s ! k = MC_Wait"
      and t: "t = s\<lparr>mprods := (mprods s)[i := (mprods s ! i)\<lparr>mp_pc := MP_Unlock\<rparr>], mcons := (mcons s)[k := MC_Woken]\<rparr>"
      using st i by (auto simp: signal_consumer_def Let_def split: if_splits)
    let ?s = "s\<lparr>mcons := (mcons s)[k := MC_Woken]\<rparr>"
    note w = mon_inv_wake_consumer [OF inv k]
    have "\<exists>c \<in> set (mcons s). mc_idle c" using k mc_wait_zero(16) by (metis nth_mem)
    then have "Suc (used (msh ?s)) \<le> total mc_ready (mcons ?s) + total mp_sig (mprods ?s)"
      using mon_inv_waiting(1) [OF inv] w by simp
    then have "mon_inv cl file cap L (?s\<lparr>mprods := (mprods ?s)[i := (mprods ?s ! i)\<lparr>mp_pc := MP_Unlock\<rparr>]\<rparr>)"
      using w i by (intro mon_inv_sent_producer) simp_all
    then show ?thesis by (simp add: t mon_update_commute)
  qed
qed

lemma mon_inv_signal_producer:
  assumes inv: "mon_inv cl file cap L s" and st: "signal_producer i w s = Some t"
  shows "mon_inv cl file cap L t"
proof -
  obtain x where i: "i < length (mcons s)" "mcons s ! i = MC_Signal x"
    using st by (auto simp: signal_producer_def mc_after_signal_def split: if_splits mc_pc.splits)
  show ?thesis
  proof (cases w)
    case None
    then have "\<not> (\<exists>p \<in> set (mprods s). mp_waits p)" and t: "t = s\<lparr>mcons := (mcons s)[i := MC_Unlock x]\<rparr>"
      using st i by (auto simp: signal_producer_def mc_after_signal_def Let_def split: if_splits)
    then show ?thesis using mon_inv_sent_consumer [OF inv i] by blast
  next
    case (Some k)
    then have k: "k < length (mprods s)" "mp_waits (mprods s ! k)"
      and t: "t = s\<lparr>mcons := (mcons s)[i := MC_Unlock x], mprods := (mprods s)[k := mp_wake (mprods s ! k)]\<rparr>"
      using st i by (auto simp: signal_producer_def mc_after_signal_def Let_def split: if_splits)
    let ?s = "s\<lparr>mprods := (mprods s)[k := mp_wake (mprods s ! k)]\<rparr>"
    note w = mon_inv_wake_producer [OF inv k]
    have "\<exists>p \<in> set (mprods s). mp_waits p" using k nth_mem by blast
    then have "Suc (room (msh ?s)) \<le> total mp_ready (mprods ?s) + total mc_sig (mcons ?s)"
      using mon_inv_waiting(2) [OF inv] w by simp
    then have "mon_inv cl file cap L (?s\<lparr>mcons := (mcons ?s)[i := MC_Unlock x]\<rparr>)"
      using w i by (intro mon_inv_sent_consumer) simp_all
    then show ?thesis by (simp add: t mon_update_commute)
  qed
qed

lemma mon_inv_act:
  assumes inv: "mon_inv cl file cap L s" and st: "mon_act cl file a s = Some t" and sl: "cl_sleep cl \<le> 0"
  shows "mon_inv cl file cap L t"
proof (cases a)
  case (M_Producer i)
  with st obtain sh p where "i < length (mprods s)" "mon_producer file (msh s) (mprods s ! i) = Some (sh, p)"
    "t = s\<lparr>msh := sh, mprods := (mprods s)[i := p]\<rparr>" by (auto simp: mon_act_def split: if_splits)
  then show ?thesis using mon_inv_producer [OF inv] by blast
next
  case (M_Consumer i)
  with st obtain sh c where "i < length (mcons s)" "mon_consumer cl (msh s) (mcons s ! i) = Some (sh, c)"
    "t = s\<lparr>msh := sh, mcons := (mcons s)[i := c]\<rparr>" by (auto simp: mon_act_def split: if_splits)
  then show ?thesis using mon_inv_consumer [OF inv] by blast
next
  case (M_Signal_Consumer i w)
  then show ?thesis using st mon_inv_signal_consumer [OF inv] by (simp add: mon_act_def)
next
  case (M_Signal_Producer i w)
  then show ?thesis using st mon_inv_signal_producer [OF inv] by (simp add: mon_act_def)
next
  case (M_Cancel i)
  then show ?thesis using st sl mon_inv_cancel [OF inv, of i] by (auto simp: mon_act_def split: if_splits)
next
  case (M_Spurious_Producer i)
  then show ?thesis using st mon_inv_wake_producer [OF inv, of i] by (auto simp: mon_act_def split: if_splits)
next
  case (M_Spurious_Consumer i)
  then show ?thesis using st mon_inv_wake_consumer [OF inv, of i] by (auto simp: mon_act_def split: if_splits)
qed

interpretation monitor: invariant_system "mon_step cl file" "\<lambda>s. cl_sleep cl \<le> 0 \<and> mon_inv cl file cap L s" for cl "file" cap L
proof
  fix s t
  assume "cl_sleep cl \<le> 0 \<and> mon_inv cl file cap L s" and "mon_step cl file s t"
  then show "cl_sleep cl \<le> 0 \<and> mon_inv cl file cap L t" unfolding mon_step_def using mon_inv_act by blast
qed

lemma mon_inv_init:
  assumes "rb_inv b" and "rb_contents b = []"
  shows "mon_inv cl file (rb_capacity b) (image_mset Some (expected_lines cl file)) (mon_init cl b)"
  using assms by (auto simp: mon_inv_def mon_init_def total_replicate_mset total_replicate mon_weights mc_idle_def mp_clean_def mc_freeing_def
      mc_held_def mp_todo_def expected_lines_def image_mset_repeat split: option.splits)


subsection \<open>Quiescent states\<close>

definition spurious :: "mon_event \<Rightarrow> bool" where
  "spurious a = (case a of M_Spurious_Producer _ \<Rightarrow> True | M_Spurious_Consumer _ \<Rightarrow> True | _ \<Rightarrow> False)"

lemma mon_producer_stuck:
  "mon_producer file sh p = None \<Longrightarrow> mp_pc p \<noteq> MP_Signal \<Longrightarrow> mp_holds p = 0 \<and> (\<not> locked sh \<longrightarrow> mp_finished p \<or> mp_waits p)"
  by (cases "mp_pc p") (auto simp: mon_producer_def mon_weights split: option.splits list.splits if_splits prod.splits)

lemma mon_consumer_stuck:
  "mon_consumer cl sh c = None \<Longrightarrow> (\<And>x. c \<noteq> MC_Signal x) \<Longrightarrow> NULL \<notin># mc_held c \<Longrightarrow>
    mc_holds c = 0 \<and> (\<not> locked sh \<longrightarrow> c = MC_Wait \<or> c = MC_Exit)"
  by (cases c) (auto simp: mon_consumer_def mon_weights mc_held_def split: option.splits if_splits prod.splits)

text \<open>A thread with a signal to send can send it.\<close>

lemma signal_consumer_enabled:
  assumes "i < length (mprods s)" and "mp_pc (mprods s ! i) = MP_Signal"
  shows "\<exists>w. signal_consumer i w s \<noteq> None"
proof (cases "MC_Wait \<in> set (mcons s)")
  case True
  then obtain k where "k < length (mcons s)" "mcons s ! k = MC_Wait" by (metis in_set_conv_nth)
  then show ?thesis using assms by (intro exI [of _ "Some k"]) (simp add: signal_consumer_def Let_def)
next
  case False
  then show ?thesis using assms by (intro exI [of _ None]) (simp add: signal_consumer_def Let_def)
qed

lemma signal_producer_enabled:
  assumes "i < length (mcons s)" and "mcons s ! i = MC_Signal x"
  shows "\<exists>w. signal_producer i w s \<noteq> None"
proof (cases "\<exists>p \<in> set (mprods s). mp_waits p")
  case True
  then obtain k where "k < length (mprods s)" "mp_waits (mprods s ! k)" by (metis in_set_conv_nth)
  then show ?thesis using assms by (intro exI [of _ "Some k"]) (simp add: signal_producer_def mc_after_signal_def Let_def)
next
  case False
  then show ?thesis using assms by (intro exI [of _ None]) (simp add: signal_producer_def mc_after_signal_def Let_def)
qed

lemma mon_quiescent:
  assumes inv: "mon_inv cl file cap L s" and cap: "0 < cap" and ne: "mcons s \<noteq> []" and nn: "NULL \<notin># L"
    and stuck: "\<And>a. \<not> spurious a \<Longrightarrow> mon_act cl file a s = None"
  shows "(\<forall>p \<in> set (mprods s). mp_finished p) \<and> (\<forall>c \<in> set (mcons s). c = MC_Exit) \<and> rb_contents (mbuf (msh s)) = []"
proof -
  have sp: "mp_pc (mprods s ! i) \<noteq> MP_Signal" "mon_producer file (msh s) (mprods s ! i) = None" if "i < length (mprods s)" for i
  proof -
    have "signal_consumer i w s = None" for w using stuck [of "M_Signal_Consumer i w"] by (simp add: mon_act_def spurious_def)
    then show "mp_pc (mprods s ! i) \<noteq> MP_Signal" using signal_consumer_enabled [OF that] by auto
    show "mon_producer file (msh s) (mprods s ! i) = None" using stuck [of "M_Producer i"] that by (simp add: mon_act_def spurious_def)
  qed
  have sc: "mcons s ! i \<noteq> MC_Signal x" "mon_consumer cl (msh s) (mcons s ! i) = None" if "i < length (mcons s)" for i x
  proof -
    have "signal_producer i w s = None" for w using stuck [of "M_Signal_Producer i w"] by (simp add: mon_act_def spurious_def)
    then show "mcons s ! i \<noteq> MC_Signal x" using signal_producer_enabled [OF that] by auto
    show "mon_consumer cl (msh s) (mcons s ! i) = None" using stuck [of "M_Consumer i"] that by (simp add: mon_act_def spurious_def)
  qed
  have held: "NULL \<notin># mc_held c" if "c \<in> set (mcons s)" for c
    using total_member [OF that, of NULL mc_held] inv nn by (auto simp: mon_inv_def)
  have p0: "mp_holds p = 0 \<and> (\<not> locked (msh s) \<longrightarrow> mp_finished p \<or> mp_waits p)" if p: "p \<in> set (mprods s)" for p
  proof -
    obtain i where "i < length (mprods s)" "p = mprods s ! i" using p by (auto simp: in_set_conv_nth)
    then show ?thesis using sp [of i] mon_producer_stuck [of "file" "msh s" p] by simp
  qed
  have c0: "mc_holds c = 0 \<and> (\<not> locked (msh s) \<longrightarrow> c = MC_Wait \<or> c = MC_Exit)" if c: "c \<in> set (mcons s)" for c
  proof -
    obtain i where "i < length (mcons s)" "c = mcons s ! i" using c by (auto simp: in_set_conv_nth)
    then show ?thesis using sc [of i] mon_consumer_stuck [of cl "msh s" c] held [OF c] by simp
  qed
  have unl: "\<not> locked (msh s)" using inv p0 c0 by (auto simp: mon_inv_def)
  have p1: "mp_finished p \<or> mp_waits p" if "p \<in> set (mprods s)" for p using p0 [OF that] unl by blast
  have c1: "c = MC_Wait \<or> c = MC_Exit" if "c \<in> set (mcons s)" for c using c0 [OF that] unl by blast
  have z: "total mp_sig (mprods s) = 0" "total mp_ready (mprods s) = 0" "total mc_sig (mcons s) = 0" "total mc_ready (mcons s) = 0"
  proof -
    have "mp_sig p = 0 \<and> mp_ready p = 0" if "p \<in> set (mprods s)" for p
      using p1 [OF that] by (cases "mp_pc p") (simp_all add: mon_weights)
    then show "total mp_sig (mprods s) = 0" "total mp_ready (mprods s) = 0" by (auto intro!: total_const_0)
    have "mc_sig c = 0 \<and> mc_ready c = 0" if "c \<in> set (mcons s)" for c using c1 [OF that] by (auto simp: mon_weights)
    then show "total mc_sig (mcons s) = 0" "total mc_ready (mcons s) = 0" by (auto intro!: total_const_0)
  qed
  have "\<exists>c \<in> set (mcons s). mc_idle c" using ne c1 by (cases "mcons s") (auto simp: mc_idle_def)
  then have e: "rb_contents (mbuf (msh s)) = []" using mon_inv_waiting(1) [OF inv] z by simp
  have fin: "\<forall>p \<in> set (mprods s). mp_finished p"
  proof (rule ccontr)
    assume "\<not> (\<forall>p \<in> set (mprods s). mp_finished p)"
    then have "\<exists>p \<in> set (mprods s). mp_waits p" using p1 by blast
    then have "room (msh s) = 0" using mon_inv_waiting(2) [OF inv] z by simp
    then show False using e cap inv by (simp add: mon_inv_def)
  qed
  have "c = MC_Exit" if c: "c \<in> set (mcons s)" for c
  proof -
    obtain i where "i < length (mcons s)" "c = mcons s ! i" using c by (auto simp: in_set_conv_nth)
    then show ?thesis using stuck [of "M_Cancel i"] c1 [OF c] fin unl by (auto simp: mon_act_def spurious_def)
  qed
  then show ?thesis using fin e by blast
qed

lemma mp_clean_todo: "mp_clean file p \<Longrightarrow> mp_finished p \<Longrightarrow> mp_todo file p = {#}"
  by (cases "mp_pc p") (auto simp: mp_clean_def mp_finished_def mp_todo_def)

lemma mon_printed:
  assumes inv: "mon_inv cl file cap (image_mset Some E) s" and fin: "\<forall>p \<in> set (mprods s). mp_finished p"
    and ex: "\<forall>c \<in> set (mcons s). c = MC_Exit" and e: "rb_contents (mbuf (msh s)) = []"
  shows "mset (mprinted (msh s)) = filter_mset (cl_shouldprint cl) E"
proof -
  have "total (mp_todo file) (mprods s) = {#}" using inv fin mp_clean_todo by (intro total_const_0) (auto simp: mon_inv_def)
  moreover have "total mc_held (mcons s) = {#}" "total mc_freeing (mcons s) = {#}"
    using ex by (auto intro!: total_const_0 simp: mc_held_def mc_freeing_def)
  ultimately have "mset (mfreed (msh s)) = image_mset Some E"
    and "mset (mprinted (msh s)) = passing cl (mset (mfreed (msh s)))" using inv e by (auto simp: mon_inv_def)
  then show ?thesis by (simp add: passing_def multiset.map_comp comp_def)
qed


lemma mon_act_consumers: "mon_act cl file a s = Some t \<Longrightarrow> length (mcons t) = length (mcons s)"
  by (cases a) (auto simp: mon_act_def signal_consumer_def signal_producer_def Let_def split: if_splits option.splits)

lemma mon_reachable_consumers: "(mon_step cl file)\<^sup>*\<^sup>* s t \<Longrightarrow> length (mcons t) = length (mcons s)"
proof (induction rule: rtranclp_induct)
  case (step t u)
  then show ?case using mon_act_consumers [of cl "file" _ t u] by (auto simp: mon_step_def)
qed simp

fun mon_run :: "cl \<Rightarrow> string list ptr \<Rightarrow> mon_event list \<Rightarrow> mon_sys \<Rightarrow> mon_sys option" where
  "mon_run cl file [] s = Some s"
| "mon_run cl file (a # as) s = (case mon_act cl file a s of None \<Rightarrow> None | Some t \<Rightarrow> mon_run cl file as t)"

lemma mon_run_reachable: "mon_run cl file as s = Some t \<Longrightarrow> (mon_step cl file)\<^sup>*\<^sup>* s t"
proof (induction as arbitrary: s)
  case (Cons a as)
  then obtain r where "mon_act cl file a s = Some r" "mon_run cl file as r = Some t" by (auto split: option.splits)
  then show ?case using Cons.IH [of r] by (meson converse_rtranclp_into_rtranclp mon_step_def)
qed simp

subsection \<open>Properties\<close>


definition mon_demo :: mon_sys where
  "mon_demo = \<lparr>msh = \<lparr>locked = False, mbuf = demo_buf\<lparr>buffer := [Some ''ab'']\<rparr>, mprinted = [''ab''], mfreed = [Some ''ab'']\<rparr>,
     mprods = [\<lparr>mp_pc = MP_Exit, mp_file = []\<rparr>], mcons = [MC_Exit]\<rparr>"

lemma mon_demo_run:
  "mon_run demo_cl demo_file
     [M_Producer 0, M_Producer 0, M_Producer 0, M_Producer 0, M_Signal_Consumer 0 None, M_Producer 0, M_Producer 0,
      M_Consumer 0, M_Consumer 0, M_Consumer 0, M_Signal_Producer 0 None, M_Consumer 0, M_Consumer 0, M_Consumer 0,
      M_Consumer 0, M_Consumer 0, M_Cancel 0] (mon_init demo_cl demo_buf) = Some mon_demo"
  by (simp add: mon_init_def mon_demo_def demo_simps mon_act_def mon_producer_def mon_consumer_def signal_consumer_def signal_producer_def
      mc_after_signal_def mp_waits_def mp_finished_def demo_line handler_defs cl_shouldprint_def Let_def smod_mod_positive)


end
