(* ===== verification/Monitor_Limit.thy ===== *)
theory Monitor_Limit
  imports Monitor
begin

text \<open>
  The monitor version with a time limit (\<open>cw09/zad1/src/main-monitor.c\<close> under \<open>runner.c\<close>): the driver
  sleeps, asks all producers and consumers to end and joins them.  A request takes effect at the
  next call of the thread that is a cancellation point.  The messages of \<open>logger.c\<close> are such calls
  when they are written, and a producer writes two of them while it holds the mutex without a
  cleanup handler.
\<close>

subsection \<open>logger.c\<close>

datatype stream = Stdout | Stderr

definition log_info :: "cl \<Rightarrow> string \<Rightarrow> (stream \<times> string) list" where
  "log_info cl data = (if cl_verbose cl = 0 then [] else [(Stderr, data @ [NL])])"

definition log_consumer :: "cl \<Rightarrow> int \<Rightarrow> string \<Rightarrow> (stream \<times> string) list" where
  "log_consumer cl i data =
     (if cl_verbose cl = 0 then [] else [(Stdout, ''[C '' @ print_d i @ ''] '' @ data @ [NL])])"

definition log_producer :: "cl \<Rightarrow> int \<Rightarrow> string \<Rightarrow> (stream \<times> string) list" where
  "log_producer cl i data =
     (if cl_verbose cl = 0 then [] else [(Stdout, ''[P '' @ print_d i @ ''] '' @ data @ [NL])])"

subsection \<open>Requests to end\<close>

text \<open>
  A producer with a request ends in \<open>fopen\<close> or the calls before it, in \<open>getline\<close>, or, \<open>late\<close>, in
  \<open>pthread_testcancel\<close> with the line read; in \<open>pthread_cond_wait\<close>, whose cleanup handler takes and
  releases the mutex; or in one of the two messages it writes under the mutex, which then stays
  locked.
\<close>

definition mon_cancel_producer :: "cl \<Rightarrow> int \<Rightarrow> bool \<Rightarrow> mon_shared \<Rightarrow> mproducer \<Rightarrow> mproducer option" where
  "mon_cancel_producer cl i late sh p =
     (case mp_pc p of
        MP_Start \<Rightarrow> Some (p\<lparr>mp_pc := MP_Unopened\<rparr>)
      | MP_Read \<Rightarrow>
          if \<not> late then Some (p\<lparr>mp_pc := MP_Exit\<rparr>)
          else (case mp_file p of
              [] \<Rightarrow> None
            | l # ls \<Rightarrow>
                (case fst (strtok [NL] (cstr l)) of
                   NULL \<Rightarrow> None
                 | Some line \<Rightarrow> Some (p\<lparr>mp_pc := MP_Exit, mp_file := ls\<rparr>)))
      | MP_Push line \<Rightarrow>
          if buffer_full (mbuf sh) \<and> log_producer cl i ''Buffer is full, waiting...'' \<noteq> []
          then Some (p\<lparr>mp_pc := MP_Exit\<rparr>) else None
      | MP_Wait line \<Rightarrow> if locked sh then None else Some (p\<lparr>mp_pc := MP_Exit\<rparr>)
      | MP_Signal \<Rightarrow> if log_producer cl i ''Pushed'' \<noteq> [] then Some (p\<lparr>mp_pc := MP_Exit\<rparr>) else None
      | _ \<Rightarrow> None)"

text \<open>A consumer ends before it disables cancellation, in \<open>usleep\<close> or a message, or in \<open>pthread_cond_wait\<close>.\<close>

definition mon_cancel_consumer :: "cl \<Rightarrow> int \<Rightarrow> mon_shared \<Rightarrow> mc_pc \<Rightarrow> mc_pc option" where
  "mon_cancel_consumer cl i sh c =
     (case c of
        MC_Start \<Rightarrow> if 0 < cl_sleep cl \<or> log_consumer cl i ''Initializing'' \<noteq> [] then Some MC_Exit else None
      | MC_Wait \<Rightarrow> if locked sh then None else Some MC_Exit
      | _ \<Rightarrow> None)"

subsection \<open>The program\<close>

record mon_lim =
  threads :: mon_sys
  p_asked :: "bool list"
  c_asked :: "bool list"
  driver :: main_pc

text \<open>The part of \<open>run\<close> after the threads have been created, when there is a time limit.\<close>

definition lim_driver :: "mon_lim \<Rightarrow> mon_lim option" where
  "lim_driver s =
     (let ps = mprods (threads s); cs = mcons (threads s) in
      case driver s of
        M_Sleep \<Rightarrow> Some (s\<lparr>driver := M_Cancel_Producers 0\<rparr>)
      | M_Cancel_Producers i \<Rightarrow>
          if i < length ps then Some (s\<lparr>p_asked := (p_asked s)[i := True], driver := M_Cancel_Producers (Suc i)\<rparr>)
          else Some (s\<lparr>driver := M_Cancel_Consumers 0\<rparr>)
      | M_Cancel_Consumers i \<Rightarrow>
          if i < length cs then Some (s\<lparr>c_asked := (c_asked s)[i := True], driver := M_Cancel_Consumers (Suc i)\<rparr>)
          else Some (s\<lparr>driver := M_Join_Producers 0\<rparr>)
      | M_Join_Producers i \<Rightarrow>
          if i < length ps then (if mp_finished (ps ! i) then Some (s\<lparr>driver := M_Join_Producers (Suc i)\<rparr>) else None)
          else Some (s\<lparr>driver := M_Join_Consumers 0\<rparr>)
      | M_Join_Consumers i \<Rightarrow>
          if i < length cs then (if cs ! i = MC_Exit then Some (s\<lparr>driver := M_Join_Consumers (Suc i)\<rparr>) else None)
          else Some (s\<lparr>driver := M_Done\<rparr>)
      | M_Done \<Rightarrow> None)"

text \<open>
  The events of the threads are those of \<open>Monitor\<close>, without its cancellations.  A producer that has
  been asked does not get past \<open>pthread_testcancel\<close>; one that is asked while it waits may still be
  woken first.
\<close>

datatype lim_event = L_Thread mon_event | L_End_Producer nat bool | L_End_Consumer nat | L_Driver

definition lim_thread :: "cl \<Rightarrow> string list ptr \<Rightarrow> mon_event \<Rightarrow> mon_lim \<Rightarrow> mon_sys option" where
  "lim_thread cl file e s =
     (let m = threads s in
      case e of
        M_Cancel i \<Rightarrow> None
      | M_Producer i \<Rightarrow>
          if i < length (mprods m) \<and> p_asked s ! i \<and> mp_pc (mprods m ! i) = MP_Read \<and>
            mon_cancel_producer cl (int i) True (msh m) (mprods m ! i) \<noteq> None
          then None else mon_act cl file e m
      | _ \<Rightarrow> mon_act cl file e m)"

definition lim_act :: "cl \<Rightarrow> string list ptr \<Rightarrow> lim_event \<Rightarrow> mon_lim \<Rightarrow> mon_lim option" where
  "lim_act cl file a s =
     (let m = threads s in
      case a of
        L_Thread e \<Rightarrow> map_option (\<lambda>m'. s\<lparr>threads := m'\<rparr>) (lim_thread cl file e s)
      | L_End_Producer i late \<Rightarrow>
          if i < length (mprods m) \<and> p_asked s ! i
          then map_option (\<lambda>p. s\<lparr>threads := m\<lparr>mprods := (mprods m)[i := p]\<rparr>\<rparr>)
                 (mon_cancel_producer cl (int i) late (msh m) (mprods m ! i))
          else None
      | L_End_Consumer i \<Rightarrow>
          if i < length (mcons m) \<and> c_asked s ! i
          then map_option (\<lambda>c. s\<lparr>threads := m\<lparr>mcons := (mcons m)[i := c]\<rparr>\<rparr>)
                 (mon_cancel_consumer cl (int i) (msh m) (mcons m ! i))
          else None
      | L_Driver \<Rightarrow> lim_driver s)"

definition lim_step :: "cl \<Rightarrow> string list ptr \<Rightarrow> mon_lim \<Rightarrow> mon_lim \<Rightarrow> bool" where
  "lim_step cl file s t = (\<exists>a. lim_act cl file a s = Some t)"

definition lim_init :: "cl \<Rightarrow> string ring_buffer \<Rightarrow> mon_lim" where
  "lim_init cl b =
     \<lparr>threads = mon_init cl b, p_asked = replicate (nat (cl_producers cl)) False,
      c_asked = replicate (nat (cl_consumers cl)) False, driver = M_Sleep\<rparr>"

fun lim_run :: "cl \<Rightarrow> string list ptr \<Rightarrow> lim_event list \<Rightarrow> mon_lim \<Rightarrow> mon_lim option" where
  "lim_run cl file [] s = Some s"
| "lim_run cl file (a # as) s = (case lim_act cl file a s of None \<Rightarrow> None | Some t \<Rightarrow> lim_run cl file as t)"

lemma lim_run_reachable: "lim_run cl file as s = Some t \<Longrightarrow> (lim_step cl file)\<^sup>*\<^sup>* s t"
proof (induction as arbitrary: s)
  case (Cons a as)
  then obtain r where "lim_act cl file a s = Some r" "lim_run cl file as r = Some t" by (auto split: option.splits)
  then show ?case using Cons.IH [of r] by (meson converse_rtranclp_into_rtranclp lim_step_def)
qed simp

subsection \<open>Invariant\<close>

text \<open>
  At most one thread holds the mutex; without messages exactly one does when it is locked.  No line
  is in two places, and what is printed has been freed or is about to be.
\<close>

definition lim_data :: "cl \<Rightarrow> string list ptr \<Rightarrow> string ptr multiset \<Rightarrow> mon_sys \<Rightarrow> bool" where
  "lim_data cl file L m \<longleftrightarrow>
     rb_inv (mbuf (msh m)) \<and>
     of_bool (\<not> locked (msh m)) + total mp_holds (mprods m) + total mc_holds (mcons m) \<le> (1::nat) \<and>
     (cl_verbose cl = 0 \<longrightarrow> of_bool (\<not> locked (msh m)) + total mp_holds (mprods m) + total mc_holds (mcons m) = (1::nat)) \<and>
     mset (mprinted (msh m)) = passing cl (mset (mfreed (msh m)) + total mc_freeing (mcons m)) \<and>
     total (mp_todo file) (mprods m) + mset (rb_contents (mbuf (msh m))) + total mc_held (mcons m) + mset (mfreed (msh m)) \<subseteq># L"

lemma lim_data_exclusive:
  assumes "lim_data cl file L m"
  shows "i < length (mprods m) \<Longrightarrow> mp_holds (mprods m ! i) = 1 \<longrightarrow> locked (msh m)"
    and "i < length (mcons m) \<Longrightarrow> mc_holds (mcons m ! i) = 1 \<longrightarrow> locked (msh m)"
  using assms total_ge [of i "mprods m" mp_holds] total_ge [of i "mcons m" mc_holds]
  by (auto simp: lim_data_def of_bool_def split: if_splits)

lemma lim_data_producer:
  assumes inv: "lim_data cl file L m" and i: "i < length (mprods m)"
    and st: "mon_producer file (msh m) (mprods m ! i) = Some (sh, p)"
  shows "lim_data cl file L (m\<lparr>msh := sh, mprods := (mprods m)[i := p]\<rparr>)"
proof -
  let ?q = "mprods m ! i" and ?ps = "(mprods m)[i := p]"
  have b: "rb_inv (mbuf (msh m))" using inv by (simp add: lim_data_def)
  note loc = mon_producer_local(1,2) [OF st b lim_data_exclusive(1) [OF inv i]]
  have "of_bool (\<not> locked sh) + total mp_holds ?ps = (of_bool (\<not> locked (msh m)) + total mp_holds (mprods m) :: nat)"
    using total_update [OF i, of mp_holds p] loc(1) by linarith
  moreover have "total (mp_todo file) ?ps + mset (rb_contents (mbuf sh)) = total (mp_todo file) (mprods m) + mset (rb_contents (mbuf (msh m)))"
  proof -
    have "total (mp_todo file) ?ps + mset (rb_contents (mbuf sh)) + mp_todo file ?q =
        total (mp_todo file) (mprods m) + (mp_todo file p + mset (rb_contents (mbuf sh)))"
      using total_update [OF i, of "mp_todo file" p] by (simp add: ac_simps)
    also have "\<dots> = total (mp_todo file) (mprods m) + mset (rb_contents (mbuf (msh m))) + mp_todo file ?q"
      using loc(2) by (simp add: ac_simps)
    finally show ?thesis by simp
  qed
  ultimately show ?thesis using inv loc by (simp add: lim_data_def)
qed

lemma lim_data_consumer:
  assumes inv: "lim_data cl file L m" and i: "i < length (mcons m)"
    and st: "mon_consumer cl (msh m) (mcons m ! i) = Some (sh, c)"
  shows "lim_data cl file L (m\<lparr>msh := sh, mcons := (mcons m)[i := c]\<rparr>)"
proof -
  let ?q = "mcons m ! i" and ?cs = "(mcons m)[i := c]"
  have b: "rb_inv (mbuf (msh m))" using inv by (simp add: lim_data_def)
  note loc = mon_consumer_local(1,2) [OF st b lim_data_exclusive(2) [OF inv i]]
  have h: "of_bool (\<not> locked sh) + total mc_holds ?cs = (of_bool (\<not> locked (msh m)) + total mc_holds (mcons m) :: nat)"
    using total_update [OF i, of mc_holds c] loc(1) by linarith
  have "mset (rb_contents (mbuf sh)) + total mc_held ?cs + mset (mfreed sh) + mc_held ?q =
      total mc_held (mcons m) + (mc_held c + mset (rb_contents (mbuf sh)) + mset (mfreed sh))"
    using total_update [OF i, of mc_held c] by (simp add: ac_simps)
  also have "\<dots> = mset (rb_contents (mbuf (msh m))) + total mc_held (mcons m) + mset (mfreed (msh m)) + mc_held ?q"
    using loc(2) by (simp add: ac_simps)
  finally have c: "mset (rb_contents (mbuf sh)) + total mc_held ?cs + mset (mfreed sh) =
      mset (rb_contents (mbuf (msh m))) + total mc_held (mcons m) + mset (mfreed (msh m))" by simp
  have t: "passing cl (total mc_freeing ?cs) + passing cl (mc_freeing ?q) = passing cl (total mc_freeing (mcons m)) + passing cl (mc_freeing c)"
    using arg_cong [OF total_update [OF i, of mc_freeing c], of "passing cl"] by simp
  have "mset (mprinted sh) + passing cl (mset (mfreed (msh m)) + mc_freeing ?q) =
      passing cl (mset (mfreed (msh m))) + passing cl (mset (mfreed sh)) + (passing cl (total mc_freeing (mcons m)) + passing cl (mc_freeing c))"
    using loc(2) inv by (simp add: lim_data_def ac_simps)
  also have "\<dots> = passing cl (mset (mfreed sh) + total mc_freeing ?cs) + passing cl (mset (mfreed (msh m)) + mc_freeing ?q)"
    unfolding t [symmetric] by (simp add: ac_simps)
  finally have "mset (mprinted sh) = passing cl (mset (mfreed sh) + total mc_freeing ?cs)" by (simp only: add_right_cancel)
  moreover have "of_bool (\<not> locked sh) + total mp_holds (mprods m) + total mc_holds ?cs \<le> (1::nat)"
    using inv h unfolding lim_data_def by linarith
  moreover have "of_bool (\<not> locked sh) + total mp_holds (mprods m) + total mc_holds ?cs = (1::nat)" if "cl_verbose cl = 0"
    using inv h that unfolding lim_data_def by linarith
  moreover have "total (mp_todo file) (mprods m) + mset (rb_contents (mbuf sh)) + total mc_held ?cs + mset (mfreed sh) \<subseteq># L"
  proof -
    have "total (mp_todo file) (mprods m) + (mset (rb_contents (mbuf sh)) + total mc_held ?cs + mset (mfreed sh)) \<subseteq># L"
      unfolding c using inv by (simp add: lim_data_def add.assoc)
    then show ?thesis by (simp add: add.assoc)
  qed
  ultimately show ?thesis using inv loc(1) by (simp add: lim_data_def)
qed

text \<open>Signals and wake-ups only move threads; a thread that ends gives up what it holds.\<close>

lemma mp_wake_same:
  "mp_waits p \<Longrightarrow> mp_holds (mp_wake p) = mp_holds p \<and> mp_todo file (mp_wake p) = mp_todo file p"
  using mp_wake_simps(1,4) by blast

lemma mon_act_moves:
  assumes "mon_act cl file a m = Some t" and "\<And>i. a \<noteq> M_Producer i" and "\<And>i. a \<noteq> M_Consumer i" and "\<And>i. a \<noteq> M_Cancel i"
  shows "msh t = msh m \<and> total mp_holds (mprods t) = total mp_holds (mprods m) \<and>
    total (mp_todo file) (mprods t) = total (mp_todo file) (mprods m) \<and> total mc_holds (mcons t) = total mc_holds (mcons m) \<and>
    total mc_held (mcons t) = total mc_held (mcons m) \<and> total mc_freeing (mcons t) = total mc_freeing (mcons m)"
proof -
  have sig: "mp_holds (p\<lparr>mp_pc := MP_Unlock\<rparr>) = mp_holds p" "mp_todo file (p\<lparr>mp_pc := MP_Unlock\<rparr>) = mp_todo file p"
    if "mp_pc p = MP_Signal" for p using that by (simp_all add: mp_holds_def mp_todo_def)
  have csig: "mc_holds c' = mc_holds c" "mc_held c' = mc_held c" "mc_freeing c' = mc_freeing c"
    if "mc_after_signal c = Some c'" for c c'
    using that by (auto simp: mc_after_signal_def mc_holds_def mc_held_def mc_freeing_def split: mc_pc.splits)
  show ?thesis
    using assms by (cases a) (auto simp: mon_act_def signal_consumer_def signal_producer_def Let_def total_same mp_wake_same
        mc_wait_zero sig csig split: if_splits option.splits)
qed

lemma lim_data_moves:
  assumes "lim_data cl file L m" and "mon_act cl file a m = Some t" and "\<And>i. a \<noteq> M_Producer i" and "\<And>i. a \<noteq> M_Consumer i" and "\<And>i. a \<noteq> M_Cancel i"
  shows "lim_data cl file L t"
  using assms(1) mon_act_moves [OF assms(2-5)] by (simp add: lim_data_def)

lemma log_quiet [simp]: "log_producer cl i x = [] \<longleftrightarrow> cl_verbose cl = 0" "log_consumer cl i x = [] \<longleftrightarrow> cl_verbose cl = 0"
  by (simp_all add: log_producer_def log_consumer_def)

lemma mon_cancel_producer_local:
  assumes "mon_cancel_producer cl i late sh p = Some p'"
  shows "mp_holds p' \<le> mp_holds p \<and> (cl_verbose cl = 0 \<longrightarrow> mp_holds p' = mp_holds p) \<and> mp_todo file p' \<subseteq># mp_todo file p \<and>
    mp_finished p' \<and> \<not> mp_finished p"
  using assms by (cases "mp_pc p") (auto simp: mon_cancel_producer_def mon_weights mp_todo_def split: if_splits list.splits option.splits)

lemma mon_cancel_consumer_local:
  assumes "mon_cancel_consumer cl i sh c = Some c'"
  shows "c' = MC_Exit \<and> mc_holds c = 0 \<and> mc_held c = {#} \<and> mc_freeing c = {#} \<and> (c = MC_Start \<or> c = MC_Wait)"
  using assms by (cases c) (auto simp: mon_cancel_consumer_def mc_holds_def mc_held_def mc_freeing_def split: if_splits)

lemma total_update_subset:
  assumes "i < length xs" and "f v \<subseteq># f (xs ! i)"
  shows "total f (xs[i := v]) \<subseteq># total f xs"
proof -
  obtain d where "f (xs ! i) = f v + d" using assms(2) by (auto simp: subset_mset.le_iff_add)
  then have "total f (xs[i := v]) + d + f v = total f xs + f v" using total_update [OF assms(1), of f v] by (simp add: ac_simps)
  then have "total f xs = total f (xs[i := v]) + d" by simp
  then show ?thesis by simp
qed

lemma lim_data_end_producer:
  assumes inv: "lim_data cl file L m" and i: "i < length (mprods m)"
    and st: "mon_cancel_producer cl k late (msh m) (mprods m ! i) = Some p"
  shows "lim_data cl file L (m\<lparr>mprods := (mprods m)[i := p]\<rparr>)"
proof -
  let ?ps = "(mprods m)[i := p]"
  note loc = mon_cancel_producer_local [OF st, of "file"]
  have h: "total mp_holds ?ps \<le> total mp_holds (mprods m)" "cl_verbose cl = 0 \<Longrightarrow> total mp_holds ?ps = total mp_holds (mprods m)"
    using total_update [OF i, of mp_holds p] loc by simp_all
  have "of_bool (\<not> locked (msh m)) + total mp_holds ?ps + total mc_holds (mcons m) \<le> (1::nat)"
    using h(1) inv unfolding lim_data_def by linarith
  moreover have "of_bool (\<not> locked (msh m)) + total mp_holds ?ps + total mc_holds (mcons m) = (1::nat)" if "cl_verbose cl = 0"
    using h(2) [OF that] inv that unfolding lim_data_def by linarith
  moreover have "total (mp_todo file) ?ps + mset (rb_contents (mbuf (msh m))) + total mc_held (mcons m) + mset (mfreed (msh m)) \<subseteq># L"
  proof -
    have "total (mp_todo file) ?ps \<subseteq># total (mp_todo file) (mprods m)" using loc by (intro total_update_subset [OF i]) blast
    then have "total (mp_todo file) ?ps + mset (rb_contents (mbuf (msh m))) + total mc_held (mcons m) + mset (mfreed (msh m)) \<subseteq>#
        total (mp_todo file) (mprods m) + mset (rb_contents (mbuf (msh m))) + total mc_held (mcons m) + mset (mfreed (msh m))"
      by (intro subset_mset.add_right_mono)
    also have "\<dots> \<subseteq># L" using inv by (simp add: lim_data_def)
    finally show ?thesis .
  qed
  ultimately show ?thesis using inv by (simp add: lim_data_def)
qed

lemma lim_data_end_consumer:
  assumes inv: "lim_data cl file L m" and i: "i < length (mcons m)"
    and st: "mon_cancel_consumer cl k (msh m) (mcons m ! i) = Some c"
  shows "lim_data cl file L (m\<lparr>mcons := (mcons m)[i := c]\<rparr>)"
proof -
  note loc = mon_cancel_consumer_local [OF st]
  have "total mc_holds ((mcons m)[i := c]) = total mc_holds (mcons m)" "total mc_held ((mcons m)[i := c]) = total mc_held (mcons m)"
    "total mc_freeing ((mcons m)[i := c]) = total mc_freeing (mcons m)" using loc i by (simp_all add: total_same mc_wait_zero)
  then show ?thesis using inv by (simp add: lim_data_def)
qed

subsection \<open>Progress of the driver\<close>

text \<open>What the driver has done: the first threads have been asked, the first have ended.\<close>

definition first :: "nat \<Rightarrow> ('a \<Rightarrow> bool) \<Rightarrow> 'a list \<Rightarrow> bool" where
  "first k P xs = (\<forall>i < k. i < length xs \<longrightarrow> P (xs ! i))"

lemma first_0 [simp]: "first 0 P xs"
  by (simp add: first_def)

lemma first_Suc: "first k P xs \<Longrightarrow> P (xs ! k) \<Longrightarrow> first (Suc k) P xs"
  by (auto simp: first_def less_Suc_eq)

lemma first_all: "first k P xs \<Longrightarrow> \<not> k < length xs \<Longrightarrow> x \<in> set xs \<Longrightarrow> P x"
  by (auto simp: first_def in_set_conv_nth)

definition lim_asked :: "mon_lim \<Rightarrow> bool" where
  "lim_asked s \<longleftrightarrow>
     length (p_asked s) = length (mprods (threads s)) \<and> length (c_asked s) = length (mcons (threads s)) \<and>
     (case driver s of
        M_Sleep \<Rightarrow> True
      | M_Cancel_Producers k \<Rightarrow> first k id (p_asked s)
      | M_Cancel_Consumers k \<Rightarrow> (\<forall>b \<in> set (p_asked s). b) \<and> first k id (c_asked s)
      | M_Join_Producers k \<Rightarrow> (\<forall>b \<in> set (p_asked s). b) \<and> (\<forall>b \<in> set (c_asked s). b) \<and> first k mp_finished (mprods (threads s))
      | M_Join_Consumers k \<Rightarrow> (\<forall>b \<in> set (p_asked s). b) \<and> (\<forall>b \<in> set (c_asked s). b) \<and>
          (\<forall>p \<in> set (mprods (threads s)). mp_finished p) \<and> first k (\<lambda>c. c = MC_Exit) (mcons (threads s))
      | M_Done \<Rightarrow> (\<forall>p \<in> set (mprods (threads s)). mp_finished p) \<and> (\<forall>c \<in> set (mcons (threads s)). c = MC_Exit))"

definition mon_keeps :: "mon_sys \<Rightarrow> mon_sys \<Rightarrow> bool" where
  "mon_keeps m t \<longleftrightarrow> length (mprods t) = length (mprods m) \<and> length (mcons t) = length (mcons m) \<and>
     (\<forall>i < length (mprods m). mp_finished (mprods m ! i) \<longrightarrow> mp_finished (mprods t ! i)) \<and>
     (\<forall>i < length (mcons m). mcons m ! i = MC_Exit \<longrightarrow> mcons t ! i = MC_Exit)"

lemma lim_asked_keeps: "lim_asked s \<Longrightarrow> mon_keeps (threads s) m \<Longrightarrow> lim_asked (s\<lparr>threads := m\<rparr>)"
  by (auto simp: lim_asked_def mon_keeps_def first_def all_set_conv_all_nth split: main_pc.splits)

lemma mon_act_keeps: "mon_act cl file a m = Some t \<Longrightarrow> mon_keeps m t"
proof -
  assume st: "mon_act cl file a m = Some t"
  have p: "\<not> mp_finished p" if "mon_producer file sh p = Some r" for sh p r
    using that by (cases "mp_pc p") (auto simp: mon_producer_def mon_weights)
  have c: "c \<noteq> MC_Exit" if "mon_consumer cl sh c = Some r" for sh c r using that by (auto simp: mon_consumer_def)
  have s: "c \<noteq> MC_Exit" if "mc_after_signal c = Some r" for c r using that by (auto simp: mc_after_signal_def)
  have w: "\<not> mp_finished p" if "mp_waits p" for p using that by (auto simp: mon_weights split: mp_pc.splits)
  show ?thesis
    using st by (cases a) (auto simp: mon_act_def mon_keeps_def signal_consumer_def signal_producer_def Let_def nth_list_update mp_finished_def
        split: if_splits option.splits dest: p c s w [unfolded mp_finished_def])
qed

lemma lim_driver_asked:
  assumes inv: "lim_asked s" and st: "lim_driver s = Some t"
  shows "lim_asked t \<and> threads t = threads s"
proof (cases "driver s")
  case (M_Cancel_Producers k)
  then have f: "first k id (p_asked s)" and l: "length (p_asked s) = length (mprods (threads s))" using inv by (simp_all add: lim_asked_def)
  show ?thesis
  proof (cases "k < length (p_asked s)")
    case True
    have "first (Suc k) id ((p_asked s)[k := True])" using f by (auto simp: first_def less_Suc_eq nth_list_update)
    then show ?thesis using True l M_Cancel_Producers inv st by (auto simp: lim_driver_def lim_asked_def Let_def)
  next
    case False
    then have "\<forall>b \<in> set (p_asked s). b" using first_all [OF f] by auto
    then show ?thesis using False l M_Cancel_Producers inv st [symmetric] by (simp add: lim_driver_def lim_asked_def Let_def)
  qed
next
  case (M_Cancel_Consumers k)
  then have f: "first k id (c_asked s)" and l: "length (c_asked s) = length (mcons (threads s))" using inv by (simp_all add: lim_asked_def)
  show ?thesis
  proof (cases "k < length (c_asked s)")
    case True
    have "first (Suc k) id ((c_asked s)[k := True])" using f by (auto simp: first_def less_Suc_eq nth_list_update)
    then show ?thesis using True l M_Cancel_Consumers inv st by (auto simp: lim_driver_def lim_asked_def Let_def)
  next
    case False
    then have "\<forall>b \<in> set (c_asked s). b" using first_all [OF f] by auto
    then show ?thesis using False l M_Cancel_Consumers inv st [symmetric] by (simp add: lim_driver_def lim_asked_def Let_def) blast
  qed
next
  case (M_Join_Producers k)
  have "\<forall>x \<in> set (mprods (threads s)). mp_finished x" if "first k mp_finished (mprods (threads s))" "\<not> k < length (mprods (threads s))"
    using first_all [OF that] by blast
  then show ?thesis using M_Join_Producers inv st by (auto simp: lim_driver_def lim_asked_def Let_def first_Suc split: if_splits)
next
  case (M_Join_Consumers k)
  have "\<forall>x \<in> set (mcons (threads s)). x = MC_Exit" if "first k (\<lambda>c. c = MC_Exit) (mcons (threads s))" "\<not> k < length (mcons (threads s))"
    using first_all [OF that] by blast
  then show ?thesis using M_Join_Consumers inv st by (auto simp: lim_driver_def lim_asked_def Let_def first_Suc split: if_splits)
qed (use inv st in \<open>auto simp: lim_driver_def lim_asked_def\<close>)

lemma lim_thread_act: "lim_thread cl file e s = Some m \<Longrightarrow> mon_act cl file e (threads s) = Some m \<and> (\<forall>i. e \<noteq> M_Cancel i)"
  by (auto simp: lim_thread_def Let_def split: mon_event.splits if_splits)

definition lim_inv :: "cl \<Rightarrow> string list ptr \<Rightarrow> string ptr multiset \<Rightarrow> mon_lim \<Rightarrow> bool" where
  "lim_inv cl file L s = (lim_data cl file L (threads s) \<and> lim_asked s)"

text \<open>The three kinds of events that change threads.\<close>

lemma lim_act_cases [consumes 1, case_names thread end_producer end_consumer driver]:
  assumes "lim_act cl file a s = Some t"
  obtains e m where "a = L_Thread e" "mon_act cl file e (threads s) = Some m" "\<And>i. e \<noteq> M_Cancel i" "t = s\<lparr>threads := m\<rparr>"
  | i late p where "a = L_End_Producer i late" "i < length (mprods (threads s))"
      "mon_cancel_producer cl (int i) late (msh (threads s)) (mprods (threads s) ! i) = Some p"
      "t = s\<lparr>threads := (threads s)\<lparr>mprods := (mprods (threads s))[i := p]\<rparr>\<rparr>"
  | i c where "a = L_End_Consumer i" "i < length (mcons (threads s))"
      "mon_cancel_consumer cl (int i) (msh (threads s)) (mcons (threads s) ! i) = Some c"
      "t = s\<lparr>threads := (threads s)\<lparr>mcons := (mcons (threads s))[i := c]\<rparr>\<rparr>"
  | "a = L_Driver" "lim_driver s = Some t"
  using assms by (cases a) (auto simp: lim_act_def Let_def split: if_splits dest!: lim_thread_act)

lemma lim_data_act:
  assumes inv: "lim_data cl file L m" and st: "mon_act cl file e m = Some t" and nc: "\<And>i. e \<noteq> M_Cancel i"
  shows "lim_data cl file L t"
proof (cases e)
  case (M_Producer i)
  with st obtain sh p where "i < length (mprods m)" "mon_producer file (msh m) (mprods m ! i) = Some (sh, p)"
    "t = m\<lparr>msh := sh, mprods := (mprods m)[i := p]\<rparr>" by (auto simp: mon_act_def split: if_splits)
  then show ?thesis using lim_data_producer [OF inv] by blast
next
  case (M_Consumer i)
  with st obtain sh c where "i < length (mcons m)" "mon_consumer cl (msh m) (mcons m ! i) = Some (sh, c)"
    "t = m\<lparr>msh := sh, mcons := (mcons m)[i := c]\<rparr>" by (auto simp: mon_act_def split: if_splits)
  then show ?thesis using lim_data_consumer [OF inv] by blast
qed (use lim_data_moves [OF inv st] nc in auto)

lemma lim_inv_act:
  assumes inv: "lim_inv cl file L s" and st: "lim_act cl file a s = Some t"
  shows "lim_inv cl file L t"
  using st
proof (cases rule: lim_act_cases)
  case (thread e m)
  then show ?thesis using inv lim_data_act lim_asked_keeps mon_act_keeps by (auto simp: lim_inv_def)
next
  case (end_producer i late p)
  have "mon_keeps (threads s) ((threads s)\<lparr>mprods := (mprods (threads s))[i := p]\<rparr>)"
    using mon_cancel_producer_local [OF end_producer(3), of NULL] end_producer(2) by (auto simp: mon_keeps_def nth_list_update)
  then show ?thesis using inv end_producer lim_data_end_producer lim_asked_keeps by (auto simp: lim_inv_def)
next
  case (end_consumer i c)
  have "mon_keeps (threads s) ((threads s)\<lparr>mcons := (mcons (threads s))[i := c]\<rparr>)"
    using mon_cancel_consumer_local [OF end_consumer(3)] end_consumer(2) by (auto simp: mon_keeps_def nth_list_update)
  then show ?thesis using inv end_consumer lim_data_end_consumer lim_asked_keeps by (auto simp: lim_inv_def)
next
  case driver
  then show ?thesis using inv lim_driver_asked [of s t] by (simp add: lim_inv_def)
qed

interpretation mon_limit: invariant_system "lim_step cl file" "lim_inv cl file L" for cl "file" L
  by unfold_locales (auto simp: lim_step_def intro: lim_inv_act)

lemma lim_inv_init:
  assumes "rb_inv b" and "rb_contents b = []"
  shows "lim_inv cl file (image_mset Some (expected_lines cl file)) (lim_init cl b)"
  using assms by (auto simp: lim_inv_def lim_data_def lim_asked_def lim_init_def mon_init_def total_replicate_mset total_replicate mon_weights
      mc_freeing_def mc_held_def mp_todo_def expected_lines_def image_mset_repeat split: option.splits)

subsection \<open>Quiescent states\<close>

definition lim_spurious :: "lim_event \<Rightarrow> bool" where
  "lim_spurious a = (case a of L_Thread e \<Rightarrow> spurious e | _ \<Rightarrow> False)"

lemma lim_data_parts:
  assumes "lim_data cl file L m"
  shows "mset (mfreed (msh m)) \<subseteq># L" and "total mc_held (mcons m) \<subseteq># L"
proof -
  let ?r = "total (mp_todo file) (mprods m) + mset (rb_contents (mbuf (msh m)))"
  have all: "?r + total mc_held (mcons m) + mset (mfreed (msh m)) \<subseteq># L" using assms unfolding lim_data_def by blast
  show "mset (mfreed (msh m)) \<subseteq># L" using subset_mset.order_trans [OF mset_subset_eq_add_right all] .
  have "total mc_held (mcons m) \<subseteq># ?r + total mc_held (mcons m) + mset (mfreed (msh m))"
    by (rule subset_mset.order_trans [OF mset_subset_eq_add_right mset_subset_eq_add_left])
  then show "total mc_held (mcons m) \<subseteq># L" using all by (rule subset_mset.order_trans)
qed

text \<open>What is stuck in the monitor is stuck for one of two reasons: somebody holds the mutex, or nobody signals.\<close>

lemma lim_stuck_threads:
  assumes stuck: "\<And>a. \<not> lim_spurious a \<Longrightarrow> lim_act cl file a s = None"
  shows "i < length (mprods (threads s)) \<Longrightarrow> mp_holds (mprods (threads s) ! i) = 0 \<and>
      (\<not> locked (msh (threads s)) \<longrightarrow> mp_finished (mprods (threads s) ! i) \<or> mp_waits (mprods (threads s) ! i))"
    and "i < length (mcons (threads s)) \<Longrightarrow> NULL \<notin># mc_held (mcons (threads s) ! i) \<Longrightarrow> mc_holds (mcons (threads s) ! i) = 0 \<and>
      (\<not> locked (msh (threads s)) \<longrightarrow> mcons (threads s) ! i = MC_Wait \<or> mcons (threads s) ! i = MC_Exit)"
proof -
  let ?m = "threads s"
  have th: "lim_thread cl file e s = None" if "\<not> spurious e" for e
    using stuck [of "L_Thread e"] that by (simp add: lim_spurious_def lim_act_def Let_def)
  {
    assume i: "i < length (mprods ?m)"
    have "signal_consumer i w ?m = None" for w
      using th [of "M_Signal_Consumer i w"] by (simp add: lim_thread_def mon_act_def spurious_def Let_def)
    then have "mp_pc (mprods ?m ! i) \<noteq> MP_Signal" using signal_consumer_enabled [OF i] by auto
    moreover have "mon_producer file (msh ?m) (mprods ?m ! i) = None"
      using th [of "M_Producer i"] stuck [of "L_End_Producer i True"] i
      by (auto simp: lim_thread_def lim_act_def lim_spurious_def mon_act_def spurious_def Let_def split: if_splits)
    ultimately show "mp_holds (mprods ?m ! i) = 0 \<and> (\<not> locked (msh ?m) \<longrightarrow> mp_finished (mprods ?m ! i) \<or> mp_waits (mprods ?m ! i))"
      using mon_producer_stuck by blast
  }
  {
    assume i: "i < length (mcons ?m)" and held: "NULL \<notin># mc_held (mcons ?m ! i)"
    have "signal_producer i w ?m = None" for w
      using th [of "M_Signal_Producer i w"] by (simp add: lim_thread_def mon_act_def spurious_def Let_def)
    then have "mcons ?m ! i \<noteq> MC_Signal x" for x using signal_producer_enabled [OF i] by auto
    moreover have "mon_consumer cl (msh ?m) (mcons ?m ! i) = None"
      using th [of "M_Consumer i"] i by (simp add: lim_thread_def mon_act_def spurious_def Let_def)
    ultimately show "mc_holds (mcons ?m ! i) = 0 \<and> (\<not> locked (msh ?m) \<longrightarrow> mcons ?m ! i = MC_Wait \<or> mcons ?m ! i = MC_Exit)"
      using mon_consumer_stuck held by blast
  }
qed

lemma lim_stuck_unlocked:
  assumes inv: "lim_data cl file L (threads s)" and q: "cl_verbose cl = 0" and nn: "NULL \<notin># L"
    and stuck: "\<And>a. \<not> lim_spurious a \<Longrightarrow> lim_act cl file a s = None"
  shows "\<not> locked (msh (threads s)) \<and> (\<forall>p \<in> set (mprods (threads s)). mp_finished p \<or> mp_waits p) \<and>
    (\<forall>c \<in> set (mcons (threads s)). c = MC_Wait \<or> c = MC_Exit)"
proof -
  let ?m = "threads s"
  have held: "NULL \<notin># mc_held (mcons ?m ! i)" if "i < length (mcons ?m)" for i
  proof
    assume "NULL \<in># mc_held (mcons ?m ! i)"
    then have "NULL \<in># total mc_held (mcons ?m)" using total_member [of "mcons ?m ! i" "mcons ?m" NULL mc_held] that by simp
    moreover have "total mc_held (mcons ?m) \<subseteq># L" by (rule lim_data_parts(2) [OF inv])
    ultimately show False using nn mset_subset_eqD by fast
  qed
  note p = lim_stuck_threads(1) [OF stuck] and c = lim_stuck_threads(2) [OF stuck _ held]
  have "total mp_holds (mprods ?m) = 0" using p by (auto intro!: total_const_0 simp: in_set_conv_nth)
  moreover have "total mc_holds (mcons ?m) = 0" using c by (auto intro!: total_const_0 simp: in_set_conv_nth)
  ultimately have "\<not> locked (msh ?m)" using inv q by (auto simp: lim_data_def)
  then show ?thesis using p c unfolding all_set_conv_all_nth by blast
qed

lemma lim_quiescent:
  assumes inv: "lim_inv cl file L s" and q: "cl_verbose cl = 0" and nn: "NULL \<notin># L"
    and stuck: "\<And>a. \<not> lim_spurious a \<Longrightarrow> lim_act cl file a s = None"
  shows "driver s = M_Done"
proof (rule ccontr)
  assume nd: "driver s \<noteq> M_Done"
  let ?m = "threads s"
  have a: "lim_asked s" using inv by (simp add: lim_inv_def)
  have u: "\<not> locked (msh ?m)" and p: "\<forall>p \<in> set (mprods ?m). mp_finished p \<or> mp_waits p" and c: "\<forall>c \<in> set (mcons ?m). c = MC_Wait \<or> c = MC_Exit"
    using lim_stuck_unlocked [OF _ q nn stuck] inv by (auto simp: lim_inv_def)
  have "lim_driver s = None" using stuck [of L_Driver] by (simp add: lim_spurious_def lim_act_def Let_def)
  then consider (p) k where "driver s = M_Join_Producers k" "k < length (mprods ?m)" "\<not> mp_finished (mprods ?m ! k)"
    | (c) k where "driver s = M_Join_Consumers k" "k < length (mcons ?m)" "mcons ?m ! k \<noteq> MC_Exit"
    using nd by (cases "driver s") (auto simp: lim_driver_def Let_def split: if_splits)
  then show False
  proof cases
    case p
    then have "mp_waits (mprods ?m ! k)" using \<open>\<forall>p \<in> set (mprods ?m). mp_finished p \<or> mp_waits p\<close> by auto
    then have "mon_cancel_producer cl (int k) True (msh ?m) (mprods ?m ! k) \<noteq> None"
      using u by (auto simp: mp_waits_def mon_cancel_producer_def split: mp_pc.splits)
    moreover have "p_asked s ! k" using a p(1,2) unfolding lim_asked_def by (auto simp: all_set_conv_all_nth)
    ultimately show False using stuck [of "L_End_Producer k True"] p(2) by (auto simp: lim_spurious_def lim_act_def Let_def)
  next
    case c
    then have "mcons ?m ! k = MC_Wait" using \<open>\<forall>c \<in> set (mcons ?m). c = MC_Wait \<or> c = MC_Exit\<close> by auto
    moreover have "c_asked s ! k" using a c(1,2) unfolding lim_asked_def by (auto simp: all_set_conv_all_nth)
    ultimately show False using stuck [of "L_End_Consumer k"] c(2) u by (simp add: lim_spurious_def lim_act_def mon_cancel_consumer_def Let_def)
  qed
qed

lemma lim_printed:
  assumes inv: "lim_inv cl file (image_mset Some E) s" and d: "driver s = M_Done"
  shows "(\<forall>p \<in> set (mprods (threads s)). mp_finished p) \<and> (\<forall>c \<in> set (mcons (threads s)). c = MC_Exit) \<and>
    mset (mprinted (msh (threads s))) \<subseteq># filter_mset (cl_shouldprint cl) E"
proof -
  have fin: "(\<forall>p \<in> set (mprods (threads s)). mp_finished p) \<and> (\<forall>c \<in> set (mcons (threads s)). c = MC_Exit)"
    using inv d by (simp add: lim_inv_def lim_asked_def)
  then have "total mc_freeing (mcons (threads s)) = {#}" by (auto intro!: total_const_0 simp: mc_freeing_def)
  then have "mset (mprinted (msh (threads s))) = passing cl (mset (mfreed (msh (threads s))))" using inv by (simp add: lim_inv_def lim_data_def)
  moreover have "mset (mfreed (msh (threads s))) \<subseteq># image_mset Some E"
    using inv lim_data_parts(1) unfolding lim_inv_def by blast
  then have "passing cl (mset (mfreed (msh (threads s)))) \<subseteq># passing cl (image_mset Some E)"
    unfolding passing_def by (intro multiset_filter_mono image_mset_subseteq_mono)
  ultimately show ?thesis using fin by (simp add: passing_def multiset.map_comp comp_def)
qed

subsection \<open>Length of runs\<close>

text \<open>
  Steps a thread has left: a line of the file costs a producer fifteen steps, a line in the buffer
  costs eight, and waiting is worth less than being awake, so that a signal pays for the wake-up.
\<close>

definition mp_left :: "string list ptr \<Rightarrow> mproducer \<Rightarrow> nat" where
  "mp_left file p =
     (case mp_pc p of
        MP_Start \<Rightarrow> 2 + 15 * length (case file of NULL \<Rightarrow> [] | Some ls \<Rightarrow> ls)
      | MP_Read \<Rightarrow> 1 + 15 * length (mp_file p)
      | MP_Lock _ \<Rightarrow> 15 + 15 * length (mp_file p)
      | MP_Push _ \<Rightarrow> 14 + 15 * length (mp_file p)
      | MP_Wait _ \<Rightarrow> 13 + 15 * length (mp_file p)
      | MP_Woken _ \<Rightarrow> 15 + 15 * length (mp_file p)
      | MP_Signal \<Rightarrow> 5 + 15 * length (mp_file p)
      | MP_Unlock \<Rightarrow> 2 + 15 * length (mp_file p)
      | MP_Exit \<Rightarrow> 0
      | MP_Unopened \<Rightarrow> 0)"

definition mc_left :: "mc_pc \<Rightarrow> nat" where
  "mc_left c =
     (case c of
        MC_Start \<Rightarrow> 4 | MC_Lock \<Rightarrow> 3 | MC_Pop \<Rightarrow> 2 | MC_Wait \<Rightarrow> 1 | MC_Woken \<Rightarrow> 3 | MC_Signal _ \<Rightarrow> 9
      | MC_Unlock _ \<Rightarrow> 6 | MC_Print _ \<Rightarrow> 5 | MC_Free _ \<Rightarrow> 4 | MC_Exit \<Rightarrow> 0)"

definition driver_left :: "nat \<Rightarrow> nat \<Rightarrow> main_pc \<Rightarrow> nat" where
  "driver_left np nc d =
     (case d of
        M_Sleep \<Rightarrow> 5 + 2 * nc + 2 * np
      | M_Cancel_Producers i \<Rightarrow> 4 + 2 * nc + np + (np - i)
      | M_Cancel_Consumers i \<Rightarrow> 3 + nc + np + (nc - i)
      | M_Join_Producers i \<Rightarrow> 2 + nc + (np - i)
      | M_Join_Consumers i \<Rightarrow> 1 + (nc - i)
      | M_Done \<Rightarrow> 0)"

definition mon_left :: "string list ptr \<Rightarrow> mon_sys \<Rightarrow> nat" where
  "mon_left file m = total (mp_left file) (mprods m) + total mc_left (mcons m) + 8 * used (msh m)"

definition lim_left :: "string list ptr \<Rightarrow> mon_lim \<Rightarrow> nat" where
  "lim_left file s =
     mon_left file (threads s) + driver_left (length (mprods (threads s))) (length (mcons (threads s))) (driver s)"

lemma mon_producer_left:
  assumes st: "mon_producer file sh p = Some (sh', p')" and b: "rb_inv (mbuf sh)"
  shows "Suc (mp_left file p' + 8 * used sh') \<le> mp_left file p + 8 * used sh"
proof (cases "mp_pc p")
  case (MP_Push x)
  obtain r b' where r: "buffer_push (Some x) (mbuf sh) = (r, b')" by (metis surj_pair)
  from b r show ?thesis
    by (cases rule: push_cases) (use st MP_Push r in \<open>auto simp: mon_producer_def mp_left_def\<close>)
qed (use st in \<open>auto simp: mon_producer_def mp_left_def split: option.splits list.splits if_splits\<close>)

lemma mon_consumer_left:
  assumes st: "mon_consumer cl sh c = Some (sh', c')" and b: "rb_inv (mbuf sh)"
  shows "Suc (mc_left c' + 8 * used sh') \<le> mc_left c + 8 * used sh"
proof (cases c)
  case MC_Pop
  obtain r x b' where r: "buffer_pop NULL (mbuf sh) = (r, x, b')" by (metis surj_pair)
  from b r show ?thesis
    by (cases rule: pop_cases) (use st MC_Pop r in \<open>auto simp: mon_consumer_def mc_left_def\<close>)
qed (use st in \<open>auto simp: mon_consumer_def mc_left_def split: option.splits if_splits\<close>)

lemma mp_wake_left: "mp_waits p \<Longrightarrow> mp_left file (mp_wake p) = mp_left file p + 2"
  by (auto simp: mp_waits_def mp_wake_def mp_left_def split: mp_pc.splits)

lemma mon_left_wake:
  shows "k < length (mprods m) \<Longrightarrow> mp_waits (mprods m ! k) \<Longrightarrow>
      mon_left file (m\<lparr>mprods := (mprods m)[k := mp_wake (mprods m ! k)]\<rparr>) = mon_left file m + 2"
    and "k < length (mcons m) \<Longrightarrow> mcons m ! k = MC_Wait \<Longrightarrow> mon_left file (m\<lparr>mcons := (mcons m)[k := MC_Woken]\<rparr>) = mon_left file m + 2"
  using total_update [of k "mprods m" "mp_left file" "mp_wake (mprods m ! k)"] total_update [of k "mcons m" mc_left MC_Woken]
  by (auto simp: mon_left_def mp_wake_left mc_left_def)

lemma mon_left_sent:
  shows "i < length (mprods m) \<Longrightarrow> mp_pc (mprods m ! i) = MP_Signal \<Longrightarrow>
      mon_left file (m\<lparr>mprods := (mprods m)[i := (mprods m ! i)\<lparr>mp_pc := MP_Unlock\<rparr>]\<rparr>) + 3 = mon_left file m"
    and "i < length (mcons m) \<Longrightarrow> mcons m ! i = MC_Signal x \<Longrightarrow> mon_left file (m\<lparr>mcons := (mcons m)[i := MC_Unlock x]\<rparr>) + 3 = mon_left file m"
  using total_update [of i "mprods m" "mp_left file" "(mprods m ! i)\<lparr>mp_pc := MP_Unlock\<rparr>"] total_update [of i "mcons m" mc_left "MC_Unlock x"]
  by (auto simp: mon_left_def mp_left_def mc_left_def)

lemma signal_consumer_left: "signal_consumer i w m = Some t \<Longrightarrow> Suc (mon_left file t) \<le> mon_left file m"
proof -
  assume st: "signal_consumer i w m = Some t"
  let ?m = "m\<lparr>mprods := (mprods m)[i := (mprods m ! i)\<lparr>mp_pc := MP_Unlock\<rparr>]\<rparr>"
  have "mon_left file ?m + 3 = mon_left file m" using st mon_left_sent(1) by (auto simp: signal_consumer_def split: if_splits)
  moreover have "t = ?m \<or> (\<exists>k < length (mcons ?m). mcons ?m ! k = MC_Wait \<and> t = ?m\<lparr>mcons := (mcons ?m)[k := MC_Woken]\<rparr>)"
    using st by (auto simp: signal_consumer_def Let_def split: if_splits option.splits)
  ultimately show ?thesis using mon_left_wake(2) [of _ ?m "file"] by fastforce
qed

lemma signal_producer_left: "signal_producer i w m = Some t \<Longrightarrow> Suc (mon_left file t) \<le> mon_left file m"
proof -
  assume st: "signal_producer i w m = Some t"
  then obtain x where i: "i < length (mcons m)" "mcons m ! i = MC_Signal x"
    by (auto simp: signal_producer_def mc_after_signal_def split: if_splits mc_pc.splits)
  let ?m = "m\<lparr>mcons := (mcons m)[i := MC_Unlock x]\<rparr>"
  have "mon_left file ?m + 3 = mon_left file m" by (rule mon_left_sent(2) [OF i])
  moreover have "t = ?m \<or> (\<exists>k < length (mprods ?m). mp_waits (mprods ?m ! k) \<and> t = ?m\<lparr>mprods := (mprods ?m)[k := mp_wake (mprods ?m ! k)]\<rparr>)"
    using st i by (auto simp: signal_producer_def mc_after_signal_def Let_def split: if_splits option.splits)
  ultimately show ?thesis using mon_left_wake(1) [of _ ?m "file"] by fastforce
qed

lemma mon_act_left:
  assumes st: "mon_act cl file e m = Some t" and b: "rb_inv (mbuf (msh m))" and nc: "\<And>i. e \<noteq> M_Cancel i"
  shows "Suc (mon_left file t) \<le> mon_left file m + (if spurious e then 3 else 0)"
proof (cases e)
  case (M_Producer i)
  with st obtain sh p where i: "i < length (mprods m)" "mon_producer file (msh m) (mprods m ! i) = Some (sh, p)"
    "t = m\<lparr>msh := sh, mprods := (mprods m)[i := p]\<rparr>" by (auto simp: mon_act_def split: if_splits)
  then show ?thesis using mon_producer_left [OF i(2) b] total_update [OF i(1), of "mp_left file" p] M_Producer
    by (simp add: mon_left_def spurious_def)
next
  case (M_Consumer i)
  with st obtain sh c where i: "i < length (mcons m)" "mon_consumer cl (msh m) (mcons m ! i) = Some (sh, c)"
    "t = m\<lparr>msh := sh, mcons := (mcons m)[i := c]\<rparr>" by (auto simp: mon_act_def split: if_splits)
  then show ?thesis using mon_consumer_left [OF i(2) b] total_update [OF i(1), of mc_left c] M_Consumer
    by (simp add: mon_left_def spurious_def)
next
  case (M_Signal_Consumer i w)
  then show ?thesis using st signal_consumer_left by (simp add: mon_act_def spurious_def)
next
  case (M_Signal_Producer i w)
  then show ?thesis using st signal_producer_left by (simp add: mon_act_def spurious_def)
next
  case (M_Spurious_Producer i)
  then show ?thesis using st mon_left_wake(1) [of i m "file"] by (auto simp: mon_act_def spurious_def split: if_splits)
next
  case (M_Spurious_Consumer i)
  then show ?thesis using st mon_left_wake(2) [of i m "file"] by (auto simp: mon_act_def spurious_def split: if_splits)
qed (use nc in auto)

lemma mon_cancel_left:
  "mon_cancel_producer cl k late sh p = Some p' \<Longrightarrow> mp_left file p' < mp_left file p"
  "mon_cancel_consumer cl k sh c = Some c' \<Longrightarrow> mc_left c' < mc_left c"
  by (auto simp: mon_cancel_producer_def mon_cancel_consumer_def mp_left_def mc_left_def
      split: mp_pc.splits mc_pc.splits if_splits list.splits option.splits)

lemma lim_driver_left:
  "lim_driver s = Some t \<Longrightarrow> threads t = threads s \<and>
    driver_left (length (mprods (threads s))) (length (mcons (threads s))) (driver t) <
    driver_left (length (mprods (threads s))) (length (mcons (threads s))) (driver s)"
  by (auto simp: lim_driver_def driver_left_def Let_def split: main_pc.splits if_splits)

lemma lim_act_left:
  assumes st: "lim_act cl file a s = Some t" and inv: "lim_inv cl file L s"
  shows "Suc (lim_left file t) \<le> lim_left file s + (if lim_spurious a then 3 else 0)"
  using st
proof (cases rule: lim_act_cases)
  case (thread e m)
  have "rb_inv (mbuf (msh (threads s)))" using inv by (simp add: lim_inv_def lim_data_def)
  then show ?thesis using mon_act_left [OF thread(2) _ thread(3)] mon_act_keeps [OF thread(2)] thread(1,4)
    by (simp add: lim_left_def lim_spurious_def mon_keeps_def)
next
  case (end_producer i late p)
  then show ?thesis using mon_cancel_left(1) [OF end_producer(3), of "file"] total_update [OF end_producer(2), of "mp_left file" p]
    by (simp add: lim_left_def mon_left_def lim_spurious_def)
next
  case (end_consumer i c)
  then show ?thesis using mon_cancel_left(2) [OF end_consumer(3)] total_update [OF end_consumer(2), of mc_left c]
    by (simp add: lim_left_def mon_left_def lim_spurious_def)
next
  case driver
  then show ?thesis using lim_driver_left [OF driver(2)] by (simp add: lim_left_def lim_spurious_def)
qed

lemma lim_run_left:
  "lim_run cl file as s = Some t \<Longrightarrow> lim_inv cl file L s \<Longrightarrow> lim_inv cl file L t \<and>
    length as + lim_left file t \<le> lim_left file s + 3 * length (filter lim_spurious as)"
proof (induction as arbitrary: s)
  case (Cons a as)
  then obtain r where r: "lim_act cl file a s = Some r" "lim_run cl file as r = Some t" by (auto split: option.splits)
  then show ?case using Cons.IH [OF r(2) lim_inv_act [OF Cons.prems(2) r(1)]] lim_act_left [OF r(1) Cons.prems(2)] by auto
qed simp

subsection \<open>A mutex that stays locked\<close>

text \<open>The mutex is locked and nobody holds it; consumer \<open>k\<close> has started and has not ended.\<close>

definition mon_dead :: "nat \<Rightarrow> mon_sys \<Rightarrow> bool" where
  "mon_dead k m \<longleftrightarrow> locked (msh m) \<and> (\<forall>p \<in> set (mprods m). mp_holds p = 0) \<and> (\<forall>c \<in> set (mcons m). mc_holds c = 0) \<and>
     k < length (mcons m) \<and> mcons m ! k \<notin> {MC_Start, MC_Exit}"

lemma dead_put_producer:
  "mon_dead k m \<Longrightarrow> mp_holds p = 0 \<Longrightarrow> locked sh \<Longrightarrow> mon_dead k (m\<lparr>msh := sh, mprods := (mprods m)[i := p]\<rparr>)"
  "mon_dead k m \<Longrightarrow> mp_holds p = 0 \<Longrightarrow> mon_dead k (m\<lparr>mprods := (mprods m)[i := p]\<rparr>)"
  unfolding mon_dead_def using all_update [of "mprods m" "\<lambda>q. mp_holds q = 0" p i] by simp_all

lemma dead_put_consumer:
  "mon_dead k m \<Longrightarrow> mc_holds c = 0 \<Longrightarrow> c \<notin> {MC_Start, MC_Exit} \<or> i \<noteq> k \<Longrightarrow> locked sh \<Longrightarrow>
    mon_dead k (m\<lparr>msh := sh, mcons := (mcons m)[i := c]\<rparr>)"
  "mon_dead k m \<Longrightarrow> mc_holds c = 0 \<Longrightarrow> c \<notin> {MC_Start, MC_Exit} \<or> i \<noteq> k \<Longrightarrow> mon_dead k (m\<lparr>mcons := (mcons m)[i := c]\<rparr>)"
  unfolding mon_dead_def using all_update [of "mcons m" "\<lambda>q. mc_holds q = 0" c i] by (cases "i = k"; simp)+

lemma dead_threads:
  assumes "mon_dead k m"
  shows "locked (msh m)" and "i < length (mprods m) \<Longrightarrow> mp_holds (mprods m ! i) = 0" and "i < length (mcons m) \<Longrightarrow> mc_holds (mcons m ! i) = 0"
  using assms by (auto simp: mon_dead_def)

lemma dead_producer:
  "mon_producer file sh p = Some (sh', p') \<Longrightarrow> locked sh \<Longrightarrow> mp_holds p = 0 \<Longrightarrow> locked sh' \<and> mp_holds p' = 0"
  by (cases "mp_pc p") (auto simp: mon_producer_def mp_holds_def split: option.splits list.splits if_splits)

lemma dead_consumer:
  "mon_consumer cl sh c = Some (sh', c') \<Longrightarrow> locked sh \<Longrightarrow> mc_holds c = 0 \<Longrightarrow>
    locked sh' \<and> mc_holds c' = 0 \<and> c' \<notin> {MC_Start, MC_Exit}"
  by (cases c) (auto simp: mon_consumer_def mc_holds_def split: option.splits if_splits)

lemma dead_cancel:
  "mon_cancel_producer cl j late sh p = Some p' \<Longrightarrow> mp_holds p = 0 \<Longrightarrow> mp_holds p' = 0"
  "mon_cancel_consumer cl j sh c = Some c' \<Longrightarrow> locked sh \<Longrightarrow> c = MC_Start \<and> c' = MC_Exit"
  by (auto simp: mon_cancel_producer_def mon_cancel_consumer_def mp_holds_def split: mp_pc.splits mc_pc.splits if_splits list.splits option.splits)

lemma dead_act:
  assumes d: "mon_dead k m" and st: "mon_act cl file e m = Some t" and nc: "\<And>i. e \<noteq> M_Cancel i"
  shows "mon_dead k t"
proof (cases e)
  case (M_Producer i)
  with st obtain sh p where i: "i < length (mprods m)" "mon_producer file (msh m) (mprods m ! i) = Some (sh, p)"
    "t = m\<lparr>msh := sh, mprods := (mprods m)[i := p]\<rparr>" by (auto simp: mon_act_def split: if_splits)
  then show ?thesis using dead_producer [OF i(2) dead_threads(1,2) [OF d]] dead_put_producer(1) [OF d] by blast
next
  case (M_Consumer i)
  with st obtain sh c where i: "i < length (mcons m)" "mon_consumer cl (msh m) (mcons m ! i) = Some (sh, c)"
    "t = m\<lparr>msh := sh, mcons := (mcons m)[i := c]\<rparr>" by (auto simp: mon_act_def split: if_splits)
  then show ?thesis using dead_consumer [OF i(2) dead_threads(1,3) [OF d]] dead_put_consumer(1) [OF d] by blast
next
  case (M_Signal_Consumer i w)
  then have "i < length (mprods m)" "mp_holds (mprods m ! i) = 1" using st by (auto simp: mon_act_def signal_consumer_def mp_holds_def split: if_splits)
  then show ?thesis using dead_threads(2) [OF d] by simp
next
  case (M_Signal_Producer i w)
  then have "i < length (mcons m)" "mc_holds (mcons m ! i) = 1"
    using st by (auto simp: mon_act_def signal_producer_def mc_after_signal_def mc_holds_def split: if_splits mc_pc.splits)
  then show ?thesis using dead_threads(3) [OF d] by simp
next
  case (M_Spurious_Producer i)
  then have i: "i < length (mprods m)" "mp_waits (mprods m ! i)" "t = m\<lparr>mprods := (mprods m)[i := mp_wake (mprods m ! i)]\<rparr>"
    using st by (simp_all add: mon_act_def split: if_splits)
  then show ?thesis using dead_put_producer(2) [OF d] mp_wake_same [OF i(2)] dead_threads(2) [OF d i(1)] by metis
next
  case (M_Spurious_Consumer i)
  then have "t = m\<lparr>mcons := (mcons m)[i := MC_Woken]\<rparr>" using st by (simp add: mon_act_def split: if_splits)
  then show ?thesis using dead_put_consumer(2) [OF d, of MC_Woken i] mc_wait_zero(6) by simp
qed (use nc in auto)

definition lim_dead :: "nat \<Rightarrow> mon_lim \<Rightarrow> bool" where
  "lim_dead k s = (lim_asked s \<and> mon_dead k (threads s))"

lemma lim_dead_act:
  assumes inv: "lim_dead k s" and st: "lim_act cl file a s = Some t"
  shows "lim_dead k t"
  using st
proof (cases rule: lim_act_cases)
  case (thread e m)
  then show ?thesis using inv dead_act [OF _ thread(2,3)] lim_asked_keeps [OF _ mon_act_keeps [OF thread(2)]] by (simp add: lim_dead_def)
next
  case (end_producer i late p)
  have "mon_keeps (threads s) ((threads s)\<lparr>mprods := (mprods (threads s))[i := p]\<rparr>)"
    using mon_cancel_producer_local [OF end_producer(3), of NULL] end_producer(2) by (auto simp: mon_keeps_def nth_list_update)
  then have "lim_asked t" using inv lim_asked_keeps end_producer(4) by (simp add: lim_dead_def)
  moreover have d: "mon_dead k (threads s)" using inv by (simp add: lim_dead_def)
  moreover have "mp_holds p = 0" using dead_cancel(1) [OF end_producer(3) dead_threads(2) [OF d end_producer(2)]] .
  ultimately show ?thesis using dead_put_producer(2) [OF d] end_producer(4) by (simp add: lim_dead_def)
next
  case (end_consumer i c)
  have "mon_keeps (threads s) ((threads s)\<lparr>mcons := (mcons (threads s))[i := c]\<rparr>)"
    using mon_cancel_consumer_local [OF end_consumer(3)] end_consumer(2) by (auto simp: mon_keeps_def nth_list_update)
  moreover have "mcons (threads s) ! i = MC_Start \<and> c = MC_Exit"
    using inv dead_cancel(2) [OF end_consumer(3) dead_threads(1)] unfolding lim_dead_def by blast
  moreover have "i \<noteq> k" using inv calculation(2) by (auto simp: lim_dead_def mon_dead_def)
  ultimately show ?thesis
    using inv dead_put_consumer(2) [of k "threads s" c i] end_consumer(4) lim_asked_keeps unfolding lim_dead_def by (simp add: mc_wait_zero)
next
  case driver
  then show ?thesis using inv lim_driver_asked [of s t] by (simp add: lim_dead_def)
qed

interpretation dead_end: invariant_system "lim_step cl file" "lim_dead k" for cl "file" k
  by unfold_locales (auto simp: lim_step_def intro: lim_dead_act)

lemma lim_dead_not_done: "lim_dead k s \<Longrightarrow> driver s \<noteq> M_Done"
  by (auto simp: lim_dead_def mon_dead_def lim_asked_def)

subsection \<open>Properties\<close>


text \<open>
  C37: With messages the monitor program can hang at its time limit.  A producer that ends in a message it
  writes while it has the mutex leaves it locked, and if a consumer is past its start and has not ended, the
  driver never returns from joining it.
\<close>

theorem monitor_limit_hangs:
  assumes "buffer_init avail (cl_buffer_size cl) buffer_globals = (0, b)"
    and "0 < cl_buffer_size cl" and "cl_buffer_size cl \<le> INT_MAX"
    and "(lim_step cl file)\<^sup>*\<^sup>* (lim_init cl b) s"
    and "lim_act cl file (L_End_Producer i late) s = Some t" and "mp_holds (mprods (threads s) ! i) = 1"
    and "k < length (mcons (threads s))" and "mcons (threads s) ! k \<notin> {MC_Start, MC_Exit}"
    and "(lim_step cl file)\<^sup>*\<^sup>* t u"
  shows "driver u \<noteq> M_Done \<and> locked (msh (threads u))"
proof -
  note b = buffer_init_ok [OF assms(1) _ assms(3)]
  have rb: "rb_inv b" "rb_contents b = []" using b assms(2) by simp_all
  have inv: "lim_inv cl file (image_mset Some (expected_lines cl file)) s" by (rule mon_limit.reachable_inv [OF assms(4) lim_inv_init [OF rb]])
  obtain p where i: "i < length (mprods (threads s))"
    and c: "mon_cancel_producer cl (int i) late (msh (threads s)) (mprods (threads s) ! i) = Some p"
    and t: "t = s\<lparr>threads := (threads s)\<lparr>mprods := (mprods (threads s))[i := p]\<rparr>\<rparr>"
    using assms(5) by (auto simp: lim_act_def Let_def split: if_splits)
  have p: "mp_holds p = 0" using mon_cancel_producer_local [OF c, of NULL] by (auto simp: mp_finished_def mp_holds_def)
  have l: "locked (msh (threads s))" using lim_data_exclusive(1) i assms(6) inv unfolding lim_inv_def by blast
  have le: "total mp_holds (mprods (threads s)) + total mc_holds (mcons (threads s)) \<le> (1::nat)"
    using inv unfolding lim_inv_def lim_data_def by linarith
  then have "total mp_holds ((mprods (threads s))[i := p]) = 0" "total mc_holds (mcons (threads s)) = 0"
    using total_update [OF i, of mp_holds p] total_ge [OF i, of mp_holds] p assms(6) by linarith+
  then have "lim_dead k t"
    using l t assms(7,8) lim_inv_act [OF inv assms(5)] by (simp add: lim_dead_def mon_dead_def lim_inv_def total_eq_0_iff)
  then have "lim_dead k u" by (rule dead_end.reachable_inv [OF assms(9)])
  then show ?thesis using lim_dead_not_done by (auto simp: lim_dead_def mon_dead_def)
qed

definition lim_demo_events :: "lim_event list" where
  "lim_demo_events =
     replicate 3 (L_Thread (M_Consumer 0)) @ L_Thread (M_Spurious_Consumer 0) # L_Thread (M_Producer 0) # replicate 5 L_Driver @
     [L_End_Producer 0 True, L_Driver, L_Driver, L_Thread (M_Consumer 0), L_Thread (M_Consumer 0), L_End_Consumer 0, L_Driver, L_Driver]"

definition lim_demo :: mon_lim where
  "lim_demo =
     \<lparr>threads = \<lparr>msh = \<lparr>locked = False, mbuf = demo_buf, mprinted = [], mfreed = []\<rparr>,
        mprods = [\<lparr>mp_pc = MP_Exit, mp_file = []\<rparr>], mcons = [MC_Exit]\<rparr>,
      p_asked = [True], c_asked = [True], driver = M_Done\<rparr>"

lemmas lim_eval =
  lim_init_def mon_init_def demo_simps lim_act_def lim_thread_def lim_driver_def mon_act_def mon_producer_def mon_consumer_def
  mon_cancel_producer_def mon_cancel_consumer_def mp_waits_def mp_finished_def log_producer_def log_consumer_def demo_line handler_defs
  smod_mod_positive

lemma lim_demo_run: "lim_run demo_cl demo_file lim_demo_events (lim_init demo_cl demo_buf) = Some lim_demo"
  by (simp add: lim_eval lim_demo_events_def lim_demo_def numeral_eq_Suc Let_def)


definition loud_cl :: cl where
  "loud_cl = demo_cl\<lparr>cl_verbose := 1\<rparr>"

definition loud_asked :: mon_lim where
  "loud_asked =
     \<lparr>threads = \<lparr>msh = \<lparr>locked = True, mbuf = demo_buf\<lparr>buffer := [Some ''ab''], buffer_length := 1\<rparr>, mprinted = [], mfreed = []\<rparr>,
        mprods = [\<lparr>mp_pc = MP_Signal, mp_file = []\<rparr>], mcons = [MC_Wait]\<rparr>,
      p_asked = [True], c_asked = [False], driver = M_Cancel_Producers 1\<rparr>"

lemma loud_asked_run:
  "lim_run loud_cl demo_file (replicate 3 (L_Thread (M_Consumer 0)) @ replicate 4 (L_Thread (M_Producer 0)) @ [L_Driver, L_Driver])
     (lim_init loud_cl demo_buf) = Some loud_asked"
  by (simp add: lim_eval loud_cl_def loud_asked_def numeral_eq_Suc Let_def)

theorem monitor_limit_hangs_witness:
  "(lim_step loud_cl demo_file)\<^sup>*\<^sup>* (lim_init loud_cl demo_buf) loud_asked \<and>
   (\<exists>t. lim_act loud_cl demo_file (L_End_Producer 0 True) loud_asked = Some t \<and>
     (\<forall>u. (lim_step loud_cl demo_file)\<^sup>*\<^sup>* t u \<longrightarrow> driver u \<noteq> M_Done))"
proof -
  have r: "(lim_step loud_cl demo_file)\<^sup>*\<^sup>* (lim_init loud_cl demo_buf) loud_asked" by (rule lim_run_reachable [OF loud_asked_run])
  obtain t where t: "lim_act loud_cl demo_file (L_End_Producer 0 True) loud_asked = Some t"
    by (simp add: lim_act_def loud_asked_def mon_cancel_producer_def log_producer_def loud_cl_def)
  have b: "buffer_init (\<lambda>_. True) (cl_buffer_size loud_cl) buffer_globals = (0, demo_buf)" "0 < cl_buffer_size loud_cl" "cl_buffer_size loud_cl \<le> INT_MAX"
    using demo_buf_init by (simp_all add: loud_cl_def demo_cl_def cl_globals_def)
  have m: "mp_holds (mprods (threads loud_asked) ! 0) = 1" "0 < length (mcons (threads loud_asked))"
    "mcons (threads loud_asked) ! 0 \<notin> {MC_Start, MC_Exit}" by (simp_all add: loud_asked_def mp_holds_def)
  show ?thesis using r t monitor_limit_hangs [OF b r t m] by blast
qed

end
