(* ===== verification/Record_Files.thy ===== *)
theory Record_Files
  imports C_Lib
begin

text \<open>
  The record-file tool (\<open>cw02/zad1/src\<close>): \<open>file_desc.c\<close> over system calls or stdio, and the
  operations of \<open>operations.c\<close>, generating, copying and sorting files of fixed-size records.
  The file system is a map from names to bytes and a table of open descriptions with their
  positions.  Both modes act on the same bytes: stdio buffering is flushed at exit and not
  observable before.  Buffers start with whatever the stack held, a parameter.
\<close>

subsection \<open>Files\<close>

text \<open>\<open>Invalid_Mode\<close> stands for every value of the enumeration's type that has no name.\<close>

datatype fmode_t = SYS | LIB | Invalid_Mode

record open_file =
  of_name :: string
  of_pos :: nat

record fs =
  fs_files :: "string \<rightharpoonup> byte list"
  fs_open :: "open_file list"

record file_desc =
  fd_error :: int
  fd_mode :: fmode_t
  fd_desc :: nat

definition fs_content :: "fs \<Rightarrow> nat \<Rightarrow> byte list" where
  "fs_content fs d = (case fs_files fs (of_name (fs_open fs ! d)) of None \<Rightarrow> [] | Some bs \<Rightarrow> bs)"

definition fs_pos :: "fs \<Rightarrow> nat \<Rightarrow> nat" where
  "fs_pos fs d = of_pos (fs_open fs ! d)"

definition fs_set_pos :: "fs \<Rightarrow> nat \<Rightarrow> nat \<Rightarrow> fs" where
  "fs_set_pos fs d p = fs\<lparr>fs_open := (fs_open fs)[d := (fs_open fs ! d)\<lparr>of_pos := p\<rparr>]\<rparr>"

definition fs_set_content :: "fs \<Rightarrow> nat \<Rightarrow> byte list \<Rightarrow> fs" where
  "fs_set_content fs d bs = fs\<lparr>fs_files := (fs_files fs)(of_name (fs_open fs ! d) \<mapsto> bs)\<rparr>"

text \<open>
  The calls under both modes.  A read overwrites a prefix of the buffer; a write past the end
  fills the gap with zeros; a seek to a negative offset fails and leaves the position.
\<close>

definition sys_open :: "string \<Rightarrow> fs \<Rightarrow> nat \<times> fs" where
  "sys_open name fs = (length (fs_open fs), fs\<lparr>fs_open := fs_open fs @ [\<lparr>of_name = name, of_pos = 0\<rparr>]\<rparr>)"

definition sys_read :: "nat \<Rightarrow> byte list \<Rightarrow> nat \<Rightarrow> fs \<Rightarrow> byte list \<times> fs" where
  "sys_read d buffer n fs =
     (let got = take n (drop (fs_pos fs d) (fs_content fs d))
      in (got @ drop (length got) buffer, fs_set_pos fs d (fs_pos fs d + length got)))"

definition write_at :: "byte list \<Rightarrow> nat \<Rightarrow> byte list \<Rightarrow> byte list" where
  "write_at bs p new = take p bs @ replicate (p - length bs) 0 @ new @ drop (p + length new) bs"

definition sys_write :: "nat \<Rightarrow> byte list \<Rightarrow> nat \<Rightarrow> fs \<Rightarrow> fs" where
  "sys_write d buffer n fs =
     (let p = fs_pos fs d
      in fs_set_pos (fs_set_content fs d (write_at (fs_content fs d) p (take n buffer))) d (p + n))"

definition seek_to :: "nat \<Rightarrow> int \<Rightarrow> fs \<Rightarrow> fs" where
  "seek_to d off fs = (if off < 0 then fs else fs_set_pos fs d (nat off))"

subsection \<open>file\_desc.c\<close>

definition fd_openr :: "fmode_t \<Rightarrow> string \<Rightarrow> fs \<Rightarrow> file_desc \<times> fs" where
  "fd_openr mode filename fs =
     (if mode = SYS \<or> mode = LIB then
        (if fs_files fs filename = None then (\<lparr>fd_error = -1, fd_mode = mode, fd_desc = 0\<rparr>, fs)
         else case sys_open filename fs of (d, fs') \<Rightarrow> (\<lparr>fd_error = 0, fd_mode = mode, fd_desc = d\<rparr>, fs'))
      else (\<lparr>fd_error = 0, fd_mode = mode, fd_desc = 0\<rparr>, fs))"

text \<open>\<open>open\<close> with \<open>O_CREAT\<close> keeps the bytes of an existing file; \<open>fopen\<close> with \<open>"w"\<close> drops them.\<close>

definition fd_openw :: "fmode_t \<Rightarrow> string \<Rightarrow> fs \<Rightarrow> file_desc \<times> fs" where
  "fd_openw mode filename fs =
     (if mode = SYS then
        (let old = (case fs_files fs filename of None \<Rightarrow> [] | Some bs \<Rightarrow> bs)
         in case sys_open filename (fs\<lparr>fs_files := (fs_files fs)(filename \<mapsto> old)\<rparr>) of
              (d, fs') \<Rightarrow> (\<lparr>fd_error = 0, fd_mode = mode, fd_desc = d\<rparr>, fs'))
      else if mode = LIB then
        (case sys_open filename (fs\<lparr>fs_files := (fs_files fs)(filename \<mapsto> [])\<rparr>) of
           (d, fs') \<Rightarrow> (\<lparr>fd_error = 0, fd_mode = mode, fd_desc = d\<rparr>, fs'))
      else (\<lparr>fd_error = 0, fd_mode = mode, fd_desc = 0\<rparr>, fs))"

definition fd_openrw :: "fmode_t \<Rightarrow> string \<Rightarrow> fs \<Rightarrow> file_desc \<times> fs" where
  "fd_openrw mode filename fs =
     (if mode = SYS \<or> mode = LIB then
        (if fs_files fs filename = None then (\<lparr>fd_error = -1, fd_mode = mode, fd_desc = 0\<rparr>, fs)
         else case sys_open filename fs of (d, fs') \<Rightarrow> (\<lparr>fd_error = 0, fd_mode = mode, fd_desc = d\<rparr>, fs'))
      else (\<lparr>fd_error = 0, fd_mode = mode, fd_desc = 0\<rparr>, fs))"

definition fd_read :: "file_desc \<Rightarrow> byte list \<Rightarrow> nat \<Rightarrow> fs \<Rightarrow> byte list \<times> fs" where
  "fd_read fd buffer record_size fs =
     (if fd_mode fd = SYS \<or> fd_mode fd = LIB then sys_read (fd_desc fd) buffer record_size fs
      else (buffer, fs))"

definition fd_write :: "file_desc \<Rightarrow> byte list \<Rightarrow> nat \<Rightarrow> fs \<Rightarrow> fs" where
  "fd_write fd buffer record_size fs =
     (if fd_mode fd = SYS \<or> fd_mode fd = LIB then sys_write (fd_desc fd) buffer record_size fs else fs)"

text \<open>The offsets are computed in \<open>size_t\<close> and passed as a signed 64-bit offset.\<close>

definition row_offset :: "int \<Rightarrow> nat \<Rightarrow> int" where
  "row_offset row record_size = sint (word_of_int row * word_of_nat record_size :: 64 word)"

definition fd_seek_row :: "file_desc \<Rightarrow> nat \<Rightarrow> nat \<Rightarrow> fs \<Rightarrow> fs" where
  "fd_seek_row fd row_no record_size fs =
     (if fd_mode fd = SYS \<or> fd_mode fd = LIB then seek_to (fd_desc fd) (row_offset (int row_no) record_size) fs
      else fs)"

definition fd_seek_row_rel :: "file_desc \<Rightarrow> int \<Rightarrow> nat \<Rightarrow> fs \<Rightarrow> fs" where
  "fd_seek_row_rel fd row_rel record_size fs =
     (if fd_mode fd = SYS \<or> fd_mode fd = LIB
      then seek_to (fd_desc fd) (int (fs_pos fs (fd_desc fd)) + row_offset row_rel record_size) fs
      else fs)"

subsection \<open>operations.c\<close>

text \<open>
  A result is the C return value with the file system, or \<open>Undefined\<close> where the code reads or
  writes outside an array of size zero.
\<close>

datatype op_result = Ret int fs | Undefined

text \<open>
  \<open>rnd i j\<close> is byte \<open>j\<close> of the \<open>i\<close>-th read from \<open>/dev/urandom\<close>; \<open>None\<close> when it could not be
  opened, which the code does not notice.
\<close>

definition to_letter :: "byte \<Rightarrow> byte" where
  "to_letter b = b mod 26 + 97"

fun generate_loop ::
    "(nat \<Rightarrow> nat \<Rightarrow> byte) option \<Rightarrow> file_desc \<Rightarrow> nat \<Rightarrow> nat \<Rightarrow> nat \<Rightarrow> byte list \<Rightarrow> fs \<Rightarrow> fs" where
  "generate_loop rnd fd record_size i 0 buffer fs = fs"
| "generate_loop rnd fd record_size i (Suc k) buffer fs =
     (let read = (case rnd of
             None \<Rightarrow> take (record_size - 1) buffer
           | Some r \<Rightarrow> map (r i) [0..<record_size - 1]);
          buffer' = map to_letter read @ drop (record_size - 1) buffer
      in generate_loop rnd fd record_size (Suc i) k buffer' (fd_write fd buffer' record_size fs))"

definition op_generate ::
    "(nat \<Rightarrow> nat \<Rightarrow> byte) option \<Rightarrow> byte list \<Rightarrow> string \<Rightarrow> nat \<Rightarrow> nat \<Rightarrow> fs \<Rightarrow> op_result" where
  "op_generate rnd junk filename record_count record_size fs =
     (if record_size = 0 then Undefined
      else
        let buffer = (take record_size junk)[record_size - 1 := 10];
            (fd, fs') = fd_openw SYS filename fs
        in if fd_error fd \<noteq> 0 then Ret 1 fs'
           else Ret 0 (generate_loop rnd fd record_size 0 record_count buffer fs'))"

fun copy_loop :: "file_desc \<Rightarrow> file_desc \<Rightarrow> nat \<Rightarrow> nat \<Rightarrow> byte list \<Rightarrow> fs \<Rightarrow> fs" where
  "copy_loop fd1 fd2 record_size 0 buffer fs = fs"
| "copy_loop fd1 fd2 record_size (Suc k) buffer fs =
     (case fd_read fd1 buffer record_size fs of
        (buffer', fs') \<Rightarrow> copy_loop fd1 fd2 record_size k buffer' (fd_write fd2 buffer' record_size fs'))"

definition op_copy ::
    "byte list \<Rightarrow> string \<Rightarrow> string \<Rightarrow> nat \<Rightarrow> nat \<Rightarrow> fmode_t \<Rightarrow> fs \<Rightarrow> op_result" where
  "op_copy junk filename filename2 record_count record_size mode fs =
     (let (fd1, fs1) = fd_openr mode filename fs
      in if fd_error fd1 \<noteq> 0 then Ret 1 fs1
         else
           let (fd2, fs2) = fd_openw mode filename2 fs1
           in if fd_error fd2 \<noteq> 0 then Ret 1 fs2
              else Ret 0 (copy_loop fd1 fd2 record_size record_count (take record_size junk) fs2))"

text \<open>The inner loop: \<open>next_pos\<close> counts down; the cursor is at row \<open>next_pos\<close> when it ends.\<close>

fun shift_loop :: "file_desc \<Rightarrow> nat \<Rightarrow> byte list \<Rightarrow> byte list \<Rightarrow> nat \<Rightarrow> fs \<Rightarrow> byte list \<times> fs" where
  "shift_loop fd record_size inserted nxt 0 fs = (nxt, fs)"
| "shift_loop fd record_size inserted nxt (Suc next_pos) fs =
     (case fd_read fd nxt record_size (fd_seek_row_rel fd (-1) record_size fs) of
        (nxt', fs1) \<Rightarrow>
          if nxt' ! 0 > inserted ! 0
          then shift_loop fd record_size inserted nxt' next_pos
                 (fd_seek_row_rel fd (-2) record_size (fd_write fd nxt' record_size fs1))
          else (nxt', fs1))"

function sort_loop :: "file_desc \<Rightarrow> nat \<Rightarrow> nat \<Rightarrow> nat \<Rightarrow> byte list \<Rightarrow> byte list \<Rightarrow> fs \<Rightarrow> fs" where
  "sort_loop fd record_count record_size sorted_end inserted nxt fs =
     (if sorted_end + 1 < record_count then
        (case fd_read fd inserted record_size (fd_seek_row fd (sorted_end + 1) record_size fs) of
           (inserted', fs1) \<Rightarrow>
             (case shift_loop fd record_size inserted' nxt (sorted_end + 1)
                     (fd_seek_row_rel fd (-1) record_size fs1) of
                (nxt', fs2) \<Rightarrow>
                  sort_loop fd record_count record_size (sorted_end + 1) inserted' nxt'
                    (fd_write fd inserted' record_size fs2)))
      else fs)"
  by pat_completeness auto
termination
  by (relation "measure (\<lambda>(fd, rc, rs, se, i, n, fs). rc - se)") auto

declare sort_loop.simps [simp del]

definition op_sort ::
    "byte list \<Rightarrow> byte list \<Rightarrow> string \<Rightarrow> nat \<Rightarrow> nat \<Rightarrow> fmode_t \<Rightarrow> fs \<Rightarrow> op_result" where
  "op_sort junk1 junk2 filename record_count record_size mode fs =
     (let (fd, fs') = fd_openrw mode filename fs
      in if fd_error fd \<noteq> 0 then Ret 1 fs'
         else if record_size = 0 \<and> 1 < record_count then Undefined
         else Ret 0 (sort_loop fd record_count record_size 0 (take record_size junk1)
                (take record_size junk2) fs'))"

subsection \<open>main.c\<close>

text \<open>
  \<open>parse_mode\<close> returns -1 for an unknown mode; the enumeration type is unsigned, so the test
  \<open>mode < 0\<close> in \<open>main\<close> never holds.
\<close>

definition parse_mode :: "string \<Rightarrow> fmode_t" where
  "parse_mode m = (if m = ''sys'' then SYS else if m = ''lib'' then LIB else Invalid_Mode)"

definition mode_value :: "fmode_t \<Rightarrow> 32 word" where
  "mode_value m = (case m of SYS \<Rightarrow> 0 | LIB \<Rightarrow> 1 | Invalid_Mode \<Rightarrow> -1)"

definition mode_negative :: "fmode_t \<Rightarrow> bool" where
  "mode_negative m = (uint (mode_value m) < 0)"

datatype main_result = Usage fs | Ran op_result

definition record_main ::
    "(nat \<Rightarrow> nat \<Rightarrow> byte) option \<Rightarrow> byte list \<Rightarrow> byte list \<Rightarrow> string list \<Rightarrow> fs \<Rightarrow> main_result" where
  "record_main rnd junk1 junk2 argv fs =
     (let n = (\<lambda>s. unat (to_size_t (atoi s))) in
      if length argv < 5 then Usage fs
      else if argv ! 1 = ''generate'' then
        (if length argv \<noteq> 5 then Usage fs
         else Ran (op_generate rnd junk1 (argv ! 2) (n (argv ! 3)) (n (argv ! 4)) fs))
      else if argv ! 1 = ''sort'' then
        (if length argv \<noteq> 6 then Usage fs
         else if mode_negative (parse_mode (argv ! 5)) then Usage fs
         else Ran (op_sort junk1 junk2 (argv ! 2) (n (argv ! 3)) (n (argv ! 4)) (parse_mode (argv ! 5)) fs))
      else if argv ! 1 = ''copy'' then
        (if length argv \<noteq> 7 then Usage fs
         else if mode_negative (parse_mode (argv ! 6)) then Usage fs
         else Ran (op_copy junk1 (argv ! 2) (argv ! 3) (n (argv ! 4)) (n (argv ! 5)) (parse_mode (argv ! 6)) fs))
      else Usage fs)"

subsection \<open>Files as lists of records\<close>

text \<open>
  The file open under descriptor \<open>d\<close> holds the records \<open>rows\<close> of size \<open>n\<close>, then \<open>rest\<close>; its
  position is at row \<open>k\<close>; every other file is as in \<open>base\<close>.
\<close>

definition rows_at :: "(string \<rightharpoonup> byte list) \<Rightarrow> string \<Rightarrow> nat \<Rightarrow> nat \<Rightarrow> byte list list \<Rightarrow> byte list \<Rightarrow>
    nat \<Rightarrow> fs \<Rightarrow> bool" where
  "rows_at base name d n rows rest k fs \<longleftrightarrow>
     d < length (fs_open fs) \<and> of_name (fs_open fs ! d) = name \<and>
     fs_files fs = base(name \<mapsto> concat rows @ rest) \<and> fs_pos fs d = n * k \<and>
     (\<forall>r \<in> set rows. length r = n)"

lemma length_concat_rows: "\<forall>r \<in> set rows. length r = n \<Longrightarrow> length (concat rows) = n * length rows"
  by (induction rows) auto

lemma mult_bound: "n * m < b \<Longrightarrow> j \<le> m \<Longrightarrow> n * j < b" for n m j b :: nat
  by (rule le_less_trans [of _ "n * m"]) simp_all

lemma take_row:
  "\<forall>r \<in> set rows. length r = n \<Longrightarrow> k < length rows \<Longrightarrow> take n (drop (n * k) (concat rows @ rest)) = rows ! k"
proof (induction rows arbitrary: k)
  case (Cons r rows)
  then show ?case by (cases k) auto
qed simp

lemma write_row:
  assumes "\<forall>r \<in> set rows. length r = n" and "k < length rows" and "length b = n"
  shows "write_at (concat rows @ rest) (n * k) b = concat (rows[k := b]) @ rest"
proof -
  have rows: "rows = take k rows @ rows ! k # drop (Suc k) rows"
    using assms(2) by (simp add: id_take_nth_drop)
  have l: "length (concat (take k rows)) = n * k" "length (rows ! k) = n"
    using assms length_concat_rows [of "take k rows" n] by (auto dest: in_set_takeD)
  have "rows[k := b] = take k rows @ b # drop (Suc k) rows"
    using assms(2) by (simp add: upd_conv_take_nth_drop)
  moreover have "write_at (concat (take k rows @ rows ! k # drop (Suc k) rows) @ rest) (n * k) b =
      concat (take k rows) @ b @ concat (drop (Suc k) rows) @ rest"
    using l assms(3) by (simp add: write_at_def)
  ultimately show ?thesis using rows by simp
qed

lemma row_offset_eq:
  assumes "\<bar>row\<bar> * int n < 2 ^ 63"
  shows "row_offset row n = row * int n"
proof -
  have "(word_of_int row * word_of_nat n :: 64 word) = word_of_int (row * int n)"
    by (simp only: of_int_mult of_int_of_nat_eq)
  moreover have "\<bar>row * int n\<bar> < 2 ^ 63" using assms by (simp add: abs_mult)
  then have "- (2 ^ 63) \<le> row * int n" "row * int n < 2 ^ 63" by linarith+
  then have "sint (word_of_int (row * int n) :: 64 word) = row * int n"
    by (simp add: sint_sbintrunc' signed_take_bit_int_eq_self del: of_int_mult)
  ultimately show ?thesis by (simp only: row_offset_def)
qed

abbreviation valid_mode :: "file_desc \<Rightarrow> bool" where
  "valid_mode fd \<equiv> fd_mode fd = SYS \<or> fd_mode fd = LIB"

lemma fd_read_row:
  assumes "rows_at base name (fd_desc fd) n rows rest k fs" and "k < length rows" and "valid_mode fd"
    and "length buffer = n" and "fd_read fd buffer n fs = (b, fs')"
  shows "b = rows ! k \<and> rows_at base name (fd_desc fd) n rows rest (k + 1) fs'"
proof -
  have c: "fs_content fs (fd_desc fd) = concat rows @ rest" and p: "fs_pos fs (fd_desc fd) = n * k"
    and all: "\<forall>r \<in> set rows. length r = n"
    using assms(1) by (auto simp: rows_at_def fs_content_def)
  have row: "take n (drop (fs_pos fs (fd_desc fd)) (fs_content fs (fd_desc fd))) = rows ! k"
    unfolding c p using all assms(2) by (rule take_row)
  moreover have "length (rows ! k) = n" using all assms(2) by simp
  ultimately have b: "b = rows ! k" and fs': "fs' = fs_set_pos fs (fd_desc fd) (n * k + n)"
    using assms(3-5) p by (auto simp: fd_read_def sys_read_def Let_def)
  show ?thesis
    using assms(1) b unfolding fs' by (auto simp: rows_at_def fs_set_pos_def fs_pos_def)
qed

lemma fd_write_row:
  assumes "rows_at base name (fd_desc fd) n rows rest k fs" and "k < length rows" and "valid_mode fd"
    and "length b = n"
  shows "rows_at base name (fd_desc fd) n (rows[k := b]) rest (k + 1) (fd_write fd b n fs)"
proof -
  have c: "fs_content fs (fd_desc fd) = concat rows @ rest" and p: "fs_pos fs (fd_desc fd) = n * k"
    and all: "\<forall>r \<in> set rows. length r = n" and nm: "of_name (fs_open fs ! fd_desc fd) = name"
    and files: "fs_files fs = base(name \<mapsto> concat rows @ rest)" and d: "fd_desc fd < length (fs_open fs)"
    using assms(1) by (auto simp: rows_at_def fs_content_def)
  have w: "write_at (concat rows @ rest) (n * k) b = concat (rows[k := b]) @ rest"
    using all assms(2,4) by (rule write_row)
  have "\<forall>r \<in> set (rows[k := b]). length r = n"
    using all assms(4) by (auto dest!: subsetD [OF set_update_subset_insert])
  then show ?thesis
    using assms(3,4) d nm files
    by (auto simp: fd_write_def sys_write_def Let_def rows_at_def fs_set_pos_def fs_set_content_def fs_pos_def
        c p [unfolded fs_pos_def] w)
qed

lemma seek_to_int: "seek_to d (int m) fs = fs_set_pos fs d m"
  by (simp add: seek_to_def)

lemma rows_at_set_pos:
  "rows_at base name d n rows rest k fs \<Longrightarrow> rows_at base name d n rows rest r (fs_set_pos fs d (n * r))"
  by (auto simp: rows_at_def fs_set_pos_def fs_pos_def)

lemma fd_seek_rel_row:
  assumes "rows_at base name (fd_desc fd) n rows rest k fs" and "j \<le> k" and "valid_mode fd"
    and "n * k < 2 ^ 63"
  shows "rows_at base name (fd_desc fd) n rows rest (k - j) (fd_seek_row_rel fd (- int j) n fs)"
proof -
  have "n * j < 2 ^ 63" using assms(2,4) by (meson le_less_trans mult_le_mono2)
  then have "int (n * j) < 2 ^ 63" by (simp only: of_nat_less_numeral_power_cancel_iff)
  then have "row_offset (- int j) n = - int j * int n"
    by (intro row_offset_eq) (simp add: mult.commute)
  then have "int (fs_pos fs (fd_desc fd)) + row_offset (- int j) n = int (n * (k - j))"
    using assms(1,2) by (simp add: rows_at_def of_nat_diff right_diff_distrib mult.commute)
  then have "fd_seek_row_rel fd (- int j) n fs = fs_set_pos fs (fd_desc fd) (n * (k - j))"
    using assms(3) seek_to_int by (auto simp only: fd_seek_row_rel_def if_True simp_thms)
  then show ?thesis using assms(1) rows_at_set_pos by simp
qed

lemma fd_seek_row_row:
  assumes "rows_at base name (fd_desc fd) n rows rest k fs" and "valid_mode fd" and "n * r < 2 ^ 63"
  shows "rows_at base name (fd_desc fd) n rows rest r (fd_seek_row fd r n fs)"
proof -
  have "int (n * r) < 2 ^ 63" using assms(3) by (simp only: of_nat_less_numeral_power_cancel_iff)
  then have "row_offset (int r) n = int (n * r)"
    using row_offset_eq [of "int r" n] by (simp add: mult.commute)
  then have "fd_seek_row fd r n fs = fs_set_pos fs (fd_desc fd) (n * r)"
    using assms(2) seek_to_int by (auto simp only: fd_seek_row_def if_True simp_thms)
  then show ?thesis using assms(1) rows_at_set_pos by simp
qed


subsection \<open>Sorting\<close>

abbreviation first_byte :: "byte list \<Rightarrow> byte" where
  "first_byte r \<equiv> r ! 0"

text \<open>What one round of the outer loop does to the sorted rows: the new one goes behind the
  last row that is not greater.\<close>

definition place :: "byte list \<Rightarrow> byte list list \<Rightarrow> byte list list" where
  "place z ys = rev (dropWhile (\<lambda>y. first_byte z < first_byte y) (rev ys)) @
     z # rev (takeWhile (\<lambda>y. first_byte z < first_byte y) (rev ys))"

lemma place_snoc:
  "place z (ys @ [y]) = (if first_byte z < first_byte y then place z ys @ [y] else ys @ [y, z])"
  by (simp add: place_def)

lemma place_Nil [simp]: "place z [] = [z]"
  by (simp add: place_def)

lemma mset_place: "mset (place z ys) = add_mset z (mset ys)"
  by (induction ys rule: rev_induct) (auto simp: place_snoc)

lemma place_sorted: "sorted (map first_byte ys) \<Longrightarrow> sorted (map first_byte (place z ys))"
proof (induction ys rule: rev_induct)
  case (snoc y ys)
  have "set (place z ys) = insert z (set ys)"
    using mset_place [of z ys] by (metis set_mset_add_mset_insert set_mset_mset)
  with snoc show ?case by (auto simp: place_snoc sorted_append)
qed simp

lemma place_filter:
  "sorted (map first_byte ys) \<Longrightarrow>
   filter (\<lambda>x. b = first_byte x) (place z ys) = filter (\<lambda>x. b = first_byte x) (ys @ [z])"
proof (induction ys rule: rev_induct)
  case (snoc y ys)
  then show ?case by (auto simp: place_snoc sorted_append)
qed simp

lemma place_sort_key: "place z (sort_key first_byte xs) = sort_key first_byte (xs @ [z])"
proof (rule properties_for_sort_key [symmetric])
  show "mset (place z (sort_key first_byte xs)) = mset (xs @ [z])"
    by (simp add: mset_place)
  show "sorted (map first_byte (place z (sort_key first_byte xs)))"
    by (rule place_sorted) simp
  show "filter (\<lambda>x. first_byte k = first_byte x) (place z (sort_key first_byte xs)) =
      filter (\<lambda>x. first_byte k = first_byte x) (xs @ [z])" for k
    using place_filter [of "sort_key first_byte xs" "first_byte k" z]
      sort_key_stable [of first_byte "first_byte k" xs]
    by (simp add: eq_commute del: filter_sort)
qed

text \<open>The inner loop leaves the cursor where the record in \<open>inserted\<close> belongs.\<close>

lemma shift_loop_place:
  assumes "rows_at base name (fd_desc fd) n (ys @ w # zs) rest (length ys) fs" and "valid_mode fd"
    and "n * length (ys @ w # zs) < 2 ^ 63" and "length nxt = n"
    and "shift_loop fd n z nxt (length ys) fs = (nxt', fs')"
  shows "length nxt' = n \<and> (\<exists>rows k. k < length rows \<and> rows[k := z] = place z ys @ zs \<and>
           rows_at base name (fd_desc fd) n rows rest k fs')"
  using assms
proof (induction ys arbitrary: w zs fs nxt rule: rev_induct)
  case Nil
  then show ?case by (intro conjI exI [of _ "w # zs"] exI [of _ 0]) auto
next
  case (snoc y ys)
  let ?d = "fd_desc fd"
  let ?R = "ys @ y # w # zs"
  have sz: "n * (length ys + 1) < 2 ^ 63" "n * (length ys + 2) < 2 ^ 63"
    using mult_bound [OF snoc.prems(3), of "length ys + 1"] mult_bound [OF snoc.prems(3), of "length ys + 2"]
    by simp_all
  have "rows_at base name ?d n ?R rest (length ys + 1) fs" using snoc.prems(1) by simp
  from fd_seek_rel_row [OF this _ snoc.prems(2) sz(1), of 1]
  have s: "rows_at base name ?d n ?R rest (length ys) (fd_seek_row_rel fd (-1) n fs)" by simp
  obtain b fs1 where r: "fd_read fd nxt n (fd_seek_row_rel fd (-1) n fs) = (b, fs1)" by fastforce
  from fd_read_row [OF s _ snoc.prems(2,4) r]
  have b: "b = y" and fs1: "rows_at base name ?d n ?R rest (length ys + 1) fs1" by auto
  have y: "length y = n" using fs1 by (simp add: rows_at_def)
  show ?case
  proof (cases "first_byte z < first_byte y")
    case True
    let ?fs2 = "fd_write fd y n fs1"
    have "rows_at base name ?d n (ys @ y # y # zs) rest (length ys + 2) ?fs2"
      using fd_write_row [OF fs1 _ snoc.prems(2) y] by (simp add: list_update_append)
    from fd_seek_rel_row [OF this _ snoc.prems(2) sz(2), of 2]
    have "rows_at base name ?d n (ys @ y # y # zs) rest (length ys) (fd_seek_row_rel fd (-2) n ?fs2)"
      by simp
    moreover have "shift_loop fd n z y (length ys) (fd_seek_row_rel fd (-2) n ?fs2) = (nxt', fs')"
      using snoc.prems(5) r b True by simp
    ultimately show ?thesis
      using snoc.IH [of y "y # zs"] snoc.prems(2,3) y True by (simp add: place_snoc)
  next
    case False
    then have "nxt' = y" "fs' = fs1" using snoc.prems(5) r b by auto
    then show ?thesis
      using False fs1 y by (intro conjI exI [of _ ?R] exI [of _ "length ys + 1"])
        (auto simp: place_snoc list_update_append nth_append)
  qed
qed

lemma sort_loop_sorts:
  assumes "rows_at base name (fd_desc fd) n
      (sort_key first_byte (take (Suc e) rows) @ drop (Suc e) rows) rest k fs"
    and "valid_mode fd" and "n * length rows < 2 ^ 63" and "length ins = n" and "length nxt = n"
    and "record_count = length rows" and "\<forall>r \<in> set rows. length r = n"
  shows "\<exists>k'. rows_at base name (fd_desc fd) n (sort_key first_byte rows) rest k'
    (sort_loop fd record_count n e ins nxt fs)"
  using assms
proof (induction "record_count - e" arbitrary: e fs k ins nxt rule: less_induct)
  case less
  let ?d = "fd_desc fd"
  let ?ys = "sort_key first_byte (take (Suc e) rows)"
  show ?case
  proof (cases "Suc e < length rows")
    case False
    then show ?thesis using less.prems by (auto simp: sort_loop.simps)
  next
    case True
    let ?z = "rows ! Suc e" and ?zs = "drop (Suc (Suc e)) rows"
    have R: "drop (Suc e) rows = ?z # ?zs" using True by (simp add: Cons_nth_drop_Suc)
    have len: "length ?ys = Suc e" using True by simp
    have "n * Suc e < 2 ^ 63"
      using True by (intro mult_bound [OF less.prems(3)]) simp
    from fd_seek_row_row [OF less.prems(1,2) this]
    have s: "rows_at base name ?d n (?ys @ ?z # ?zs) rest (Suc e) (fd_seek_row fd (Suc e) n fs)"
      using R by simp
    obtain b fs1 where r: "fd_read fd ins n (fd_seek_row fd (Suc e) n fs) = (b, fs1)" by fastforce
    have b: "b = ?z" and fs1: "rows_at base name ?d n (?ys @ ?z # ?zs) rest (Suc e + 1) fs1"
      using fd_read_row [OF s _ less.prems(2,4) r] len by (auto simp: nth_append)
    have "n * (Suc e + 1) < 2 ^ 63"
      using True by (intro mult_bound [OF less.prems(3)]) simp
    from fd_seek_rel_row [OF fs1 _ less.prems(2) this, of 1] len
    have s2: "rows_at base name ?d n (?ys @ ?z # ?zs) rest (length ?ys) (fd_seek_row_rel fd (-1) n fs1)"
      by simp
    obtain nxt' fs2 where sh: "shift_loop fd n ?z nxt (length ?ys) (fd_seek_row_rel fd (-1) n fs1) = (nxt', fs2)"
      by fastforce
    have "length (?ys @ ?z # ?zs) = length rows" using True by simp
    then have "n * length (?ys @ ?z # ?zs) < 2 ^ 63" using less.prems(3) by (simp only:)
    from shift_loop_place [OF s2 less.prems(2) this less.prems(5) sh]
    obtain R' k' where nxt': "length nxt' = n" and k': "k' < length R'"
      and R': "R'[k' := ?z] = place ?z ?ys @ ?zs" and fs2: "rows_at base name ?d n R' rest k' fs2"
      by auto
    have z: "length ?z = n" using less.prems(7) True by simp
    have "rows_at base name ?d n (place ?z ?ys @ ?zs) rest (k' + 1) (fd_write fd ?z n fs2)"
      using fd_write_row [OF fs2 k' less.prems(2) z] R' by simp
    moreover have "place ?z ?ys = sort_key first_byte (take (Suc (Suc e)) rows)"
      using True by (simp add: place_sort_key take_Suc_conv_app_nth)
    ultimately have fs3: "rows_at base name ?d n
        (sort_key first_byte (take (Suc (Suc e)) rows) @ ?zs) rest (k' + 1) (fd_write fd ?z n fs2)"
      by simp
    have "sort_loop fd record_count n e ins nxt fs =
        sort_loop fd record_count n (Suc e) ?z nxt' (fd_write fd ?z n fs2)"
      using True less.prems(6) r b sh len by (subst sort_loop.simps) simp
    then show ?thesis
      using less.hyps [OF _ fs3 less.prems(2,3) z nxt' less.prems(6,7)] True less.prems(6) by simp
  qed
qed


subsection \<open>Copying and generating\<close>

text \<open>
  A file written from the start in whole records: the bytes written so far replace the same
  number of old ones.  Reading record by record goes through the source.
\<close>

lemma write_at_end:
  "length out = p \<Longrightarrow> write_at (out @ drop p old) p b = (out @ b) @ drop (p + length b) old"
  by (simp add: write_at_def add.commute)

definition written :: "(string \<rightharpoonup> byte list) \<Rightarrow> string \<Rightarrow> nat \<Rightarrow> byte list \<Rightarrow> byte list \<Rightarrow> fs \<Rightarrow> bool" where
  "written base name d old bs fs \<longleftrightarrow>
     d < length (fs_open fs) \<and> of_name (fs_open fs ! d) = name \<and>
     fs_files fs = base(name \<mapsto> bs @ drop (length bs) old) \<and> fs_pos fs d = length bs"

lemma fd_write_written:
  assumes "written base name (fd_desc fd) old bs fs" and "valid_mode fd" and "length b = n"
  shows "written base name (fd_desc fd) old (bs @ b) (fd_write fd b n fs)"
    and "i \<noteq> fd_desc fd \<Longrightarrow> fs_open (fd_write fd b n fs) ! i = fs_open fs ! i"
    and "length (fs_open (fd_write fd b n fs)) = length (fs_open fs)"
  using assms
  by (auto simp: written_def fd_write_def sys_write_def Let_def fs_set_pos_def fs_set_content_def fs_content_def
      fs_pos_def write_at_end nth_list_update)

text \<open>\<open>op_generate\<close> writes lines of lower-case letters.\<close>

definition is_line :: "nat \<Rightarrow> byte list \<Rightarrow> bool" where
  "is_line n r \<longleftrightarrow> length r = n \<and> r ! (n - 1) = 10 \<and> (\<forall>j < n - 1. 97 \<le> r ! j \<and> r ! j \<le> 122)"

lemma to_letter_range: "97 \<le> to_letter b \<and> to_letter b \<le> 122"
proof -
  have "unat (b mod 26) < 26" by (simp add: unat_mod)
  then have "unat (to_letter b) = unat (b mod 26) + 97"
    by (simp add: to_letter_def unat_add_lem [THEN iffD1])
  then show ?thesis using \<open>unat (b mod 26) < 26\<close> by (auto simp: word_le_nat_alt)
qed

lemma generate_line:
  assumes "length buffer = n" and "0 < n" and "buffer ! (n - 1) = 10" and "length read = n - 1"
  shows "is_line n (map to_letter read @ drop (n - 1) buffer)"
  using assms to_letter_range by (auto simp: is_line_def nth_append)

lemma generate_loop_lines:
  assumes "written base name (fd_desc fd) old (concat out) fs" and "valid_mode fd" and "0 < n"
    and "length buffer = n" and "buffer ! (n - 1) = 10" and "\<forall>r \<in> set out. is_line n r"
  shows "\<exists>rows. length rows = k \<and> (\<forall>r \<in> set rows. is_line n r) \<and>
    written base name (fd_desc fd) old (concat (out @ rows)) (generate_loop rnd fd n i k buffer fs)"
  using assms
proof (induction k arbitrary: i buffer fs out)
  case 0
  then show ?case by auto
next
  case (Suc k)
  define read where "read = (case rnd of None \<Rightarrow> take (n - 1) buffer | Some r \<Rightarrow> map (r i) [0..<n - 1])"
  define line where "line = map to_letter read @ drop (n - 1) buffer"
  have l: "is_line n line"
    unfolding line_def using Suc.prems by (intro generate_line) (auto simp: read_def split: option.splits)
  then have len: "length line = n" "line ! (n - 1) = 10" by (auto simp: is_line_def)
  have "written base name (fd_desc fd) old (concat (out @ [line])) (fd_write fd line n fs)"
    using fd_write_written(1) [OF Suc.prems(1,2) len(1)] by simp
  from Suc.IH [OF this Suc.prems(2,3) len, of "Suc i"] l Suc.prems(6)
  obtain rows where "length rows = k" "\<forall>r \<in> set rows. is_line n r"
    "written base name (fd_desc fd) old (concat ((out @ [line]) @ rows))
       (generate_loop rnd fd n (Suc i) k line (fd_write fd line n fs))"
    by auto
  moreover have "generate_loop rnd fd n i (Suc k) buffer fs =
      generate_loop rnd fd n (Suc i) k line (fd_write fd line n fs)"
    by (simp only: generate_loop.simps Let_def read_def line_def)
  ultimately show ?case using l
    by (intro exI [of _ "line # rows"]) (auto simp del: generate_loop.simps)
qed


lemma copy_loop_copies:
  assumes "written base name (fd_desc fd2) old bs fs" and "valid_mode fd1" and "valid_mode fd2"
    and "fd_desc fd1 \<noteq> fd_desc fd2" and "fd_desc fd1 < length (fs_open fs)"
    and "of_name (fs_open fs ! fd_desc fd1) = src" and "src \<noteq> name" and "base src = Some content"
    and "drop (fs_pos fs (fd_desc fd1)) content = concat rows @ rest" and "\<forall>r \<in> set rows. length r = n"
    and "length buffer = n"
  shows "written base name (fd_desc fd2) old (bs @ concat rows) (copy_loop fd1 fd2 n (length rows) buffer fs)"
  using assms
proof (induction rows arbitrary: bs fs buffer)
  case Nil
  then show ?case by simp
next
  case (Cons r rows)
  let ?d = "fd_desc fd1"
  let ?fs1 = "fs_set_pos fs ?d (fs_pos fs ?d + n)"
  let ?fs2 = "fd_write fd2 r n ?fs1"
  have r: "length r = n" using Cons.prems(10) by simp
  have "fs_content fs ?d = content"
    using Cons.prems(1,6-8) by (simp add: written_def fs_content_def)
  then have read: "fd_read fd1 buffer n fs = (r, ?fs1)"
    using Cons.prems(2,9,11) r by (auto simp: fd_read_def sys_read_def Let_def)
  have w1: "written base name (fd_desc fd2) old bs ?fs1"
    using Cons.prems(1,4) by (auto simp: written_def fs_set_pos_def fs_pos_def)
  note w = fd_write_written [OF w1 Cons.prems(3) r]
  have d: "fs_open ?fs2 ! ?d = (fs_open fs ! ?d)\<lparr>of_pos := fs_pos fs ?d + n\<rparr>"
    using w(2) [OF Cons.prems(4)] Cons.prems(5) by (simp add: fs_set_pos_def)
  have "drop (fs_pos ?fs2 ?d) content = drop n (drop (fs_pos fs ?d) content)"
    by (simp add: fs_pos_def d [unfolded fs_pos_def] add.commute [of n])
  then have dr: "drop (fs_pos ?fs2 ?d) content = concat rows @ rest"
    using Cons.prems(9) r by simp
  have "written base name (fd_desc fd2) old ((bs @ r) @ concat rows) (copy_loop fd1 fd2 n (length rows) r ?fs2)"
    using Cons.prems(5,6,10) r d w(3)
    by (intro Cons.IH [OF w(1) Cons.prems(2-4) _ _ Cons.prems(7,8) dr]) (auto simp: fs_set_pos_def)
  then show ?case by (simp add: read)
qed

lemma copy_loop_invalid:
  "fd_mode fd1 = Invalid_Mode \<Longrightarrow> fd_mode fd2 = Invalid_Mode \<Longrightarrow> copy_loop fd1 fd2 n k buffer fs = fs"
  by (induction k arbitrary: buffer) (auto simp: fd_read_def fd_write_def)

subsection \<open>Properties\<close>

text \<open>
  C8: \<open>op_sort\<close> sorts: on a file of \<open>record_count\<close> records of \<open>n\<close> bytes (and any bytes after
  them), through system calls or stdio, it returns 0 and leaves the records stably sorted by
  their first byte, the bytes after them and every other file as they were.  The offsets must
  fit 63 bits.
\<close>

theorem record_sort_correct:
  assumes "fs_files fs filename = Some (concat rows @ rest)" and "\<forall>r \<in> set rows. length r = n"
    and "0 < n" and "n * length rows < 2 ^ 63" and "mode = SYS \<or> mode = LIB"
    and "n \<le> length junk1" and "n \<le> length junk2"
  shows "\<exists>fs'. op_sort junk1 junk2 filename (length rows) n mode fs = Ret 0 fs' \<and>
    fs_files fs' = (fs_files fs)(filename \<mapsto> concat (sort_key (\<lambda>r. r ! 0) rows) @ rest)"
proof -
  let ?d = "length (fs_open fs)"
  let ?fd = "\<lparr>fd_error = 0, fd_mode = mode, fd_desc = ?d\<rparr>"
  let ?fs = "fs\<lparr>fs_open := fs_open fs @ [\<lparr>of_name = filename, of_pos = 0\<rparr>]\<rparr>"
  have op: "fd_openrw mode filename fs = (?fd, ?fs)"
    using assms(1,5) by (auto simp: fd_openrw_def sys_open_def)
  have "sort_key first_byte (take (Suc 0) rows) @ drop (Suc 0) rows = rows"
    by (cases rows) auto
  then have "rows_at (fs_files fs) filename (fd_desc ?fd) n
      (sort_key first_byte (take (Suc 0) rows) @ drop (Suc 0) rows) rest 0 ?fs"
    using assms(1,2) by (auto simp: rows_at_def fs_pos_def)
  from sort_loop_sorts [OF this _ assms(4) _ _ refl assms(2), of "take n junk1" "take n junk2"] assms(5-7)
  obtain k where "rows_at (fs_files fs) filename ?d n (sort_key first_byte rows) rest k
      (sort_loop ?fd (length rows) n 0 (take n junk1) (take n junk2) ?fs)"
    by auto
  then show ?thesis using op assms(3) by (simp add: op_sort_def rows_at_def)
qed

theorem record_sort_correct_witness:
  "\<exists>fs'. op_sort [0, 0] [0, 0] ''f'' 3 2 SYS \<lparr>fs_files = [''f'' \<mapsto> [99, 1, 97, 2, 97, 3, 5]], fs_open = []\<rparr> = Ret 0 fs' \<and>
    fs_files fs' ''f'' = Some [97, 2, 97, 3, 99, 1, 5]"
  using record_sort_correct [of "\<lparr>fs_files = [''f'' \<mapsto> [99, 1, 97, 2, 97, 3, 5]], fs_open = []\<rparr>" "''f''"
      "[[99, 1], [97, 2], [97, 3]]" "[5]" 2 SYS "[0, 0]" "[0, 0]"]
  by (auto simp: numeral_2_eq_2 [symmetric] numeral_3_eq_3 [symmetric] sort_key_def)

text \<open>
  \<open>op_copy\<close> copies the first \<open>record_count\<close> records to another file.  Through stdio the
  target then holds exactly these records; through system calls, which do not truncate, the
  bytes of a longer target stay behind them.
\<close>

theorem record_copy_correct:
  assumes "fs_files fs filename = Some (concat rows @ rest)" and "\<forall>r \<in> set rows. length r = n"
    and "filename \<noteq> filename2" and "mode = SYS \<or> mode = LIB" and "n \<le> length junk"
  shows "\<exists>fs'. op_copy junk filename filename2 (length rows) n mode fs = Ret 0 fs' \<and>
    fs_files fs' = (fs_files fs)(filename2 \<mapsto> concat rows @
      (if mode = LIB then [] else drop (n * length rows) (case fs_files fs filename2 of None \<Rightarrow> [] | Some bs \<Rightarrow> bs)))"
proof -
  define old where "old = (if mode = LIB then [] else case fs_files fs filename2 of None \<Rightarrow> [] | Some bs \<Rightarrow> bs)"
  let ?d = "length (fs_open fs)"
  let ?fd1 = "\<lparr>fd_error = 0, fd_mode = mode, fd_desc = ?d\<rparr>"
  let ?fd2 = "\<lparr>fd_error = 0, fd_mode = mode, fd_desc = Suc ?d\<rparr>"
  let ?fs1 = "fs\<lparr>fs_open := fs_open fs @ [\<lparr>of_name = filename, of_pos = 0\<rparr>]\<rparr>"
  let ?fs2 = "?fs1\<lparr>fs_files := (fs_files fs)(filename2 \<mapsto> old),
    fs_open := fs_open fs @ [\<lparr>of_name = filename, of_pos = 0\<rparr>, \<lparr>of_name = filename2, of_pos = 0\<rparr>]\<rparr>"
  have op: "fd_openr mode filename fs = (?fd1, ?fs1)" "fd_openw mode filename2 ?fs1 = (?fd2, ?fs2)"
    using assms(1,4) by (auto simp: fd_openr_def fd_openw_def sys_open_def old_def split: option.splits)
  have "written (fs_files fs) filename2 (fd_desc ?fd2) old [] ?fs2"
    by (simp add: written_def fs_pos_def nth_append)
  from copy_loop_copies [OF this _ _ _ _ _ assms(3,1) _ assms(2), of ?fd1 rest "take n junk"] assms(4,5)
  have "written (fs_files fs) filename2 (Suc ?d) old (concat rows)
      (copy_loop ?fd1 ?fd2 n (length rows) (take n junk) ?fs2)"
    by (simp add: fs_pos_def nth_append)
  moreover have "length (concat rows) = n * length rows" using assms(2) by (rule length_concat_rows)
  ultimately show ?thesis using op assms(4) by (auto simp: op_copy_def written_def old_def)
qed

theorem record_copy_correct_witness:
  "\<exists>fs'. op_copy [0, 0] ''a'' ''b'' 1 2 SYS
      \<lparr>fs_files = [''a'' \<mapsto> [1, 2, 3], ''b'' \<mapsto> [7, 7, 7, 7, 7]], fs_open = []\<rparr> = Ret 0 fs' \<and>
    fs_files fs' ''b'' = Some [1, 2, 7, 7, 7]"
  using record_copy_correct [of "\<lparr>fs_files = [''a'' \<mapsto> [1, 2, 3], ''b'' \<mapsto> [7, 7, 7, 7, 7]], fs_open = []\<rparr>" "''a''"
      "[[1, 2]]" "[3]" 2 "''b''" SYS "[0, 0]"]
  by (auto simp: numeral_2_eq_2)

text \<open>
  \<open>op_generate\<close> writes \<open>record_count\<close> records of \<open>n - 1\<close> lower-case letters and a newline at
  the start of the file, whatever the random device delivers and even when it cannot be opened.
\<close>

theorem record_generate_correct:
  assumes "0 < n" and "n \<le> length junk"
  shows "\<exists>fs' rows. op_generate rnd junk filename record_count n fs = Ret 0 fs' \<and>
    length rows = record_count \<and> (\<forall>r \<in> set rows. is_line n r) \<and>
    fs_files fs' filename = Some (concat rows @
      drop (n * record_count) (case fs_files fs filename of None \<Rightarrow> [] | Some bs \<Rightarrow> bs))"
proof -
  define old where "old = (case fs_files fs filename of None \<Rightarrow> [] | Some bs \<Rightarrow> bs)"
  let ?d = "length (fs_open fs)"
  let ?fd = "\<lparr>fd_error = 0, fd_mode = SYS, fd_desc = ?d\<rparr>"
  let ?fs = "fs\<lparr>fs_files := (fs_files fs)(filename \<mapsto> old), fs_open := fs_open fs @ [\<lparr>of_name = filename, of_pos = 0\<rparr>]\<rparr>"
  let ?b = "(take n junk)[n - 1 := 10]"
  have op: "fd_openw SYS filename fs = (?fd, ?fs)"
    by (simp add: fd_openw_def sys_open_def old_def)
  have "written (fs_files fs) filename (fd_desc ?fd) old (concat []) ?fs"
    by (simp add: written_def fs_pos_def)
  from generate_loop_lines [OF this, where n = n and buffer = ?b and k = record_count and rnd = rnd and i = 0] assms
  obtain rows where rows: "length rows = record_count" "\<forall>r \<in> set rows. is_line n r"
    "written (fs_files fs) filename ?d old (concat rows) (generate_loop rnd ?fd n 0 record_count ?b ?fs)"
    by auto
  have "length (concat rows) = n * record_count"
    using rows(1,2) length_concat_rows [of rows n] by (auto simp: is_line_def)
  then show ?thesis
    using rows op assms(1) by (auto simp: op_generate_def written_def old_def)
qed

theorem record_generate_correct_witness:
  "\<exists>fs' r. op_generate None [0, 0, 0] ''f'' 1 3 \<lparr>fs_files = Map.empty, fs_open = []\<rparr> = Ret 0 fs' \<and>
    is_line 3 r \<and> fs_files fs' ''f'' = Some r"
proof -
  from record_generate_correct [of 3 "[0, 0, 0]" None "''f''" 1 "\<lparr>fs_files = Map.empty, fs_open = []\<rparr>"]
  obtain fs' rows where "op_generate None [0, 0, 0] ''f'' 1 3 \<lparr>fs_files = Map.empty, fs_open = []\<rparr> = Ret 0 fs'"
    "length rows = 1" "\<forall>r \<in> set rows. is_line 3 r" "fs_files fs' ''f'' = Some (concat rows)"
    by auto
  then show ?thesis by (auto simp: length_Suc_conv)
qed

text \<open>
  An unknown mode is not rejected: \<open>main\<close> runs the copy with it, which reports success,
  creates nothing and leaves every file as it was.
\<close>

theorem record_bad_mode_accepted:
  assumes "m \<noteq> ''sys''" and "m \<noteq> ''lib''"
  shows "record_main rnd junk1 junk2 [program, ''copy'', f1, f2, c, sz, m] fs = Ran (Ret 0 fs)"
  using assms
  by (simp add: record_main_def parse_mode_def mode_negative_def op_copy_def fd_openr_def fd_openw_def
      copy_loop_invalid)

theorem record_bad_mode_accepted_witness:
  "record_main None [] [] [''main'', ''copy'', ''a'', ''b'', ''1'', ''2'', ''SYS''] \<lparr>fs_files = Map.empty, fs_open = []\<rparr> =
     Ran (Ret 0 \<lparr>fs_files = Map.empty, fs_open = []\<rparr>)"
  using record_bad_mode_accepted [of "''SYS''" None "[]" "[]" "''main''" "''a''" "''b''" "''1''" "''2''"
      "\<lparr>fs_files = Map.empty, fs_open = []\<rparr>"]
  by simp

end
