(* ===== verification/Wire.thy ===== *)
theory Wire
  imports Prelude
begin

text \<open>
  Messages of the calculator network (\<open>cw10/zad1/src/connection.c\<close>): a 16-bit length and a
  buffer of 256 bytes.  Over a stream the length and that many bytes are sent; over datagrams
  always 256 bytes, of which the first two are the length.  The build chooses one of the two
  with \<open>CONF_DATAGRAM\<close>.  A stream is the bytes that arrive before the peer closes or the
  receive timeout ends; a datagram socket is a queue of packets with their senders.
\<close>

datatype transport = STREAM | DATAGRAM

abbreviation DATAGRAM_SIZE :: nat where
  "DATAGRAM_SIZE \<equiv> 256"

text \<open>An address is the bytes of the socket address structure, as many as its \<open>len\<close> says.\<close>

type_synonym addr_t = "byte list"

record socket_message =
  sm_addr :: addr_t
  sm_length :: uint16_t
  sm_buffer :: "byte list"

abbreviation sm_payload :: "socket_message \<Rightarrow> byte list" where
  "sm_payload sm \<equiv> take (unat (sm_length sm)) (sm_buffer sm)"

subsection \<open>Sending and receiving\<close>

text \<open>
  The stream branch of \<open>receive_sm\<close>.  Both reads wait for all their bytes and give fewer only
  at the end of the stream; the second one writes what it gets into the buffer.
\<close>

definition receive_stream :: "byte list \<Rightarrow> socket_message \<Rightarrow> (int \<times> socket_message \<times> byte list) outcome" where
  "receive_stream s sm =
     (if length s < 2 then Cont (-1, sm, [])
      else
        let len = word_of_nat (of_le (take 2 s)) :: uint16_t;
            data = take (unat len) (drop 2 s)
        in if DATAGRAM_SIZE < length data then Out_Of_Bounds
           else Cont (if length data = unat len then 0 else -1,
                      sm\<lparr>sm_length := len, sm_buffer := data @ drop (length data) (sm_buffer sm)\<rparr>,
                      drop (2 + length data) s))"

text \<open>The datagram branch; \<open>None\<close> while no packet is there.  \<open>junk\<close> is the local buffer before the call.\<close>

definition receive_datagram ::
    "byte list \<Rightarrow> (addr_t \<times> byte list) list \<Rightarrow> socket_message \<Rightarrow>
     (int \<times> socket_message \<times> (addr_t \<times> byte list) list) option" where
  "receive_datagram junk q sm =
     (case q of
        [] \<Rightarrow> None
      | (from, d) # q' \<Rightarrow>
          let got = take DATAGRAM_SIZE d;
              buffer = got @ drop (length got) junk
          in if got = [] then Some (-1, sm\<lparr>sm_addr := from\<rparr>, q')
             else Some (0, \<lparr>sm_addr = from, sm_length = word_of_nat (of_le (take 2 buffer)),
                            sm_buffer = take (DATAGRAM_SIZE - 2) (drop 2 buffer) @
                              drop (DATAGRAM_SIZE - 2) (sm_buffer sm)\<rparr>, q'))"

text \<open>\<open>send_sm\<close>: the bytes handed to \<open>send\<close>, or to \<open>sendto\<close> as one packet.\<close>

definition send_stream :: "socket_message \<Rightarrow> byte list outcome" where
  "send_stream sm =
     (if DATAGRAM_SIZE < unat (sm_length sm) then Out_Of_Bounds
      else Cont (le_bytes 2 (unat (sm_length sm)) @ sm_payload sm))"

definition send_datagram :: "socket_message \<Rightarrow> byte list" where
  "send_datagram sm = le_bytes 2 (unat (sm_length sm)) @ take (DATAGRAM_SIZE - 2) (sm_buffer sm)"

text \<open>A sender writing several messages to a stream, and a receiver reading until the stream ends.\<close>

fun send_all :: "socket_message list \<Rightarrow> byte list outcome" where
  "send_all [] = Cont []"
| "send_all (m # ms) =
     (case send_stream m of
        Cont bs \<Rightarrow> (case send_all ms of Cont rest \<Rightarrow> Cont (bs @ rest) | Exit i \<Rightarrow> Exit i | Out_Of_Bounds \<Rightarrow> Out_Of_Bounds)
      | Exit i \<Rightarrow> Exit i
      | Out_Of_Bounds \<Rightarrow> Out_Of_Bounds)"

fun receive_n :: "nat \<Rightarrow> byte list \<Rightarrow> socket_message \<Rightarrow> byte list list outcome" where
  "receive_n 0 s sm = Cont []"
| "receive_n (Suc n) s sm =
     (case receive_stream s sm of
        Cont (r, sm', s') \<Rightarrow>
          if r \<noteq> 0 then Cont []
          else (case receive_n n s' sm' of
              Cont ps \<Rightarrow> Cont (sm_payload sm' # ps) | Exit i \<Rightarrow> Exit i | Out_Of_Bounds \<Rightarrow> Out_Of_Bounds)
      | Exit i \<Rightarrow> Exit i
      | Out_Of_Bounds \<Rightarrow> Out_Of_Bounds)"

subsection \<open>Round trips\<close>

definition sm_ok :: "socket_message \<Rightarrow> bool" where
  "sm_ok sm \<longleftrightarrow> length (sm_buffer sm) = DATAGRAM_SIZE \<and> unat (sm_length sm) \<le> DATAGRAM_SIZE"

lemma of_le_uint16 [simp]: "of_le (le_bytes 2 (unat w)) = unat w" for w :: uint16_t
  using unsigned_less [of w] by (intro of_le_le_bytes) simp

lemma receive_sent:
  assumes "sm_ok m" and "length (sm_buffer sm) = DATAGRAM_SIZE" and "send_stream m = Cont bs"
  shows "receive_stream (bs @ rest) sm =
    Cont (0, sm\<lparr>sm_length := sm_length m, sm_buffer := sm_payload m @ drop (unat (sm_length m)) (sm_buffer sm)\<rparr>, rest)"
proof -
  have "bs = le_bytes 2 (unat (sm_length m)) @ sm_payload m"
    using assms(1,3) by (auto simp: send_stream_def sm_ok_def)
  moreover have "length (sm_payload m) = unat (sm_length m)"
    using assms(1) by (simp add: sm_ok_def)
  ultimately show ?thesis
    using assms(1) by (auto simp: receive_stream_def Let_def sm_ok_def)
qed

lemma send_all_ok: "\<forall>m \<in> set ms. sm_ok m \<Longrightarrow> \<exists>bs. send_all ms = Cont bs"
  by (induction ms) (auto simp: send_stream_def sm_ok_def)

lemma receive_n_sent:
  assumes "\<forall>m \<in> set ms. sm_ok m" and "send_all ms = Cont bs" and "length (sm_buffer sm) = DATAGRAM_SIZE"
  shows "receive_n (length ms) (bs @ rest) sm = Cont (map sm_payload ms)"
  using assms
proof (induction ms arbitrary: bs sm)
  case Nil
  then show ?case by simp
next
  case (Cons m ms)
  have m: "sm_ok m" using Cons.prems(1) by simp
  obtain b cs where b: "send_stream m = Cont b" and cs: "send_all ms = Cont cs" and bs: "bs = b @ cs"
    using Cons.prems(2) by (auto split: outcome.splits)
  let ?sm = "sm\<lparr>sm_length := sm_length m, sm_buffer := sm_payload m @ drop (unat (sm_length m)) (sm_buffer sm)\<rparr>"
  have "receive_n (length ms) (cs @ rest) ?sm = Cont (map sm_payload ms)"
    using Cons.prems m by (intro Cons.IH) (auto simp: cs sm_ok_def)
  moreover have "sm_payload ?sm = sm_payload m" using m by (simp add: sm_ok_def)
  ultimately show ?case
    using receive_sent [OF m Cons.prems(3) b, of "cs @ rest"] by (simp add: bs)
qed

text \<open>
  C15: Framing: messages of at most 256 bytes written to a stream one after another are received
  as the same messages in the same order, whatever bytes follow them.
\<close>

theorem wire_stream_roundtrip:
  assumes "\<forall>m \<in> set ms. sm_ok m" and "length (sm_buffer sm) = DATAGRAM_SIZE"
  shows "\<exists>bs. send_all ms = Cont bs \<and> receive_n (length ms) (bs @ rest) sm = Cont (map sm_payload ms)"
  using send_all_ok [OF assms(1)] receive_n_sent [OF assms(1) _ assms(2)] by blast

theorem wire_stream_roundtrip_witness:
  "\<exists>bs. send_all [\<lparr>sm_addr = [], sm_length = 2, sm_buffer = replicate 256 7\<rparr>,
                  \<lparr>sm_addr = [], sm_length = 0, sm_buffer = replicate 256 0\<rparr>] = Cont bs \<and>
     receive_n (Suc (Suc 0)) (bs @ [1]) \<lparr>sm_addr = [], sm_length = 0, sm_buffer = replicate 256 0\<rparr> =
       Cont [replicate 2 7, []]"
  using wire_stream_roundtrip [of "[\<lparr>sm_addr = [], sm_length = 2, sm_buffer = replicate 256 7\<rparr>,
        \<lparr>sm_addr = [], sm_length = 0, sm_buffer = replicate 256 0\<rparr>]"
      "\<lparr>sm_addr = [], sm_length = 0, sm_buffer = replicate 256 0\<rparr>" "[1]"]
  by (simp add: sm_ok_def del: send_all.simps receive_n.simps)

text \<open>
  Datagrams: a packet sent with at most 254 bytes of payload is received with its length,
  its payload and its sender, and exactly one packet is taken from the queue.
\<close>

theorem wire_datagram_roundtrip:
  assumes "length (sm_buffer m) = DATAGRAM_SIZE" and "unat (sm_length m) \<le> DATAGRAM_SIZE - 2"
    and "length (sm_buffer sm) = DATAGRAM_SIZE"
  shows "\<exists>sm'. receive_datagram junk ((from, send_datagram m) # q) sm = Some (0, sm', q) \<and>
    sm_addr sm' = from \<and> sm_length sm' = sm_length m \<and> sm_payload sm' = sm_payload m \<and>
    length (sm_buffer sm') = DATAGRAM_SIZE"
proof -
  let ?d = "send_datagram m"
  have len: "length ?d = DATAGRAM_SIZE" using assms(1) by (simp add: send_datagram_def)
  then have "take DATAGRAM_SIZE ?d = ?d" by simp
  moreover have "?d \<noteq> []" using len by auto
  moreover have "take 2 ?d = le_bytes 2 (unat (sm_length m))"
    and "drop 2 ?d = take (DATAGRAM_SIZE - 2) (sm_buffer m)"
    by (simp_all add: send_datagram_def)
  ultimately show ?thesis
    using assms len by (simp add: receive_datagram_def Let_def min_def)
qed

theorem wire_datagram_roundtrip_witness:
  "\<exists>sm'. receive_datagram [] [([1], send_datagram \<lparr>sm_addr = [], sm_length = 2, sm_buffer = replicate 256 7\<rparr>)]
      \<lparr>sm_addr = [], sm_length = 0, sm_buffer = replicate 256 0\<rparr> = Some (0, sm', []) \<and> sm_payload sm' = replicate 2 7"
  using wire_datagram_roundtrip [of "\<lparr>sm_addr = [], sm_length = 2, sm_buffer = replicate 256 7\<rparr>"
      "\<lparr>sm_addr = [], sm_length = 0, sm_buffer = replicate 256 0\<rparr>" "[]" "[1]" "[]"]
  by auto

text \<open>
  The length a stream announces is not compared with the buffer: when a peer sends a length
  above 256 and more than 256 bytes after it, \<open>receive_sm\<close> writes past the message buffer.
\<close>

theorem wire_long_message_overruns:
  assumes "DATAGRAM_SIZE < unat len" and "DATAGRAM_SIZE < length data"
  shows "receive_stream (le_bytes 2 (unat (len :: uint16_t)) @ data) sm = Out_Of_Bounds"
  using assms by (simp add: receive_stream_def Let_def)

theorem wire_long_message_overruns_witness:
  "receive_stream (le_bytes 2 (unat (300 :: uint16_t)) @ replicate 300 0)
     \<lparr>sm_addr = [], sm_length = 0, sm_buffer = replicate 256 0\<rparr> = Out_Of_Bounds"
  using wire_long_message_overruns [of 300 "replicate 300 0"] by simp

end
