(* ===== verification/Calc_Request.thy ===== *)
theory Calc_Request
  imports Wire C_Lib
begin

text \<open>
  Requests of the calculator network (\<open>cw10/zad1/src/request.c\<close>): reading one from a line,
  computing its result, and the bytes of the two structures on the wire.  A \<open>double\<close> is its 64
  bits; the four operations of the processor and the library's \<open>strtod\<close> are parameters.
\<close>

type_synonym double = "64 word"

record fpu =
  fp_add :: "double \<Rightarrow> double \<Rightarrow> double"
  fp_sub :: "double \<Rightarrow> double \<Rightarrow> double"
  fp_mul :: "double \<Rightarrow> double \<Rightarrow> double"
  fp_div :: "double \<Rightarrow> double \<Rightarrow> double"

text \<open>A value received as \<open>enum request_type\<close> may be any 32-bit number.\<close>

type_synonym request_type = "32 word"

abbreviation ADDITION :: request_type where "ADDITION \<equiv> 0"
abbreviation SUBTRACTION :: request_type where "SUBTRACTION \<equiv> 1"
abbreviation MULTIPLICATION :: request_type where "MULTIPLICATION \<equiv> 2"
abbreviation DIVISION :: request_type where "DIVISION \<equiv> 3"

record request_t =
  req_id :: "32 word"
  req_type :: request_type
  req_left :: double
  req_right :: double

record response_t =
  resp_id :: "32 word"
  resp_result :: double

definition process_request :: "fpu \<Rightarrow> request_t \<Rightarrow> response_t \<Rightarrow> int \<times> response_t" where
  "process_request fp req resp =
     (let resp' = resp\<lparr>resp_id := req_id req\<rparr>; l = req_left req; r = req_right req in
      if req_type req = ADDITION then (0, resp'\<lparr>resp_result := fp_add fp l r\<rparr>)
      else if req_type req = SUBTRACTION then (0, resp'\<lparr>resp_result := fp_sub fp l r\<rparr>)
      else if req_type req = MULTIPLICATION then (0, resp'\<lparr>resp_result := fp_mul fp l r\<rparr>)
      else if req_type req = DIVISION then (0, resp'\<lparr>resp_result := fp_div fp l r\<rparr>)
      else (-1, resp'))"

text \<open>
  \<open>strtod\<close> gives the value and the text after the number.  The text \<open>data\<close> is without its
  terminating NUL: when the operator is looked for at the end of it, the pointer steps over
  the NUL and the next comparison reads outside the string.
\<close>

definition parse_request ::
    "(string \<Rightarrow> double \<times> string) \<Rightarrow> string \<Rightarrow> request_t \<Rightarrow> (int \<times> request_t) outcome" where
  "parse_request strtod data req =
     (let (left, data1) = strtod data in
      case dropWhile (\<lambda>c. c = CHR '' '') data1 of
        [] \<Rightarrow> Out_Of_Bounds
      | op # data2 \<Rightarrow>
          let data3 = dropWhile (\<lambda>c. c = CHR '' '') data2 in
          if data3 = [] \<or> hd data3 = NL then Cont (-1, req)
          else
            let (right, data4) = strtod data3;
                ok = (\<lambda>t. Cont (0, req\<lparr>req_type := t, req_left := left, req_right := right\<rparr>))
            in if op = CHR ''+'' then ok ADDITION
               else if op = CHR ''-'' then ok SUBTRACTION
               else if op = CHR ''*'' then ok MULTIPLICATION
               else if op = CHR ''/'' then ok DIVISION
               else Cont (-1, req))"

subsection \<open>The structures as bytes\<close>

text \<open>
  \<open>struct request_t\<close> has 24 bytes without padding; \<open>struct response_t\<close> has 16, of which four
  between the two members are padding with arbitrary content \<open>pad\<close>.
\<close>

definition request_bytes :: "request_t \<Rightarrow> byte list" where
  "request_bytes req = le_bytes 4 (unat (req_id req)) @ le_bytes 4 (unat (req_type req)) @
     le_bytes 8 (unat (req_left req)) @ le_bytes 8 (unat (req_right req))"

definition bytes_request :: "byte list \<Rightarrow> request_t" where
  "bytes_request bs =
     \<lparr>req_id = word_of_nat (of_le (take 4 bs)), req_type = word_of_nat (of_le (take 4 (drop 4 bs))),
      req_left = word_of_nat (of_le (take 8 (drop 8 bs))), req_right = word_of_nat (of_le (take 8 (drop 16 bs)))\<rparr>"

definition response_bytes :: "byte list \<Rightarrow> response_t \<Rightarrow> byte list" where
  "response_bytes pad resp = le_bytes 4 (unat (resp_id resp)) @ take 4 pad @ le_bytes 8 (unat (resp_result resp))"

definition bytes_response :: "byte list \<Rightarrow> response_t" where
  "bytes_response bs =
     \<lparr>resp_id = word_of_nat (of_le (take 4 bs)), resp_result = word_of_nat (of_le (take 8 (drop 8 bs)))\<rparr>"

lemma of_le_uint32 [simp]: "of_le (le_bytes 4 (unat w)) = unat w" for w :: "32 word"
  using unsigned_less [of w] by (intro of_le_le_bytes) simp

lemma of_le_uint64 [simp]: "of_le (le_bytes 8 (unat w)) = unat w" for w :: "64 word"
  using unsigned_less [of w] by (intro of_le_le_bytes) simp

lemma length_request_bytes [simp]: "length (request_bytes req) = 24"
  by (simp add: request_bytes_def)

lemma length_response_bytes: "4 \<le> length pad \<Longrightarrow> length (response_bytes pad resp) = 16"
  by (simp add: response_bytes_def)

lemma bytes_request_bytes [simp]: "bytes_request (request_bytes req @ rest) = req"
  by (simp add: bytes_request_def request_bytes_def)

lemma bytes_response_bytes: "4 \<le> length pad \<Longrightarrow> bytes_response (response_bytes pad resp @ rest) = resp"
  by (simp add: bytes_response_def response_bytes_def)

subsection \<open>Properties\<close>

definition op_code :: "char \<Rightarrow> request_type option" where
  "op_code c = (if c = CHR ''+'' then Some ADDITION else if c = CHR ''-'' then Some SUBTRACTION
     else if c = CHR ''*'' then Some MULTIPLICATION else if c = CHR ''/'' then Some DIVISION else None)"

lemma dropWhile_spaces:
  "dropWhile (\<lambda>c. c = CHR '' '') (replicate n (CHR '' '') @ s) = dropWhile (\<lambda>c. c = CHR '' '') s"
  by (induction n) auto

text \<open>
  A line with two numbers, an operator between them and any number of spaces around it is
  read as that request, and refused (-1, request unchanged) when the operator is not one of
  the four.  Of \<open>strtod\<close> it uses that it reads the numbers where they stand.
\<close>

theorem calc_parse_line:
  assumes "strtod (l @ replicate i (CHR '' '') @ op # replicate j (CHR '' '') @ r @ [NL]) =
      (x, replicate i (CHR '' '') @ op # replicate j (CHR '' '') @ r @ [NL])"
    and "strtod (r @ [NL]) = (y, [NL])"
    and "op \<noteq> CHR '' ''" and "r \<noteq> []" and "hd r \<noteq> CHR '' ''" and "hd r \<noteq> NL"
  shows "parse_request strtod (l @ replicate i (CHR '' '') @ op # replicate j (CHR '' '') @ r @ [NL]) req =
    Cont (case op_code op of None \<Rightarrow> (-1, req)
          | Some t \<Rightarrow> (0, req\<lparr>req_type := t, req_left := x, req_right := y\<rparr>))"
proof -
  have "dropWhile (\<lambda>c. c = CHR '' '') (r @ [NL]) = r @ [NL]"
    using assms(4,5) by (cases r) auto
  then show ?thesis
    using assms by (simp add: parse_request_def dropWhile_spaces op_code_def Let_def)
qed

theorem calc_parse_line_witness:
  "parse_request (\<lambda>s. if s = ''6 * 7'' @ [NL] then (6, '' * 7'' @ [NL]) else (7, [NL])) (''6 * 7'' @ [NL])
     \<lparr>req_id = 5, req_type = 0, req_left = 0, req_right = 0\<rparr> =
   Cont (0, \<lparr>req_id = 5, req_type = MULTIPLICATION, req_left = 6, req_right = 7\<rparr>)"
  using calc_parse_line [of "\<lambda>s. if s = ''6 * 7'' @ [NL] then (6, '' * 7'' @ [NL]) else (7, [NL])"
      "''6''" 1 "CHR ''*''" 1 "''7''" 6 7 "\<lparr>req_id = 5, req_type = 0, req_left = 0, req_right = 0\<rparr>"]
  by (simp add: op_code_def)

text \<open>
  A line that ends right after its first number, with no newline as at the end of the input,
  makes the parser step over the terminator and read outside the string.
\<close>

theorem calc_parse_overread:
  assumes "strtod (l @ replicate i (CHR '' '')) = (x, replicate i (CHR '' ''))"
  shows "parse_request strtod (l @ replicate i (CHR '' '')) req = Out_Of_Bounds"
  using assms dropWhile_spaces [of i "[]"] by (simp add: parse_request_def)

theorem calc_parse_overread_witness:
  "parse_request (\<lambda>s. (5, [])) ''5'' \<lparr>req_id = 5, req_type = 0, req_left = 0, req_right = 0\<rparr> = Out_Of_Bounds"
  using calc_parse_overread [of "\<lambda>s. (5, [])" "''5''" 0 5] by simp

end
