(* ===== verification/Client_List.thy ===== *)
theory Client_List
  imports Wire
begin

text \<open>
  The server's table of clients (\<open>cw10/zad1/src/server_cllist.c\<close>): sixteen slots guarded by a
  recursive mutex.  Every function below that runs under the mutex is one atomic operation;
  \<open>register_client\<close>, which looks the name up before taking the mutex, is two.  The server's
  state also has the sockets in the epoll set, those closed, and the messages handed to
  \<open>send_sm\<close> (socket, address, payload).
\<close>

abbreviation CONF_CLIENTS_MAX :: nat where "CONF_CLIENTS_MAX \<equiv> 16"
abbreviation CONF_CLIENT_NAME_MAX :: nat where "CONF_CLIENT_NAME_MAX \<equiv> 256"

abbreviation MSG_TYPE_REGISTER :: byte where "MSG_TYPE_REGISTER \<equiv> 0"
abbreviation MSG_TYPE_UNREGISTER :: byte where "MSG_TYPE_UNREGISTER \<equiv> 1"
abbreviation MSG_TYPE_PING :: byte where "MSG_TYPE_PING \<equiv> 2"
abbreviation MSG_TYPE_PONG :: byte where "MSG_TYPE_PONG \<equiv> 3"
abbreviation MSG_TYPE_NAMEINUSE :: byte where "MSG_TYPE_NAMEINUSE \<equiv> 4"
abbreviation MSG_TYPE_RESPONSE :: byte where "MSG_TYPE_RESPONSE \<equiv> 5"
abbreviation MSG_TYPE_REQUEST :: byte where "MSG_TYPE_REQUEST \<equiv> 6"
abbreviation MSG_TYPE_SHUTDOWN :: byte where "MSG_TYPE_SHUTDOWN \<equiv> 7"

text \<open>A name is the bytes before its NUL.\<close>

record client_t =
  cl_addr :: addr_t
  cl_active :: bool
  cl_sock :: int
  cl_name :: "byte list"
  cl_inactivity :: int

record server =
  clients :: "client_t list"
  free_cl :: int
  polled :: "int list"
  closed :: "int list"
  sent :: "(int \<times> addr_t \<times> byte list) list"

definition send_sm :: "int \<Rightarrow> addr_t \<Rightarrow> byte list \<Rightarrow> server \<Rightarrow> server" where
  "send_sm sock addr payload sv = sv\<lparr>sent := sent sv @ [(sock, addr, payload)]\<rparr>"

definition close_sock :: "transport \<Rightarrow> int \<Rightarrow> server \<Rightarrow> server" where
  "close_sock tr sock sv =
     (if tr = STREAM then sv\<lparr>closed := sock # closed sv, polled := filter (\<lambda>s. s \<noteq> sock) (polled sv)\<rparr> else sv)"

text \<open>Adding a socket that is in the set already fails, and \<open>zero_or_fail\<close> ends the process.\<close>

definition add_to_poll :: "int \<Rightarrow> server \<Rightarrow> server outcome" where
  "add_to_poll sock sv = (if sock \<in> set (polled sv) then Exit (-1) else Cont (sv\<lparr>polled := sock # polled sv\<rparr>))"

subsection \<open>Lookups\<close>

text \<open>The loops over the table: the first slot from \<open>i\<close> on with a property, or -1.\<close>

fun first_slot :: "(client_t \<Rightarrow> bool) \<Rightarrow> nat \<Rightarrow> client_t list \<Rightarrow> int" where
  "first_slot P i [] = -1"
| "first_slot P i (c # cs) = (if P c then int i else first_slot P (Suc i) cs)"

definition client_freeid :: "server \<Rightarrow> int" where
  "client_freeid sv = first_slot (\<lambda>c. \<not> cl_active c) 0 (clients sv)"

definition client_for_addr :: "addr_t \<Rightarrow> server \<Rightarrow> int" where
  "client_for_addr addr sv =
     first_slot (\<lambda>c. cl_active c \<and> length addr = length (cl_addr c) \<and> cl_addr c = addr) 0 (clients sv)"

definition client_for_sock :: "int \<Rightarrow> server \<Rightarrow> int" where
  "client_for_sock sock sv = first_slot (\<lambda>c. cl_active c \<and> sock = cl_sock c) 0 (clients sv)"

definition is_name_taken :: "byte list \<Rightarrow> server \<Rightarrow> bool" where
  "is_name_taken name sv = (first_slot (\<lambda>c. cl_active c \<and> cl_name c = name) 0 (clients sv) \<noteq> -1)"

subsection \<open>Registration\<close>

text \<open>
  The first part of \<open>register_client\<close> terminates the name at \<open>name[length - 1]\<close>, which is
  \<open>buffer[length]\<close>, and reads it up to its NUL.
\<close>

definition register_name :: "socket_message \<Rightarrow> byte list outcome" where
  "register_name sm =
     (if DATAGRAM_SIZE \<le> unat (sm_length sm) then Out_Of_Bounds
      else
        let name = drop 1 ((sm_buffer sm)[unat (sm_length sm) := 0])
        in if 0 \<in> set name then Cont (takeWhile (\<lambda>b. b \<noteq> 0) name) else Out_Of_Bounds)"

definition refuse_client :: "int \<Rightarrow> addr_t \<Rightarrow> server \<Rightarrow> server" where
  "refuse_client sock addr sv = send_sm sock addr [MSG_TYPE_NAMEINUSE] sv"

text \<open>The second part, under the mutex.\<close>

definition insert_client :: "transport \<Rightarrow> int \<Rightarrow> addr_t \<Rightarrow> byte list \<Rightarrow> server \<Rightarrow> server outcome" where
  "insert_client tr sock addr name sv =
     (let id = client_freeid sv in
      if id < 0 then Cont sv
      else
        let sv' = sv\<lparr>clients := (clients sv)[nat id :=
              \<lparr>cl_addr = addr, cl_active = True, cl_sock = sock, cl_name = name, cl_inactivity = 0\<rparr>]\<rparr>
        in if tr = STREAM then add_to_poll sock sv' else Cont sv')"

definition register_client :: "transport \<Rightarrow> int \<Rightarrow> socket_message \<Rightarrow> server \<Rightarrow> server outcome" where
  "register_client tr sock sm sv =
     (case register_name sm of
        Cont name \<Rightarrow>
          if is_name_taken name sv then Cont (refuse_client sock (sm_addr sm) sv)
          else insert_client tr sock (sm_addr sm) name sv
      | Exit i \<Rightarrow> Exit i
      | Out_Of_Bounds \<Rightarrow> Out_Of_Bounds)"

definition unregister_client :: "transport \<Rightarrow> int \<Rightarrow> server \<Rightarrow> server" where
  "unregister_client tr client_id sv =
     (if 0 \<le> client_id then
        let c = clients sv ! nat client_id
        in close_sock tr (cl_sock c) (sv\<lparr>clients := (clients sv)[nat client_id := c\<lparr>cl_active := False\<rparr>]\<rparr>)
      else sv)"

definition teardown_slot :: "transport \<Rightarrow> nat \<Rightarrow> server \<Rightarrow> server" where
  "teardown_slot tr i sv =
     (let c = clients sv ! i in
      if cl_active c then
        close_sock tr (cl_sock c)
          (send_sm (cl_sock c) (cl_addr c) [MSG_TYPE_SHUTDOWN]
            (sv\<lparr>clients := (clients sv)[i := c\<lparr>cl_active := False\<rparr>]\<rparr>))
      else sv)"

definition teardown_clients :: "transport \<Rightarrow> server \<Rightarrow> server" where
  "teardown_clients tr sv = fold (teardown_slot tr) [0..<CONF_CLIENTS_MAX] sv"

subsection \<open>Choosing a client\<close>

fun next_from :: "client_t list \<Rightarrow> int \<Rightarrow> nat \<Rightarrow> int option" where
  "next_from cs from 0 = None"
| "next_from cs from (Suc k) =
     (if cl_active (cs ! nat (from smod int CONF_CLIENTS_MAX)) then Some from else next_from cs (from + 1) k)"

definition next_free_client :: "server \<Rightarrow> int \<times> server" where
  "next_free_client sv =
     (case next_from (clients sv) (free_cl sv) CONF_CLIENTS_MAX of
        None \<Rightarrow> (-1, sv)
      | Some from \<Rightarrow>
          (from smod int CONF_CLIENTS_MAX, sv\<lparr>free_cl := from smod int CONF_CLIENTS_MAX + 1\<rparr>))"

lemmas [handler_defs] = send_sm_def close_sock_def add_to_poll_def refuse_client_def insert_client_def
  register_client_def unregister_client_def teardown_slot_def

subsection \<open>Lookups find the first matching slot\<close>

lemma first_slot_none: "first_slot P i cs = -1 \<longleftrightarrow> (\<forall>c \<in> set cs. \<not> P c)"
  by (induction cs arbitrary: i) auto

lemma first_slot_neg: "first_slot P i cs < 0 \<longleftrightarrow> first_slot P i cs = -1"
  by (induction cs arbitrary: i) auto

lemma first_slot_some:
  assumes "first_slot P i cs \<noteq> -1"
  shows "\<exists>k < length cs. first_slot P i cs = int (i + k) \<and> P (cs ! k) \<and> (\<forall>j < k. \<not> P (cs ! j))"
  using assms
proof (induction cs arbitrary: i)
  case (Cons c cs)
  show ?case
  proof (cases "P c")
    case False
    with Cons obtain k where k: "k < length cs" "first_slot P (Suc i) cs = int (Suc i + k)" "P (cs ! k)"
      "\<forall>j < k. \<not> P (cs ! j)" by fastforce
    with False show ?thesis by (intro exI [of _ "Suc k"]) (auto simp: less_Suc_eq_0_disj)
  qed auto
qed simp

lemma client_freeid_some:
  assumes "\<not> client_freeid sv < 0"
  obtains k where "k < length (clients sv)" and "client_freeid sv = int k" and "\<not> cl_active (clients sv ! k)"
  using assms first_slot_some [of "\<lambda>c. \<not> cl_active c" 0 "clients sv"]
  by (fastforce simp: client_freeid_def)

lemma client_freeid_full: "client_freeid sv < 0 \<longleftrightarrow> (\<forall>c \<in> set (clients sv). cl_active c)"
  by (simp add: client_freeid_def first_slot_neg first_slot_none)

lemma is_name_taken_iff: "is_name_taken name sv \<longleftrightarrow> (\<exists>c \<in> set (clients sv). cl_active c \<and> cl_name c = name)"
  by (auto simp: is_name_taken_def first_slot_none)

subsection \<open>The invariant of the table\<close>

text \<open>Names of active clients differ pairwise; they fit their array; the sockets of active
  clients are watched and not closed.\<close>

definition names_distinct :: "client_t list \<Rightarrow> bool" where
  "names_distinct cs \<longleftrightarrow> (\<forall>i < length cs. \<forall>j < length cs.
     i \<noteq> j \<longrightarrow> cl_active (cs ! i) \<longrightarrow> cl_active (cs ! j) \<longrightarrow> cl_name (cs ! i) \<noteq> cl_name (cs ! j))"

definition table_ok :: "server \<Rightarrow> bool" where
  "table_ok sv \<longleftrightarrow> length (clients sv) = CONF_CLIENTS_MAX \<and> 0 \<le> free_cl sv \<and> free_cl sv \<le> int CONF_CLIENTS_MAX \<and>
     (\<forall>c \<in> set (clients sv). cl_active c \<longrightarrow>
        length (cl_name c) < CONF_CLIENT_NAME_MAX \<and> 0 \<notin> set (cl_name c) \<and>
        0 \<le> cl_inactivity c \<and> cl_inactivity c \<le> 4)"

lemmas [inv_defs] = names_distinct_def table_ok_def

lemma names_distinct_update:
  assumes "names_distinct cs"
    and "\<And>j. j < length cs \<Longrightarrow> j \<noteq> k \<Longrightarrow> cl_active d \<Longrightarrow> cl_active (cs ! j) \<Longrightarrow> cl_name (cs ! j) \<noteq> cl_name d"
  shows "names_distinct (cs[k := d])"
  unfolding names_distinct_def
proof (intro allI impI)
  fix i j
  assume ij: "i < length (cs[k := d])" "j < length (cs[k := d])" "i \<noteq> j"
    and act: "cl_active (cs[k := d] ! i)" "cl_active (cs[k := d] ! j)"
  consider "i = k" "j \<noteq> k" | "j = k" "i \<noteq> k" | "i \<noteq> k" "j \<noteq> k" using ij(3) by auto
  then show "cl_name (cs[k := d] ! i) \<noteq> cl_name (cs[k := d] ! j)"
  proof cases
    case 1
    then show ?thesis using assms(2) [of j] ij act by auto
  next
    case 2
    then show ?thesis using assms(2) [of i] ij act by auto
  next
    case 3
    then show ?thesis using assms(1) ij act by (auto simp: names_distinct_def)
  qed
qed

lemma names_distinct_same:
  assumes "names_distinct cs" and "cl_active d \<Longrightarrow> cl_active (cs ! k)" and "cl_name d = cl_name (cs ! k)"
  shows "names_distinct (cs[k := d])"
proof (cases "k < length cs")
  case True
  then show ?thesis
    using assms by (intro names_distinct_update) (auto simp: names_distinct_def)
qed (use assms(1) in \<open>simp add: list_update_beyond\<close>)

lemma table_ok_update:
  assumes "table_ok sv" and "cl_active d \<Longrightarrow> length (cl_name d) < CONF_CLIENT_NAME_MAX \<and> 0 \<notin> set (cl_name d) \<and>
    0 \<le> cl_inactivity d \<and> cl_inactivity d \<le> 4"
  shows "table_ok (sv\<lparr>clients := (clients sv)[i := d]\<rparr>)"
  using assms by (auto simp: table_ok_def dest!: subsetD [OF set_update_subset_insert])

lemma register_name_ok:
  assumes "register_name sm = Cont name" and "length (sm_buffer sm) = DATAGRAM_SIZE"
  shows "length name < CONF_CLIENT_NAME_MAX" and "0 \<notin> set name"
proof -
  have n: "name = takeWhile (\<lambda>b. b \<noteq> 0) (drop 1 ((sm_buffer sm)[unat (sm_length sm) := 0]))"
    using assms(1) by (auto simp: register_name_def Let_def split: if_splits)
  show "length name < CONF_CLIENT_NAME_MAX"
    using length_takeWhile_le [of "\<lambda>b. b \<noteq> 0" "drop 1 ((sm_buffer sm)[unat (sm_length sm) := 0])"] assms(2)
    by (simp add: n)
  show "0 \<notin> set name" by (auto simp: n dest: set_takeWhileD)
qed

lemma insert_client_clients:
  assumes "insert_client tr sock addr name sv = Cont sv'"
  shows "sv' = sv \<or> (\<exists>k < length (clients sv). \<not> cl_active (clients sv ! k) \<and>
    clients sv' = (clients sv)[k := \<lparr>cl_addr = addr, cl_active = True, cl_sock = sock, cl_name = name, cl_inactivity = 0\<rparr>])
    \<and> free_cl sv' = free_cl sv \<and> sent sv' = sent sv"
proof (cases "client_freeid sv < 0")
  case False
  then obtain k where k: "k < length (clients sv)" "client_freeid sv = int k" "\<not> cl_active (clients sv ! k)"
    by (rule client_freeid_some)
  then show ?thesis
    using assms by (auto simp: insert_client_def add_to_poll_def Let_def split: if_splits)
qed (use assms in \<open>simp add: insert_client_def\<close>)

lemma insert_client_inv:
  assumes "insert_client tr sock addr name sv = Cont sv'" and "table_ok sv"
    and "length name < CONF_CLIENT_NAME_MAX" and "0 \<notin> set name"
  shows "table_ok sv'" and "\<not> is_name_taken name sv \<Longrightarrow> names_distinct (clients sv) \<Longrightarrow> names_distinct (clients sv')"
proof -
  let ?d = "\<lparr>cl_addr = addr, cl_active = True, cl_sock = sock, cl_name = name, cl_inactivity = 0\<rparr>"
  consider "sv' = sv" | k where "clients sv' = (clients sv)[k := ?d]" "free_cl sv' = free_cl sv"
    using insert_client_clients [OF assms(1)] by blast
  then have "table_ok sv' \<and> (\<not> is_name_taken name sv \<longrightarrow> names_distinct (clients sv) \<longrightarrow> names_distinct (clients sv'))"
  proof cases
    case 1
    then show ?thesis using assms(2) by simp
  next
    case 2
    have "table_ok (sv\<lparr>clients := (clients sv)[k := ?d]\<rparr>)" using assms(2-4) by (intro table_ok_update) auto
    moreover have "names_distinct ((clients sv)[k := ?d])"
      if "\<not> is_name_taken name sv" "names_distinct (clients sv)"
      using that by (intro names_distinct_update) (auto simp: is_name_taken_iff)
    ultimately show ?thesis using 2 by (simp add: table_ok_def)
  qed
  then show "table_ok sv'" and "\<not> is_name_taken name sv \<Longrightarrow> names_distinct (clients sv) \<Longrightarrow> names_distinct (clients sv')"
    by auto
qed

lemma register_client_inv:
  assumes "register_client tr sock sm sv = Cont sv'" and "table_ok sv" and "names_distinct (clients sv)"
    and "length (sm_buffer sm) = DATAGRAM_SIZE"
  shows "table_ok sv' \<and> names_distinct (clients sv')"
proof -
  obtain name where n: "register_name sm = Cont name"
    using assms(1) by (auto simp: register_client_def split: outcome.splits)
  show ?thesis
  proof (cases "is_name_taken name sv")
    case True
    then show ?thesis
      using n assms(1-3) by (auto simp: register_client_def refuse_client_def send_sm_def table_ok_def)
  next
    case False
    then have "insert_client tr sock (sm_addr sm) name sv = Cont sv'"
      using n assms(1) by (simp add: register_client_def)
    then show ?thesis
      using insert_client_inv [OF _ assms(2) register_name_ok [OF n assms(4)]] False assms(3) by blast
  qed
qed

lemma deactivate_inv:
  assumes "table_ok sv" and "names_distinct (clients sv)" and "clients sv' = (clients sv)[i := (clients sv ! i)\<lparr>cl_active := False\<rparr>]"
    and "free_cl sv' = free_cl sv"
  shows "table_ok sv' \<and> names_distinct (clients sv')"
  using table_ok_update [OF assms(1), of "(clients sv ! i)\<lparr>cl_active := False\<rparr>" i]
    names_distinct_same [OF assms(2), of "(clients sv ! i)\<lparr>cl_active := False\<rparr>" i] assms(3,4)
  by (simp add: table_ok_def)

lemma unregister_client_inv:
  assumes "table_ok sv" and "names_distinct (clients sv)"
  shows "table_ok (unregister_client tr cid sv) \<and> names_distinct (clients (unregister_client tr cid sv))"
proof (cases "0 \<le> cid")
  case True
  then show ?thesis
    by (intro deactivate_inv [OF assms, where i = "nat cid"]) (auto simp: unregister_client_def close_sock_def Let_def)
qed (use assms in \<open>simp add: unregister_client_def\<close>)

subsection \<open>Loops over the table\<close>

text \<open>
  A loop whose body changes slot \<open>i\<close> only by its own content; \<open>acc\<close> is any other part of the
  state, to which each slot contributes.
\<close>

lemma slot_fold:
  assumes "\<And>i sv. clients (f i sv) = (clients sv)[i := g (clients sv ! i)]"
    and "\<And>i sv. acc (f i sv) = h (clients sv ! i) (acc sv)" and "n \<le> length (clients sv)"
  shows "clients (fold f [0..<n] sv) = map g (take n (clients sv)) @ drop n (clients sv) \<and>
    acc (fold f [0..<n] sv) = fold h (take n (clients sv)) (acc sv)"
  using assms(3)
proof (induction n)
  case (Suc n)
  then have n: "n < length (clients sv)" by simp
  let ?sv = "fold f [0..<n] sv"
  have c: "clients ?sv = map g (take n (clients sv)) @ drop n (clients sv)"
    and a: "acc ?sv = fold h (take n (clients sv)) (acc sv)" using Suc by simp_all
  have nth: "clients ?sv ! n = clients sv ! n" using n by (simp add: c nth_append)
  have "(clients ?sv)[n := g (clients sv ! n)] = map g (take (Suc n) (clients sv)) @ drop (Suc n) (clients sv)"
    using n by (simp add: c list_update_append take_Suc_conv_app_nth Cons_nth_drop_Suc [symmetric])
  then show ?case using n assms(1,2) nth a by (simp add: take_Suc_conv_app_nth)
qed simp

lemma fold_sends: "fold (\<lambda>c s. s @ (if P c then [k c] else [])) cs s = s @ map k (filter P cs)"
  by (induction cs arbitrary: s) auto

lemma deactivate_id: "\<not> cl_active c \<Longrightarrow> c\<lparr>cl_active := False\<rparr> = c" for c :: client_t
  by (cases c) simp

lemma teardown_slot_effect:
  "clients (teardown_slot tr i sv) = (clients sv)[i := (clients sv ! i)\<lparr>cl_active := False\<rparr>]"
  "sent (teardown_slot tr i sv) = sent sv @ (if cl_active (clients sv ! i)
     then [(cl_sock (clients sv ! i), cl_addr (clients sv ! i), [MSG_TYPE_SHUTDOWN])] else [])"
  "set (closed (teardown_slot STREAM i sv)) = (if cl_active (clients sv ! i)
     then insert (cl_sock (clients sv ! i)) (set (closed sv)) else set (closed sv))"
  by (auto simp: teardown_slot_def close_sock_def send_sm_def Let_def deactivate_id)

lemma teardown_clients_effect:
  assumes "length (clients sv) = CONF_CLIENTS_MAX"
  shows "clients (teardown_clients tr sv) = map (\<lambda>c. c\<lparr>cl_active := False\<rparr>) (clients sv)"
    and "sent (teardown_clients tr sv) = sent sv @
      map (\<lambda>c. (cl_sock c, cl_addr c, [MSG_TYPE_SHUTDOWN])) (filter cl_active (clients sv))"
    and "set (closed (teardown_clients STREAM sv)) = cl_sock ` {c \<in> set (clients sv). cl_active c} \<union> set (closed sv)"
proof -
  note F = slot_fold [where n = CONF_CLIENTS_MAX and sv = sv and g = "\<lambda>c. c\<lparr>cl_active := False\<rparr>"]
  show "clients (teardown_clients tr sv) = map (\<lambda>c. c\<lparr>cl_active := False\<rparr>) (clients sv)"
    and "sent (teardown_clients tr sv) = sent sv @
      map (\<lambda>c. (cl_sock c, cl_addr c, [MSG_TYPE_SHUTDOWN])) (filter cl_active (clients sv))"
    using F [where f = "teardown_slot tr" and acc = sent, OF teardown_slot_effect(1,2)] assms
    by (simp_all add: teardown_clients_def fold_sends)
  have "fold (\<lambda>c. if cl_active c then insert (cl_sock c) else (\<lambda>x. x)) cs x =
      cl_sock ` {c \<in> set cs. cl_active c} \<union> x" for cs x
    by (induction cs arbitrary: x) auto
  then show "set (closed (teardown_clients STREAM sv)) = cl_sock ` {c \<in> set (clients sv). cl_active c} \<union> set (closed sv)"
    using F [where f = "teardown_slot STREAM" and acc = "\<lambda>sv. set (closed sv)"
        and h = "\<lambda>c. if cl_active c then insert (cl_sock c) else (\<lambda>x. x)", OF teardown_slot_effect(1)]
      teardown_slot_effect(3) [of _ sv] assms
    by (simp add: teardown_clients_def teardown_slot_effect(3))
qed

subsection \<open>Round robin\<close>

text \<open>The slots in the order \<open>next_free_client\<close> looks at them.\<close>

abbreviation cycle :: "nat \<Rightarrow> nat list" where
  "cycle p \<equiv> rotate p [0..<CONF_CLIENTS_MAX]"

lemma cycle_nth: "k < CONF_CLIENTS_MAX \<Longrightarrow> cycle p ! k = (p + k) mod CONF_CLIENTS_MAX"
  by (subst nth_rotate) (auto simp: add.commute)

lemma next_from_spec:
  assumes "n \<le> CONF_CLIENTS_MAX"
  shows "next_from cs (int p) n = map_option (\<lambda>k. int (p + k))
    (find (\<lambda>k. cl_active (cs ! ((p + k) mod CONF_CLIENTS_MAX))) [0..<n])"
proof -
  have "next_from cs (int (p + i)) m = map_option (\<lambda>k. int (p + k))
      (find (\<lambda>k. cl_active (cs ! ((p + k) mod CONF_CLIENTS_MAX))) [i..<i + m])" for i m
  proof (induction m arbitrary: i)
    case (Suc m)
    have e: "int (p + i) + 1 = int (p + Suc i)" by simp
    have u: "[i..<i + Suc m] = i # [Suc i..<Suc i + m]" by (simp add: upt_conv_Cons)
    have "nat (int (p + i) smod int CONF_CLIENTS_MAX) = (p + i) mod CONF_CLIENTS_MAX"
      by (simp only: smod_nat of_nat_0_le_iff nat_int)
    then show ?case
      by (cases "cl_active (cs ! ((p + i) mod CONF_CLIENTS_MAX))")
        (simp_all only: next_from.simps find.simps e u Suc if_True if_False option.map)
  qed simp
  from this [of 0 n] show ?thesis by simp
qed


lemma cycle_map: "cycle p = map (\<lambda>k. (p + k) mod CONF_CLIENTS_MAX) [0..<CONF_CLIENTS_MAX]"
  by (rule nth_equalityI) (simp_all only: cycle_nth length_rotate length_upt length_map nth_map nth_upt add_0 diff_zero)

lemma cycle_mod: "cycle (p mod CONF_CLIENTS_MAX + n) = cycle (p + n)"
  by (rule trans [OF rotate_conv_mod trans [OF _ rotate_conv_mod [symmetric]]]) (simp add: mod_simps)

abbreviation active_in :: "server \<Rightarrow> nat \<Rightarrow> bool" where
  "active_in sv i \<equiv> cl_active (clients sv ! i)"

lemma next_free_client_cycle:
  assumes "free_cl sv = int p"
  shows "filter (active_in sv) (cycle p) = [] \<Longrightarrow> next_free_client sv = (-1, sv)"
    and "filter (active_in sv) (cycle p) = a # rest \<Longrightarrow>
      next_free_client sv = (int a, sv\<lparr>free_cl := int (a + 1)\<rparr>) \<and> filter (active_in sv) (cycle (a + 1)) = rest @ [a]"
proof -
  let ?P = "\<lambda>k. active_in sv ((p + k) mod CONF_CLIENTS_MAX)"
  have nf: "next_from (clients sv) (free_cl sv) CONF_CLIENTS_MAX =
      map_option (\<lambda>k. int (p + k)) (find ?P [0..<CONF_CLIENTS_MAX])"
    unfolding assms by (rule next_from_spec) simp
  show "next_free_client sv = (-1, sv)" if "filter (active_in sv) (cycle p) = []"
  proof -
    from that have "find ?P [0..<CONF_CLIENTS_MAX] = None"
      unfolding cycle_map by (auto simp: find_None_iff filter_empty_conv)
    with nf show ?thesis by (simp add: next_free_client_def)
  qed
  show "next_free_client sv = (int a, sv\<lparr>free_cl := int (a + 1)\<rparr>) \<and> filter (active_in sv) (cycle (a + 1)) = rest @ [a]"
    if f: "filter (active_in sv) (cycle p) = a # rest"
  proof -
    have "find ?P [0..<CONF_CLIENTS_MAX] \<noteq> None"
      using f unfolding cycle_map
      by (metis (mono_tags, lifting) Cons_eq_filterD find_None_iff in_set_conv_decomp imageE list.set_map)
    then obtain k where k: "find ?P [0..<CONF_CLIENTS_MAX] = Some k" by blast
    then have kk: "k < CONF_CLIENTS_MAX" "?P k" "\<forall>j < k. \<not> ?P j"
      by (auto simp: find_Some_iff)
    define xs ys where "xs = take k (cycle p)" and "ys = drop (Suc k) (cycle p)"
    have split: "cycle p = xs @ (p + k) mod CONF_CLIENTS_MAX # ys"
      using kk(1) cycle_nth [of k p] unfolding xs_def ys_def by (metis id_take_nth_drop length_rotate length_upt diff_zero)
    have "filter (active_in sv) xs = []"
      using kk unfolding xs_def cycle_map by (auto simp: filter_empty_conv take_map)
    with f kk(2) have a: "a = (p + k) mod CONF_CLIENTS_MAX" and rest: "rest = filter (active_in sv) ys"
      unfolding split by auto
    have lx: "length xs = k" using kk(1) by (simp add: xs_def)
    have "cycle (a + 1) = cycle (p + Suc k)" unfolding a using cycle_mod [of "p + k" 1] by simp
    also have "\<dots> = rotate (length (xs @ [a])) (cycle p)" by (simp add: lx rotate_rotate add.commute)
    also have "\<dots> = ys @ xs @ [a]" unfolding split a using rotate_append [of "xs @ [a]" ys] by (simp add: a)
    finally have "filter (active_in sv) (cycle (a + 1)) = rest @ [a]"
      using \<open>filter (active_in sv) xs = []\<close> kk(2) by (simp add: rest a)
    moreover have "int (p + k) smod int CONF_CLIENTS_MAX = int a"
      by (simp add: smod_mod_positive a zmod_int)
    ultimately show ?thesis using nf k by (simp add: next_free_client_def)
  qed
qed

text \<open>Several requests in a row, with no change of the table between them.\<close>

fun next_clients :: "nat \<Rightarrow> server \<Rightarrow> int list \<times> server" where
  "next_clients 0 sv = ([], sv)"
| "next_clients (Suc n) sv =
     (case next_free_client sv of (i, sv') \<Rightarrow> (case next_clients n sv' of (is, sv'') \<Rightarrow> (i # is, sv'')))"

lemma next_clients_take:
  assumes "free_cl sv = int p" and "n \<le> length (filter (active_in sv) (cycle p))"
  shows "fst (next_clients n sv) = map int (take n (filter (active_in sv) (cycle p)))"
  using assms
proof (induction n arbitrary: sv p)
  case (Suc n)
  obtain a rest where f: "filter (active_in sv) (cycle p) = a # rest"
    using Suc.prems(2) by (cases "filter (active_in sv) (cycle p)") auto
  let ?sv = "sv\<lparr>free_cl := int (a + 1)\<rparr>"
  from next_free_client_cycle(2) [OF Suc.prems(1) f]
  have nx: "next_free_client sv = (int a, ?sv)" and f2: "filter (active_in ?sv) (cycle (a + 1)) = rest @ [a]"
    by auto
  have n: "n \<le> length rest" using Suc.prems(2) by (simp add: f)
  have "fst (next_clients n ?sv) = map int (take n (rest @ [a]))"
    using Suc.IH [of ?sv "a + 1"] f2 n by simp
  then show ?case using nx n f by (simp add: split_beta)
qed simp

subsection \<open>Properties\<close>

text \<open>
  C10: Work is shared fairly: while the table does not change, as many requests in a row as there
  are active clients go to each active client exactly once.
\<close>

theorem calc_round_robin:
  assumes "table_ok sv" and "n = length (filter cl_active (clients sv))"
  shows "distinct (fst (next_clients n sv)) \<and>
    set (fst (next_clients n sv)) = {int i |i. i < CONF_CLIENTS_MAX \<and> cl_active (clients sv ! i)}"
proof -
  obtain p where p: "free_cl sv = int p" using assms(1) by (metis table_ok_def nonneg_int_cases)
  let ?L = "filter (active_in sv) (cycle p)"
  have "mset (cycle p) = mset [0..<CONF_CLIENTS_MAX]"
    by (simp only: rotate_drop_take mset_append [symmetric]) (metis append_take_drop_id mset_append union_commute)
  then have "length ?L = length (filter (active_in sv) [0..<CONF_CLIENTS_MAX])"
    by (metis mset_filter size_mset)
  also have "\<dots> = n"
  proof -
    have "clients sv = map ((!) (clients sv)) [0..<CONF_CLIENTS_MAX]"
      using assms(1) by (metis map_nth table_ok_def)
    then have "filter cl_active (clients sv) = map ((!) (clients sv)) (filter (active_in sv) [0..<CONF_CLIENTS_MAX])"
      by (metis (mono_tags, lifting) comp_apply filter_cong filter_map)
    then show ?thesis using assms(2) by simp
  qed
  finally have "fst (next_clients n sv) = map int ?L"
    using next_clients_take [OF p, of n] by simp
  then show ?thesis by (auto simp: distinct_map)
qed

definition calc_client :: "byte list \<Rightarrow> bool \<Rightarrow> client_t" where
  "calc_client name act = \<lparr>cl_addr = [], cl_active = act, cl_sock = 7, cl_name = name, cl_inactivity = 0\<rparr>"

theorem calc_round_robin_witness:
  "\<exists>cs. set (fst (next_clients 2 \<lparr>clients = cs, free_cl = 16, polled = [], closed = [], sent = []\<rparr>)) = {0, 2}"
proof -
  define cs where "cs = [calc_client [1] True, calc_client [] False, calc_client [2] True] @ replicate 13 (calc_client [] False)"
  let ?sv = "\<lparr>clients = cs, free_cl = 16, polled = [], closed = [], sent = []\<rparr>"
  have act: "i < CONF_CLIENTS_MAX \<and> cl_active (cs ! i) \<longleftrightarrow> i = 0 \<or> i = 2" for i
  proof -
    consider "i = 0" | "i = 1" | "i = 2" | "3 \<le> i" by linarith
    then show ?thesis by cases (auto simp: nth_append calc_client_def cs_def)
  qed
  have "{int i |i. i < CONF_CLIENTS_MAX \<and> cl_active (clients ?sv ! i)} = {0, 2}"
    by (auto simp: act)
  moreover have "table_ok ?sv" by (auto simp: table_ok_def calc_client_def cs_def)
  moreover have "2 = length (filter cl_active (clients ?sv))" by (simp add: calc_client_def cs_def)
  ultimately show ?thesis using calc_round_robin [of ?sv 2] by blast
qed

end
