(* ===== verification/Calc_Client.thy ===== *)
theory Calc_Client
  imports Calc_Request Client_List
begin

text \<open>
  The client of the calculator network (\<open>cw10/zad1/src/client.c\<close>): it registers under a name,
  then answers what the server sends.  Local message structures start with whatever the stack
  held; \<open>sm\<close> arguments stand for it.
\<close>

record calc_cl =
  server_sock :: int
  send_unregister :: bool

definition sm_init :: "addr_t \<Rightarrow> byte list \<Rightarrow> socket_message \<Rightarrow> socket_message" where
  "sm_init addr payload sm =
     sm\<lparr>sm_addr := addr, sm_length := word_of_nat (length payload),
        sm_buffer := payload @ drop (length payload) (sm_buffer sm)\<rparr>"

text \<open>
  \<open>main\<close> copies the name into 256 bytes before \<open>register_me\<close>; \<open>name\<close> is without its NUL.
\<close>

definition register_me :: "addr_t \<Rightarrow> byte list \<Rightarrow> socket_message \<Rightarrow> socket_message outcome" where
  "register_me server_addr name sm =
     (if CONF_CLIENT_NAME_MAX \<le> length name then Out_Of_Bounds
      else Cont (sm_init server_addr (MSG_TYPE_REGISTER # name) sm))"

text \<open>What handling a received message leads to: an answer, nothing, or the end of the process.\<close>

datatype client_action = Reply socket_message | Ignored | Quit int

definition client_handle ::
    "fpu \<Rightarrow> byte list \<Rightarrow> response_t \<Rightarrow> socket_message \<Rightarrow> calc_cl \<Rightarrow> client_action \<times> calc_cl" where
  "client_handle fp pad resp0 sm c =
     (let msg_type = sm_buffer sm ! 0 in
      if msg_type = MSG_TYPE_PING then (Reply (sm\<lparr>sm_length := 1, sm_buffer := (sm_buffer sm)[0 := MSG_TYPE_PONG]\<rparr>), c)
      else if msg_type = MSG_TYPE_REQUEST then
        (if sm_length sm \<noteq> 1 + 24 then (Ignored, c)
         else
           let req = bytes_request (drop 1 (sm_buffer sm));
               (r, resp) = process_request fp req resp0
           in if r \<noteq> 0 then (Ignored, c)
              else (Reply (sm\<lparr>sm_length := 1 + 16,
                     sm_buffer := MSG_TYPE_RESPONSE # response_bytes pad resp @ drop 17 (sm_buffer sm)\<rparr>), c))
      else if msg_type = MSG_TYPE_NAMEINUSE then (Quit 1, c)
      else if msg_type = MSG_TYPE_SHUTDOWN then (Quit 0, c\<lparr>send_unregister := False\<rparr>)
      else (Ignored, c))"

text \<open>
  \<open>receive_request\<close> over a stream: \<open>errno0\<close> says whether \<open>errno\<close> is zero after a failed receive.
  The result is the action, the rest of the stream and the client's state.
\<close>

definition receive_request ::
    "fpu \<Rightarrow> byte list \<Rightarrow> response_t \<Rightarrow> bool \<Rightarrow> socket_message \<Rightarrow> byte list \<Rightarrow> calc_cl \<Rightarrow>
     (client_action \<times> byte list \<times> calc_cl) outcome" where
  "receive_request fp pad resp0 errno0 sm0 s c =
     (case receive_stream s sm0 of
        Cont (r, sm, s') \<Rightarrow>
          if r \<noteq> 0 then Cont (if errno0 then Quit 0 else Ignored, s', c)
          else (case client_handle fp pad resp0 sm c of (a, c') \<Rightarrow> Cont (a, s', c'))
      | Exit i \<Rightarrow> Exit i
      | Out_Of_Bounds \<Rightarrow> Out_Of_Bounds)"

text \<open>\<open>cleanup\<close>, run at exit: the payloads still sent to the server.\<close>

definition client_cleanup :: "calc_cl \<Rightarrow> byte list list" where
  "client_cleanup c = (if server_sock c < 0 then [] else if send_unregister c then [[MSG_TYPE_UNREGISTER]] else [])"

subsection \<open>Lemmas\<close>

lemma process_request_ok:
  "req_type req \<in> {ADDITION, SUBTRACTION, MULTIPLICATION, DIVISION} \<Longrightarrow>
   \<exists>resp. process_request fp req resp0 = (0, resp) \<and> resp_id resp = req_id req"
  by (auto simp: process_request_def Let_def)

text \<open>The client answers a well-formed request with the response to it.\<close>

lemma client_answers:
  assumes "sm_length sm = 25" and "sm_buffer sm = MSG_TYPE_REQUEST # request_bytes req @ rest"
    and "process_request fp req resp0 = (0, resp)" and "4 \<le> length pad"
  shows "\<exists>m. client_handle fp pad resp0 sm c = (Reply m, c) \<and> sm_length m = 17 \<and>
    take 17 (sm_buffer m) = MSG_TYPE_RESPONSE # response_bytes pad resp \<and>
    (length (sm_buffer sm) = DATAGRAM_SIZE \<longrightarrow> sm_ok m)"
  using assms length_response_bytes [OF assms(4), of resp]
  by (auto simp: client_handle_def Let_def sm_ok_def)

text \<open>A shutdown announced by the server ends the client without an unregister message; any other
  way to end sends exactly one.\<close>

lemma client_farewell:
  assumes "0 \<le> server_sock c" and "send_unregister c" and "client_handle fp pad resp0 sm c = (a, c')"
  shows "client_cleanup c' = (if sm_buffer sm ! 0 = MSG_TYPE_SHUTDOWN then [] else [[MSG_TYPE_UNREGISTER]])"
  using assms
  by (auto simp: client_handle_def client_cleanup_def Let_def split: if_splits prod.splits)

text \<open>
  A registration sent by the client and received by the server carries exactly the client's
  name, for names of up to 254 bytes; at 255, which the client's own array still holds, the
  server writes its NUL behind the buffer.
\<close>

theorem calc_register_name:
  assumes "register_me addr name sm0 = Cont m" and "send_stream m = Cont bs" and "0 \<notin> set name"
    and "length (sm_buffer sm0) = DATAGRAM_SIZE" and "length (sm_buffer sm1) = DATAGRAM_SIZE"
  shows "\<exists>sm. receive_stream bs sm1 = Cont (0, sm, []) \<and>
    register_name sm = (if length name = 255 then Out_Of_Bounds else Cont name)"
proof -
  let ?p = "MSG_TYPE_REGISTER # name"
  have len: "length name < CONF_CLIENT_NAME_MAX" and m: "m = sm_init addr ?p sm0"
    using assms(1) by (auto simp: register_me_def split: if_splits)
  have ul: "unat (sm_length m) = Suc (length name)"
    using len by (simp add: m sm_init_def unat_of_nat del: of_nat_Suc)
  have ok: "sm_ok m" using len assms(4) ul by (simp add: sm_ok_def m sm_init_def)
  have pay: "sm_payload m = ?p" using ul by (simp add: m sm_init_def)
  let ?sm = "sm1\<lparr>sm_length := sm_length m, sm_buffer := sm_payload m @ drop (unat (sm_length m)) (sm_buffer sm1)\<rparr>"
  have r: "receive_stream bs sm1 = Cont (0, ?sm, [])"
    using receive_sent [OF ok assms(5,2), of "[]"] by simp
  have "register_name ?sm = Cont name" if l: "length name \<noteq> 255"
  proof -
    have "drop (Suc (length name)) (sm_buffer sm1) \<noteq> []" using len l assms(5) by simp
    then obtain x t where d: "drop (Suc (length name)) (sm_buffer sm1) = x # t"
      by (cases "drop (Suc (length name)) (sm_buffer sm1)") auto
    then have "drop 1 ((?p @ drop (Suc (length name)) (sm_buffer sm1))[Suc (length name) := 0]) = name @ 0 # t"
      by simp
    moreover have "takeWhile (\<lambda>b. b \<noteq> 0) (name @ 0 # t) = name"
      using assms(3) by (induction name) auto
    ultimately show ?thesis using len l by (simp add: register_name_def ul pay [unfolded ul] Let_def)
  qed
  moreover have "register_name ?sm = Out_Of_Bounds" if "length name = 255"
    using that by (simp add: register_name_def ul)
  ultimately show ?thesis using r by auto
qed

theorem calc_register_name_witness:
  "\<exists>m bs sm. register_me [] [65, 66] \<lparr>sm_addr = [], sm_length = 0, sm_buffer = replicate 256 0\<rparr> = Cont m \<and>
     send_stream m = Cont bs \<and>
     receive_stream bs \<lparr>sm_addr = [], sm_length = 0, sm_buffer = replicate 256 9\<rparr> = Cont (0, sm, []) \<and>
     register_name sm = Cont [65, 66]"
proof -
  let ?sm0 = "\<lparr>sm_addr = [], sm_length = 0, sm_buffer = replicate 256 0\<rparr>"
  obtain m where m: "register_me [] [65, 66] ?sm0 = Cont m" by (simp add: register_me_def)
  then have "sm_length m = 3" by (auto simp: register_me_def sm_init_def)
  then obtain bs where bs: "send_stream m = Cont bs" by (simp add: send_stream_def)
  show ?thesis
    using calc_register_name [OF m bs, of "\<lparr>sm_addr = [], sm_length = 0, sm_buffer = replicate 256 9\<rparr>"] m bs
    by auto
qed

end
