(* ===== verification/Calc_Server.thy ===== *)
theory Calc_Server
  imports Calc_Client
begin

text \<open>
  The threads of the calculator server: the listener (\<open>cw10/zad1/src/server_listen.c\<close>), the
  pinger (\<open>server_pinger.c\<close>), the accept threads (\<open>server_accept.c\<close>) and the prompt loop of
  \<open>server.c\<close>.  The state adds to the table the number of the next request and the results
  printed (request, value, client's name).
\<close>

record calc =
  srv :: server
  current_request_id :: "32 word"
  results :: "(32 word \<times> double \<times> byte list) list"

subsection \<open>server\_listen.c\<close>

definition handle_pong :: "int \<Rightarrow> server \<Rightarrow> server" where
  "handle_pong client_id sv =
     sv\<lparr>clients := (clients sv)[nat client_id := (clients sv ! nat client_id)\<lparr>cl_inactivity := 0\<rparr>]\<rparr>"

definition handle_response :: "int \<Rightarrow> socket_message \<Rightarrow> calc \<Rightarrow> calc" where
  "handle_response client_id sm k =
     (if sm_length sm \<noteq> 1 + 16 then k
      else
        let resp = bytes_response (take 16 (drop 1 (sm_buffer sm)))
        in k\<lparr>results := results k @ [(resp_id resp, resp_result resp, cl_name (clients (srv k) ! nat client_id))]\<rparr>)"

text \<open>The body of \<open>thread_listen\<close> once a message has been received on a socket.\<close>

definition listen_message :: "transport \<Rightarrow> int \<Rightarrow> socket_message \<Rightarrow> calc \<Rightarrow> calc outcome" where
  "listen_message tr sock sm k =
     (let msg_type = sm_buffer sm ! 0;
          client_id = (if tr = DATAGRAM then client_for_addr (sm_addr sm) (srv k) else client_for_sock sock (srv k))
      in if client_id < 0 \<and> msg_type \<noteq> MSG_TYPE_REGISTER \<and> msg_type \<noteq> MSG_TYPE_UNREGISTER then Cont k
         else if msg_type = MSG_TYPE_REGISTER then
           (case register_client tr sock sm (srv k) of
              Cont sv \<Rightarrow> Cont (k\<lparr>srv := sv\<rparr>) | Exit i \<Rightarrow> Exit i | Out_Of_Bounds \<Rightarrow> Out_Of_Bounds)
         else if msg_type = MSG_TYPE_UNREGISTER then Cont (k\<lparr>srv := unregister_client tr client_id (srv k)\<rparr>)
         else if msg_type = MSG_TYPE_PONG then Cont (k\<lparr>srv := handle_pong client_id (srv k)\<rparr>)
         else if msg_type = MSG_TYPE_RESPONSE then Cont (handle_response client_id sm k)
         else Cont k)"

subsection \<open>server\_pinger.c\<close>

abbreviation CONF_INACTIVITY_MAX :: int where "CONF_INACTIVITY_MAX \<equiv> 3"

definition ping_slot :: "transport \<Rightarrow> nat \<Rightarrow> server \<Rightarrow> server" where
  "ping_slot tr i sv =
     (let c = clients sv ! i in
      if \<not> cl_active c then sv
      else if CONF_INACTIVITY_MAX < cl_inactivity c then
        close_sock tr (cl_sock c) (sv\<lparr>clients := (clients sv)[i := c\<lparr>cl_active := False\<rparr>]\<rparr>)
      else
        send_sm (cl_sock c) (cl_addr c) [MSG_TYPE_PING]
          (sv\<lparr>clients := (clients sv)[i := c\<lparr>cl_inactivity := cl_inactivity c + 1\<rparr>]\<rparr>))"

definition pinger_round :: "transport \<Rightarrow> server \<Rightarrow> server" where
  "pinger_round tr sv = fold (ping_slot tr) [0..<CONF_CLIENTS_MAX] sv"

subsection \<open>server\_accept.c\<close>

text \<open>
  One connection: \<open>addr\<close> is the peer's address, \<open>s\<close> the bytes it sends.  A connection whose
  first message is incomplete or not a registration is forgotten without being closed.
\<close>

definition accept_connection ::
    "int \<Rightarrow> addr_t \<Rightarrow> byte list \<Rightarrow> socket_message \<Rightarrow> server \<Rightarrow> server outcome" where
  "accept_connection sock addr s sm0 sv =
     (case receive_stream s sm0 of
        Cont (r, sm, s') \<Rightarrow>
          if r \<noteq> 0 then Cont sv
          else if sm_buffer sm ! 0 \<noteq> MSG_TYPE_REGISTER then Cont sv
          else register_client STREAM sock (sm\<lparr>sm_addr := addr\<rparr>) sv
      | Exit i \<Rightarrow> Exit i
      | Out_Of_Bounds \<Rightarrow> Out_Of_Bounds)"

subsection \<open>server.c\<close>

definition send_request :: "int \<Rightarrow> request_t \<Rightarrow> server \<Rightarrow> server" where
  "send_request clid req sv =
     (let c = clients sv ! nat clid in send_sm (cl_sock c) (cl_addr c) (MSG_TYPE_REQUEST # request_bytes req) sv)"

text \<open>
  \<open>line\<close> is what \<open>getline\<close> gave, if anything; \<open>ok\<close> says whether the message could be sent.
\<close>

definition read_request ::
    "(string \<Rightarrow> double \<times> string) \<Rightarrow> bool \<Rightarrow> string option \<Rightarrow> request_t \<Rightarrow> calc \<Rightarrow> (int \<times> calc) outcome" where
  "read_request strtod ok line req0 k =
     (case line of
        None \<Rightarrow> Cont (1, k)
      | Some l \<Rightarrow>
          let l' = dropWhile (\<lambda>c. c = CHR '' '') l in
          if l' = [] \<or> hd l' = NL then Cont (1, k)
          else (case parse_request strtod l' (req0\<lparr>req_id := current_request_id k\<rparr>) of
              Out_Of_Bounds \<Rightarrow> Out_Of_Bounds
            | Exit i \<Rightarrow> Exit i
            | Cont (r, req) \<Rightarrow>
                if r \<noteq> 0 then Cont (1, k)
                else
                  let (clid, sv) = next_free_client (srv k)
                  in if clid < 0 then Cont (1, k\<lparr>srv := sv\<rparr>)
                     else if \<not> ok then Cont (1, k\<lparr>srv := sv\<rparr>)
                     else Cont (0, k\<lparr>srv := send_request clid req sv,
                                     current_request_id := current_request_id k + 1\<rparr>)))"

text \<open>
  \<open>cleanup\<close>: the threads other than the listener are cancelled, the clients told.
\<close>

definition server_cleanup :: "transport \<Rightarrow> calc \<Rightarrow> calc" where
  "server_cleanup tr k = k\<lparr>srv := teardown_clients tr (srv k)\<rparr>"

lemmas [handler_defs] = handle_pong_def handle_response_def listen_message_def ping_slot_def
  send_request_def

subsection \<open>A round of the pinger\<close>

definition ping_client :: "client_t \<Rightarrow> client_t" where
  "ping_client c = (if \<not> cl_active c then c
     else if CONF_INACTIVITY_MAX < cl_inactivity c then c\<lparr>cl_active := False\<rparr>
     else c\<lparr>cl_inactivity := cl_inactivity c + 1\<rparr>)"

abbreviation pinged :: "client_t \<Rightarrow> bool" where
  "pinged c \<equiv> cl_active c \<and> cl_inactivity c \<le> CONF_INACTIVITY_MAX"

abbreviation ping_to :: "client_t \<Rightarrow> int \<times> addr_t \<times> byte list" where
  "ping_to c \<equiv> (cl_sock c, cl_addr c, [MSG_TYPE_PING])"

text \<open>The loop pings or drops every slot once, in order.\<close>

lemma ping_slot_effect:
  "clients (ping_slot tr i sv) = (clients sv)[i := ping_client (clients sv ! i)]"
  "sent (ping_slot tr i sv) = sent sv @ (if pinged (clients sv ! i) then [ping_to (clients sv ! i)] else [])"
  "free_cl (ping_slot tr i sv) = free_cl sv"
  by (auto simp: ping_slot_def ping_client_def close_sock_def send_sm_def Let_def)

lemma pinger_round_effect:
  assumes "length (clients sv) = CONF_CLIENTS_MAX"
  shows "clients (pinger_round tr sv) = map ping_client (clients sv)"
    and "sent (pinger_round tr sv) = sent sv @ map ping_to (filter pinged (clients sv))"
    and "free_cl (pinger_round tr sv) = free_cl sv"
proof -
  note F = slot_fold [where f = "ping_slot tr" and n = CONF_CLIENTS_MAX and sv = sv, OF ping_slot_effect(1)]
  show "clients (pinger_round tr sv) = map ping_client (clients sv)"
    and "sent (pinger_round tr sv) = sent sv @ map ping_to (filter pinged (clients sv))"
    using F [where acc = sent, OF ping_slot_effect(2)] assms by (simp_all add: pinger_round_def fold_sends)
  have "fold (\<lambda>c x. x) cs x = x" for cs :: "client_t list" and x :: int by (induction cs) auto
  then show "free_cl (pinger_round tr sv) = free_cl sv"
    using F [where acc = free_cl and h = "\<lambda>c x. x", OF ping_slot_effect(3)] assms by (simp add: pinger_round_def)
qed

lemma ping_client_same [simp]: "cl_sock (ping_client c) = cl_sock c" "cl_addr (ping_client c) = cl_addr c"
    "cl_name (ping_client c) = cl_name c"
  by (simp_all add: ping_client_def)

text \<open>Several rounds: the counter of a silent client.\<close>

lemma pinger_rounds_clients:
  assumes "length (clients sv) = CONF_CLIENTS_MAX"
  shows "clients ((pinger_round tr ^^ n) sv) = map (ping_client ^^ n) (clients sv)"
  using assms
proof (induction n)
  case (Suc n)
  then have "length (clients ((pinger_round tr ^^ n) sv)) = CONF_CLIENTS_MAX" by simp
  then show ?case using Suc by (simp add: pinger_round_effect o_def)
qed simp

lemma silent_client:
  assumes "cl_active c" and "cl_inactivity c = 0" and "n \<le> 4"
  shows "(ping_client ^^ n) c = c\<lparr>cl_inactivity := int n\<rparr>"
  using assms by (induction n) (auto simp: ping_client_def)

lemma silent_client_dropped:
  assumes "cl_active c" and "cl_inactivity c = 0"
  shows "\<not> cl_active ((ping_client ^^ 5) c)"
proof -
  have "(ping_client ^^ 5) c = ping_client ((ping_client ^^ 4) c)" by (simp add: eval_nat_numeral)
  then show ?thesis using silent_client [OF assms, of 4] assms by (simp add: ping_client_def)
qed

lemma count_unique_key:
  assumes "i < length cs" and "\<And>j. j < length cs \<Longrightarrow> j \<noteq> i \<Longrightarrow> f (cs ! j) \<noteq> f (cs ! i)"
  shows "count_list (map f (filter P cs)) (f (cs ! i)) = (if P (cs ! i) then 1 else 0)"
proof -
  have cs: "cs = take i cs @ cs ! i # drop (Suc i) cs" using assms(1) by (simp add: id_take_nth_drop)
  have other: "f x \<noteq> f (cs ! i)" if x: "x \<in> set (take i cs) \<or> x \<in> set (drop (Suc i) cs)" for x
  proof -
    from x consider k where "k < length (take i cs)" "x = take i cs ! k"
      | k where "k < length (drop (Suc i) cs)" "x = drop (Suc i) cs ! k"
      by (metis in_set_conv_nth)
    then have "\<exists>j < length cs. j \<noteq> i \<and> x = cs ! j"
    proof cases
      case 1
      then show ?thesis by (intro exI [of _ k]) auto
    next
      case 2
      then show ?thesis by (intro exI [of _ "Suc i + k"]) auto
    qed
    then show ?thesis using assms(2) by auto
  qed
  then have "f (cs ! i) \<notin> set (map f (filter P (take i cs)))" "f (cs ! i) \<notin> set (map f (filter P (drop (Suc i) cs)))"
    by force+
  then have "count_list (map f (filter P (take i cs @ cs ! i # drop (Suc i) cs))) (f (cs ! i)) = (if P (cs ! i) then 1 else 0)"
    by (simp add: count_list_0_iff)
  then show ?thesis using cs by simp
qed

lemma pings_counted:
  assumes "length (clients sv) = CONF_CLIENTS_MAX" and "i < CONF_CLIENTS_MAX"
    and "\<forall>j < CONF_CLIENTS_MAX. j \<noteq> i \<longrightarrow> (cl_sock (clients sv ! j), cl_addr (clients sv ! j)) \<noteq>
      (cl_sock (clients sv ! i), cl_addr (clients sv ! i))"
  shows "count_list (sent (pinger_round tr sv)) (ping_to (clients sv ! i)) =
    count_list (sent sv) (ping_to (clients sv ! i)) + (if pinged (clients sv ! i) then 1 else 0)"
  using count_unique_key [of i "clients sv" ping_to pinged] assms
  by (simp add: pinger_round_effect)

lemma ping_client_iter_same:
  "cl_sock ((ping_client ^^ n) c) = cl_sock c" "cl_addr ((ping_client ^^ n) c) = cl_addr c"
  by (induction n) auto

lemma silent_pings:
  assumes "length (clients sv) = CONF_CLIENTS_MAX" and "i < CONF_CLIENTS_MAX"
    and "\<forall>j < CONF_CLIENTS_MAX. j \<noteq> i \<longrightarrow> (cl_sock (clients sv ! j), cl_addr (clients sv ! j)) \<noteq>
      (cl_sock (clients sv ! i), cl_addr (clients sv ! i))"
    and "cl_active (clients sv ! i)" and "cl_inactivity (clients sv ! i) = 0" and "n \<le> 5"
  shows "count_list (sent ((pinger_round tr ^^ n) sv)) (ping_to (clients sv ! i)) =
    count_list (sent sv) (ping_to (clients sv ! i)) + min n 4"
  using assms(6)
proof (induction n)
  case (Suc n)
  let ?sv = "(pinger_round tr ^^ n) sv"
  have cl: "clients ?sv = map (ping_client ^^ n) (clients sv)" using assms(1) by (rule pinger_rounds_clients)
  have ci: "clients ?sv ! i = (clients sv ! i)\<lparr>cl_inactivity := int n\<rparr>"
    using cl silent_client [OF assms(4,5), of n] Suc.prems assms(1,2) by simp
  have "count_list (sent (pinger_round tr ?sv)) (ping_to (clients ?sv ! i)) =
      count_list (sent ?sv) (ping_to (clients ?sv ! i)) + (if pinged (clients ?sv ! i) then 1 else 0)"
    using assms(1-3) cl by (intro pings_counted) (simp_all add: ping_client_iter_same)
  then show ?case using Suc ci assms(4) by (auto simp: min_def)
qed simp

lemma handle_pong_same:
  "length (clients (handle_pong cid sv)) = length (clients sv)"
  "free_cl (handle_pong cid sv) = free_cl sv"
  by (simp_all add: handle_pong_def)

subsection \<open>Interleaved registrations\<close>

text \<open>
  A registering thread is either waiting for a connection or between the lookup of the name
  and the insertion.  The other threads act on the table at any time.
\<close>

datatype accept_pc = Accepting | Checked int addr_t "byte list"

inductive accept_step :: "transport \<Rightarrow> server \<times> accept_pc list \<Rightarrow> server \<times> accept_pc list \<Rightarrow> bool" for tr where
  lookup_taken: "i < length pcs \<Longrightarrow> pcs ! i = Accepting \<Longrightarrow> length (sm_buffer sm) = DATAGRAM_SIZE \<Longrightarrow>
    register_name sm = Cont name \<Longrightarrow> is_name_taken name sv \<Longrightarrow>
    accept_step tr (sv, pcs) (refuse_client sock (sm_addr sm) sv, pcs)"
| lookup_free: "i < length pcs \<Longrightarrow> pcs ! i = Accepting \<Longrightarrow> length (sm_buffer sm) = DATAGRAM_SIZE \<Longrightarrow>
    register_name sm = Cont name \<Longrightarrow> \<not> is_name_taken name sv \<Longrightarrow>
    accept_step tr (sv, pcs) (sv, pcs[i := Checked sock (sm_addr sm) name])"
| insertion: "i < length pcs \<Longrightarrow> pcs ! i = Checked sock addr name \<Longrightarrow>
    insert_client tr sock addr name sv = Cont sv' \<Longrightarrow>
    accept_step tr (sv, pcs) (sv', pcs[i := Accepting])"
| unregister: "cid < int CONF_CLIENTS_MAX \<Longrightarrow>
    accept_step tr (sv, pcs) (unregister_client tr cid sv, pcs)"
| pong: "0 \<le> cid \<Longrightarrow> cid < int CONF_CLIENTS_MAX \<Longrightarrow> accept_step tr (sv, pcs) (handle_pong cid sv, pcs)"
| ping: "accept_step tr (sv, pcs) (pinger_round tr sv, pcs)"

inductive_cases accept_stepE: "accept_step tr (sv, pcs) st"

lemma table_map_inv:
  assumes "table_ok sv" and "names_distinct (clients sv)"
    and "\<And>c. cl_active (f c) \<Longrightarrow> cl_active c" and "\<And>c. cl_name (f c) = cl_name c"
    and "\<And>c. cl_active (f c) \<Longrightarrow> 0 \<le> cl_inactivity c \<Longrightarrow> cl_inactivity c \<le> 4 \<Longrightarrow>
      0 \<le> cl_inactivity (f c) \<and> cl_inactivity (f c) \<le> 4"
    and "clients sv' = map f (clients sv)" and "free_cl sv' = free_cl sv"
  shows "table_ok sv' \<and> names_distinct (clients sv')"
  using assms by (auto simp: table_ok_def names_distinct_def)

lemma pinger_round_inv:
  assumes "table_ok sv" and "names_distinct (clients sv)"
  shows "table_ok (pinger_round tr sv) \<and> names_distinct (clients (pinger_round tr sv))"
proof (rule table_map_inv [OF assms])
  have "length (clients sv) = CONF_CLIENTS_MAX" using assms(1) by (simp add: table_ok_def)
  note e = pinger_round_effect [OF this]
  show "clients (pinger_round tr sv) = map ping_client (clients sv)" "free_cl (pinger_round tr sv) = free_cl sv"
    by (rule e)+
qed (auto simp: ping_client_def split: if_splits)

lemma handle_pong_inv:
  assumes "table_ok sv" and "names_distinct (clients sv)" and "0 \<le> cid" and "cid < int CONF_CLIENTS_MAX"
  shows "table_ok (handle_pong cid sv) \<and> names_distinct (clients (handle_pong cid sv))"
proof -
  let ?d = "(clients sv ! nat cid)\<lparr>cl_inactivity := 0\<rparr>"
  have "clients sv ! nat cid \<in> set (clients sv)" using assms(1,3,4) by (simp add: table_ok_def)
  then have "table_ok (sv\<lparr>clients := (clients sv)[nat cid := ?d]\<rparr>)"
    using assms(1) by (intro table_ok_update) (auto simp: table_ok_def)
  moreover have "names_distinct ((clients sv)[nat cid := ?d])"
    using assms(2) by (intro names_distinct_same) auto
  ultimately show ?thesis by (simp add: handle_pong_def)
qed

lemma name_stays_free:
  assumes "\<not> is_name_taken name sv" and "\<And>d. d \<in> set (clients sv') \<Longrightarrow> cl_active d \<Longrightarrow>
    \<exists>c \<in> set (clients sv). cl_active c \<and> cl_name c = cl_name d"
  shows "\<not> is_name_taken name sv'"
  using assms by (fastforce simp: is_name_taken_iff)

lemma unregister_actives:
  "d \<in> set (clients (unregister_client tr cid sv)) \<Longrightarrow> cl_active d \<Longrightarrow> d \<in> set (clients sv)"
  by (auto simp: unregister_client_def close_sock_def Let_def split: if_splits
      dest!: subsetD [OF set_update_subset_insert])

lemma pong_actives:
  assumes "d \<in> set (clients (handle_pong cid sv))" and "cl_active d" and "nat cid < length (clients sv)"
  shows "\<exists>c \<in> set (clients sv). cl_active c \<and> cl_name c = cl_name d"
  using assms nth_mem [OF assms(3)]
  by (auto simp: handle_pong_def dest!: subsetD [OF set_update_subset_insert])

lemma ping_actives:
  assumes "d \<in> set (clients (pinger_round tr sv))" and "cl_active d" and "length (clients sv) = CONF_CLIENTS_MAX"
  shows "\<exists>c \<in> set (clients sv). cl_active c \<and> cl_name c = cl_name d"
  using assms by (auto simp: pinger_round_effect ping_client_def split: if_splits)


text \<open>The invariant of a single registering thread: a name that was looked up stays free.\<close>

definition one_thread_inv :: "server \<times> accept_pc list \<Rightarrow> bool" where
  "one_thread_inv st \<longleftrightarrow> (case st of (sv, pcs) \<Rightarrow>
     length pcs = 1 \<and> table_ok sv \<and> names_distinct (clients sv) \<and>
     (\<forall>sock addr name. pcs ! 0 = Checked sock addr name \<longrightarrow>
        \<not> is_name_taken name sv \<and> length name < CONF_CLIENT_NAME_MAX \<and> 0 \<notin> set name))"

lemma one_thread_env:
  assumes "one_thread_inv (sv, pcs)" and "table_ok sv' \<and> names_distinct (clients sv')"
    and "\<And>d. d \<in> set (clients sv') \<Longrightarrow> cl_active d \<Longrightarrow> \<exists>c \<in> set (clients sv). cl_active c \<and> cl_name c = cl_name d"
  shows "one_thread_inv (sv', pcs)"
  using assms name_stays_free [of _ sv sv'] by (auto simp: one_thread_inv_def)

lemma one_thread_step:
  assumes "accept_step tr st st'" and "one_thread_inv st"
  shows "one_thread_inv st'"
  using assms
proof (induction rule: accept_step.induct)
  case (lookup_taken i pcs sm name sv sock)
  then show ?case
    by (auto simp: one_thread_inv_def refuse_client_def send_sm_def table_ok_def is_name_taken_iff)
next
  case (lookup_free i pcs sm name sv sock)
  then show ?case using register_name_ok [of sm name] by (auto simp: one_thread_inv_def)
next
  case (insertion i pcs sock addr name sv sv')
  then have i: "i = 0" by (simp add: one_thread_inv_def)
  with insertion show ?case
    using insert_client_inv [OF insertion(3)] by (auto simp: one_thread_inv_def)
next
  case (unregister cid sv pcs)
  then show ?case
    using unregister_client_inv [of sv tr cid] unregister_actives [of _ tr cid sv]
    by (intro one_thread_env [OF unregister(2)]) (auto simp: one_thread_inv_def)
next
  case (pong cid sv pcs)
  then have ok: "table_ok sv" "names_distinct (clients sv)" by (auto simp: one_thread_inv_def)
  then have "nat cid < length (clients sv)" using pong(1,2) by (auto simp: table_ok_def)
  then show ?case
    using handle_pong_inv [OF ok pong(1,2)] pong_actives [of _ cid sv] by (intro one_thread_env [OF pong(3)]) auto
next
  case (ping sv pcs)
  then have ok: "table_ok sv" "names_distinct (clients sv)" by (auto simp: one_thread_inv_def)
  then have "length (clients sv) = CONF_CLIENTS_MAX" by (simp add: table_ok_def)
  then show ?case
    using pinger_round_inv [OF ok, of tr] ping_actives [of _ tr sv] by (intro one_thread_env [OF ping(1)]) auto
qed

lemma register_name_simple:
  assumes "0 \<notin> set name" and "length name < 255"
  shows "register_name \<lparr>sm_addr = addr, sm_length = word_of_nat (Suc (length name)), sm_buffer = t # name @ 0 # rest\<rparr> =
    Cont name"
proof -
  have "takeWhile (\<lambda>b. b \<noteq> 0) (name @ 0 # rest) = name" using assms(1) by (induction name) auto
  then show ?thesis using assms(2) by (simp add: register_name_def unat_of_nat Let_def del: of_nat_Suc)
qed

subsection \<open>Properties\<close>

text \<open>
  C11: With one registering thread, as in the datagram server, active clients never share a name,
  whatever the other threads do between the lookup of a name and its insertion.
\<close>

theorem calc_names_unique:
  assumes "(accept_step tr)\<^sup>*\<^sup>* (sv, [Accepting]) (sv', pcs)" and "table_ok sv" and "names_distinct (clients sv)"
  shows "table_ok sv' \<and> names_distinct (clients sv')"
proof -
  have "one_thread_inv (sv, [Accepting])" using assms(2,3) by (simp add: one_thread_inv_def)
  with assms(1) have "one_thread_inv (sv', pcs)"
    by (induction rule: rtranclp_induct) (auto intro: one_thread_step)
  then show ?thesis by (simp add: one_thread_inv_def)
qed

definition empty_server :: server where
  "empty_server = \<lparr>clients = [calc_client [] False, calc_client [] False] @ replicate 14 (calc_client [] False),
     free_cl = 0, polled = [], closed = [], sent = []\<rparr>"

lemma empty_server_ok: "table_ok empty_server \<and> names_distinct (clients empty_server)"
proof -
  have "\<forall>c \<in> set (clients empty_server). \<not> cl_active c" by (auto simp: empty_server_def calc_client_def)
  moreover have "length (clients empty_server) = CONF_CLIENTS_MAX" "free_cl empty_server = 0"
    by (simp_all add: empty_server_def)
  ultimately show ?thesis by (simp add: table_ok_def names_distinct_def)
qed

theorem calc_names_unique_witness:
  "names_distinct (clients (pinger_round STREAM empty_server))"
  using calc_names_unique [of STREAM empty_server "pinger_round STREAM empty_server" "[Accepting]"]
    accept_step.ping [of STREAM empty_server "[Accepting]"] empty_server_ok
  by blast

text \<open>
  C12: The stream server has two accept threads, and the lookup of the name is outside the lock:
  two clients that connect at the same time can both be registered under one name.
\<close>

theorem calc_duplicate_names:
  "\<exists>sv. (accept_step STREAM)\<^sup>*\<^sup>* (empty_server, [Accepting, Accepting]) (sv, [Accepting, Accepting]) \<and>
     \<not> names_distinct (clients sv)"
proof -
  define m :: "addr_t \<Rightarrow> socket_message" where "m addr =
    \<lparr>sm_addr = addr, sm_length = word_of_nat (Suc (length [65 :: byte])), sm_buffer = 0 # [65] @ 0 # replicate 253 0\<rparr>" for addr
  have name: "register_name (m addr) = Cont [65]" and buf: "length (sm_buffer (m addr)) = DATAGRAM_SIZE"
    and addr: "sm_addr (m addr) = addr" for addr
    unfolding m_def by (rule register_name_simple) simp_all
  have free: "\<not> is_name_taken [65] empty_server"
    by (auto simp: is_name_taken_iff empty_server_def calc_client_def)
  define c :: "addr_t \<Rightarrow> int \<Rightarrow> client_t" where
    "c addr sock = \<lparr>cl_addr = addr, cl_active = True, cl_sock = sock, cl_name = [65], cl_inactivity = 0\<rparr>" for addr sock
  let ?s1 = "empty_server\<lparr>clients := (clients empty_server)[0 := c [1] 5], polled := [5]\<rparr>"
  let ?s2 = "?s1\<lparr>clients := (clients ?s1)[1 := c [2] 6], polled := [6, 5]\<rparr>"
  let ?p0 = "[Accepting, Accepting]" and ?p1 = "[Checked 5 [1] [65], Accepting]"
    and ?p2 = "[Checked 5 [1] [65], Checked 6 [2] [65]]" and ?p3 = "[Accepting, Checked 6 [2] [65]]"
  have "accept_step STREAM (empty_server, ?p0) (empty_server, ?p1)"
    using accept_step.lookup_free [of 0 ?p0 "m [1]" "[65]" empty_server STREAM 5] name buf free addr by simp
  moreover have "accept_step STREAM (empty_server, ?p1) (empty_server, ?p2)"
    using accept_step.lookup_free [of 1 ?p1 "m [2]" "[65]" empty_server STREAM 6] name buf free addr by simp
  moreover have "insert_client STREAM 5 [1] [65] empty_server = Cont ?s1"
    by (simp add: insert_client_def client_freeid_def empty_server_def calc_client_def add_to_poll_def c_def)
  then have "accept_step STREAM (empty_server, ?p2) (?s1, ?p3)"
    using accept_step.insertion [of 0 ?p2 5 "[1]" "[65]" STREAM empty_server ?s1] by simp
  moreover have "insert_client STREAM 6 [2] [65] ?s1 = Cont ?s2"
    by (simp add: insert_client_def client_freeid_def empty_server_def calc_client_def add_to_poll_def c_def)
  then have "accept_step STREAM (?s1, ?p3) (?s2, ?p0)"
    using accept_step.insertion [of 1 ?p3 6 "[2]" "[65]" STREAM ?s1 ?s2] by simp
  ultimately have "(accept_step STREAM)\<^sup>*\<^sup>* (empty_server, ?p0) (?s2, ?p0)"
    by (meson converse_rtranclp_into_rtranclp rtranclp.rtrancl_refl)
  moreover have "\<not> names_distinct (clients ?s2)"
  proof
    assume "names_distinct (clients ?s2)"
    from this [unfolded names_distinct_def, rule_format, of 0 1] show False
      by (simp add: empty_server_def c_def)
  qed
  ultimately show ?thesis by blast
qed



definition one_client_server :: server where
  "one_client_server = empty_server\<lparr>clients := calc_client [65] True # replicate 15 ((calc_client [] False)\<lparr>cl_sock := 0\<rparr>)\<rparr>"

lemma one_client_server_ok: "table_ok one_client_server"
  by (auto simp: table_ok_def one_client_server_def empty_server_def calc_client_def)


text \<open>
  A client that answers at least one of every four pings is never dropped by the pinger.
\<close>

theorem calc_pong_keeps:
  assumes "table_ok sv" and "i < CONF_CLIENTS_MAX" and "cl_active (clients sv ! i)"
    and "cl_inactivity (clients sv ! i) = 0" and "\<forall>k \<in> set ks. k \<le> 4"
  shows "cl_active (clients (fold (\<lambda>k sv. handle_pong (int i) ((pinger_round tr ^^ k) sv)) ks sv) ! i)"
proof -
  have "length (clients sv) = CONF_CLIENTS_MAX" using assms(1) by (simp add: table_ok_def)
  then show ?thesis
    using assms(3-5)
  proof (induction ks arbitrary: sv)
    case (Cons k ks)
    let ?sv = "handle_pong (int i) ((pinger_round tr ^^ k) sv)"
    have "clients ((pinger_round tr ^^ k) sv) = map (ping_client ^^ k) (clients sv)"
      using Cons.prems(1) by (rule pinger_rounds_clients)
    then have "length (clients ?sv) = CONF_CLIENTS_MAX"
      and "clients ?sv ! i = (clients sv ! i)\<lparr>cl_inactivity := 0\<rparr>"
      using Cons.prems silent_client [of "clients sv ! i" k] assms(2) by (simp_all add: handle_pong_def)
    then show ?case using Cons.IH [of ?sv] Cons.prems by simp
  qed simp
qed

theorem calc_pong_keeps_witness:
  "cl_active (clients (fold (\<lambda>k sv. handle_pong (int 0) ((pinger_round DATAGRAM ^^ k) sv)) [4, 1, 3] one_client_server) ! 0)"
  using calc_pong_keeps [OF one_client_server_ok, of 0 "[4, 1, 3]" DATAGRAM]
  by (simp add: one_client_server_def calc_client_def)

text \<open>
  A client of the stream server that sends a second registration, under a name that is free,
  ends the server: its socket is in the epoll set already, and adding it again is fatal.
\<close>

theorem calc_second_register_exits:
  assumes "register_name sm = Cont name" and "\<not> is_name_taken name (srv k)" and "sock \<in> set (polled (srv k))"
    and "\<exists>c \<in> set (clients (srv k)). \<not> cl_active c" and "sm_buffer sm ! 0 = MSG_TYPE_REGISTER"
  shows "listen_message STREAM sock sm k = Exit (-1)"
proof -
  have "\<not> client_freeid (srv k) < 0" using assms(4) by (auto simp: client_freeid_full)
  then have "register_client STREAM sock sm (srv k) = Exit (-1)"
    using assms(1-3) by (simp add: register_client_def insert_client_def add_to_poll_def Let_def)
  then show ?thesis using assms(5) by (simp add: listen_message_def Let_def)
qed

theorem calc_second_register_exits_witness:
  "\<exists>sm. listen_message STREAM 5 sm \<lparr>srv = empty_server\<lparr>polled := [5]\<rparr>, current_request_id = 0, results = []\<rparr> = Exit (-1)"
proof -
  let ?sm = "\<lparr>sm_addr = [], sm_length = word_of_nat (Suc (length [65 :: byte])), sm_buffer = 0 # [65] @ 0 # replicate 253 0\<rparr>"
  have "register_name ?sm = Cont [65]" by (rule register_name_simple) simp_all
  then have "listen_message STREAM 5 ?sm \<lparr>srv = empty_server\<lparr>polled := [5]\<rparr>, current_request_id = 0, results = []\<rparr> = Exit (-1)"
    by (rule calc_second_register_exits) (auto simp: is_name_taken_iff empty_server_def calc_client_def)
  then show ?thesis by blast
qed

lemma read_request_sends:
  assumes "read_request strtod ok line req0 k = Cont (0, k')" and "table_ok (srv k)"
  shows "\<exists>l req i. line = Some l \<and>
    parse_request strtod (dropWhile (\<lambda>c. c = CHR '' '') l) (req0\<lparr>req_id := current_request_id k\<rparr>) = Cont (0, req) \<and>
    i < CONF_CLIENTS_MAX \<and> cl_active (clients (srv k) ! i) \<and> clients (srv k') = clients (srv k) \<and>
    sent (srv k') = sent (srv k) @ [(cl_sock (clients (srv k) ! i), cl_addr (clients (srv k) ! i),
      MSG_TYPE_REQUEST # request_bytes req)] \<and>
    current_request_id k' = current_request_id k + 1 \<and> results k' = results k"
proof -
  obtain l req where l: "line = Some l"
    "parse_request strtod (dropWhile (\<lambda>c. c = CHR '' '') l) (req0\<lparr>req_id := current_request_id k\<rparr>) = Cont (0, req)"
    using assms(1) by (auto simp: read_request_def Let_def split: option.splits if_splits outcome.splits prod.splits)
  obtain clid sv where nx: "next_free_client (srv k) = (clid, sv)" by fastforce
  have clid: "\<not> clid < 0" and k': "k' = k\<lparr>srv := send_request clid req sv, current_request_id := current_request_id k + 1\<rparr>"
    using assms(1) l nx by (auto simp: read_request_def Let_def split: if_splits)
  obtain p where p: "free_cl (srv k) = int p" using assms(2) by (metis table_ok_def nonneg_int_cases)
  show ?thesis
  proof (cases "filter (active_in (srv k)) (cycle p)")
    case Nil
    then show ?thesis using next_free_client_cycle(1) [OF p] nx clid by simp
  next
    case (Cons a rest)
    then have "a \<in> set (filter (active_in (srv k)) (cycle p))" by simp
    then have a: "a < CONF_CLIENTS_MAX" "cl_active (clients (srv k) ! a)" by auto
    from next_free_client_cycle(2) [OF p Cons] nx have "clid = int a" "sv = (srv k)\<lparr>free_cl := int (a + 1)\<rparr>" by auto
    then show ?thesis using l a by (auto simp: k' send_request_def send_sm_def Let_def)
  qed
qed

text \<open>The value a request stands for.\<close>

definition request_value :: "fpu \<Rightarrow> request_t \<Rightarrow> double" where
  "request_value fp req =
     (if req_type req = ADDITION then fp_add fp (req_left req) (req_right req)
      else if req_type req = SUBTRACTION then fp_sub fp (req_left req) (req_right req)
      else if req_type req = MULTIPLICATION then fp_mul fp (req_left req) (req_right req)
      else fp_div fp (req_left req) (req_right req))"

lemma parse_request_type:
  "parse_request strtod l req0 = Cont (0, req) \<Longrightarrow> req_type req \<in> {0, 1, 2, 3} \<and> req_id req = req_id req0"
  by (auto simp: parse_request_def Let_def split: prod.splits list.splits if_splits)

lemma process_request_value:
  "req_type req \<in> {0, 1, 2, 3} \<Longrightarrow>
   process_request fp req resp0 = (0, resp0\<lparr>resp_id := req_id req, resp_result := request_value fp req\<rparr>)"
  by (auto simp: process_request_def request_value_def Let_def)


lemma sm_init_sent:
  assumes "length payload \<le> DATAGRAM_SIZE" and "length (sm_buffer sm0) = DATAGRAM_SIZE"
  shows "sm_ok (sm_init addr payload sm0)" and "sm_payload (sm_init addr payload sm0) = payload"
    and "sm_length (sm_init addr payload sm0) = word_of_nat (length payload)"
proof -
  have "unat (word_of_nat (length payload) :: uint16_t) = length payload"
    using assms(1) by (simp add: unat_of_nat)
  then show "sm_ok (sm_init addr payload sm0)" "sm_payload (sm_init addr payload sm0) = payload"
    "sm_length (sm_init addr payload sm0) = word_of_nat (length payload)"
    using assms by (simp_all add: sm_init_def sm_ok_def)
qed

definition socks_distinct :: "server \<Rightarrow> bool" where
  "socks_distinct sv \<longleftrightarrow> (\<forall>i < length (clients sv). \<forall>j < length (clients sv). i \<noteq> j \<longrightarrow>
     active_in sv i \<longrightarrow> active_in sv j \<longrightarrow> cl_sock (clients sv ! i) \<noteq> cl_sock (clients sv ! j))"

lemma client_for_sock_unique:
  assumes "socks_distinct sv" and "i < length (clients sv)" and "active_in sv i"
  shows "client_for_sock (cl_sock (clients sv ! i)) sv = int i"
proof -
  let ?P = "\<lambda>c. cl_active c \<and> cl_sock (clients sv ! i) = cl_sock c"
  have "clients sv ! i \<in> set (clients sv)" using assms(2) by simp
  then have "first_slot ?P 0 (clients sv) \<noteq> -1" using assms(3) by (auto simp: first_slot_none)
  from first_slot_some [OF this] obtain k where "k < length (clients sv)" "first_slot ?P 0 (clients sv) = int k"
    "?P (clients sv ! k)" by auto
  moreover have "k = i"
  proof (rule ccontr)
    assume "k \<noteq> i"
    then have "cl_sock (clients sv ! i) \<noteq> cl_sock (clients sv ! k)"
      using assms calculation(1,3) unfolding socks_distinct_def by blast
    then show False using calculation(3) by blast
  qed
  ultimately have "first_slot ?P 0 (clients sv) = int i" by blast
  then show ?thesis unfolding client_for_sock_def .
qed

text \<open>
  C9: From the prompt to the printed result: when \<open>read_request\<close> accepts a line, the message it
  sends makes the client at the other end reply, and the listener, receiving the reply on that
  client's socket, prints the request's number, the value of the operation and that client's
  name, and nothing else changes.
\<close>

theorem calc_end_to_end:
  assumes "read_request strtod ok line req0 k = Cont (0, k')" and "table_ok (srv k)" and "socks_distinct (srv k)"
    and "4 \<le> length pad" and "\<forall>sm \<in> {sm0, sm1, sm2}. length (sm_buffer sm) = DATAGRAM_SIZE"
  shows "\<exists>i req payload bs reply bs2 sm.
    sent (srv k') = sent (srv k) @ [(cl_sock (clients (srv k) ! i), cl_addr (clients (srv k) ! i), payload)] \<and>
    parse_request strtod (dropWhile (\<lambda>c. c = CHR '' '') (the line)) (req0\<lparr>req_id := current_request_id k\<rparr>) = Cont (0, req) \<and>
    send_stream (sm_init (cl_addr (clients (srv k) ! i)) payload sm0) = Cont bs \<and>
    receive_request fp pad resp0 errno0 sm1 bs c = Cont (Reply reply, [], c) \<and>
    send_stream reply = Cont bs2 \<and> receive_stream bs2 sm2 = Cont (0, sm, []) \<and>
    listen_message STREAM (cl_sock (clients (srv k) ! i)) sm k' =
      Cont (k'\<lparr>results := results k @ [(current_request_id k, request_value fp req, cl_name (clients (srv k) ! i))]\<rparr>)"
proof -
  from read_request_sends [OF assms(1,2)] obtain l req i where line: "line = Some l"
    and parse: "parse_request strtod (dropWhile (\<lambda>c. c = CHR '' '') l) (req0\<lparr>req_id := current_request_id k\<rparr>) = Cont (0, req)"
    and i: "i < CONF_CLIENTS_MAX" "active_in (srv k) i" and cl: "clients (srv k') = clients (srv k)"
    and sent: "sent (srv k') = sent (srv k) @ [(cl_sock (clients (srv k) ! i), cl_addr (clients (srv k) ! i),
      MSG_TYPE_REQUEST # request_bytes req)]" and res: "results k' = results k"
    by blast
  let ?sock = "cl_sock (clients (srv k) ! i)" and ?addr = "cl_addr (clients (srv k) ! i)"
  let ?p = "MSG_TYPE_REQUEST # request_bytes req"
  note init = sm_init_sent [of ?p sm0 ?addr]
  have ok: "sm_ok (sm_init ?addr ?p sm0)" and pay: "sm_payload (sm_init ?addr ?p sm0) = ?p"
    and len: "sm_length (sm_init ?addr ?p sm0) = 25"
    using init assms(5) by simp_all
  obtain bs where bs: "send_stream (sm_init ?addr ?p sm0) = Cont bs" using ok by (simp add: send_stream_def sm_ok_def)
  have t: "req_type req \<in> {0, 1, 2, 3}" "req_id req = current_request_id k" using parse_request_type [OF parse] by auto
  define resp where "resp = resp0\<lparr>resp_id := req_id req, resp_result := request_value fp req\<rparr>"
  have pr: "process_request fp req resp0 = (0, resp)" unfolding resp_def by (rule process_request_value [OF t(1)])
  let ?sm = "sm1\<lparr>sm_length := 25, sm_buffer := ?p @ drop 25 (sm_buffer sm1)\<rparr>"
  have rcv: "receive_stream bs sm1 = Cont (0, ?sm, [])"
    using receive_sent [OF ok _ bs, of sm1 "[]"] assms(5) pay by (simp add: len)
  have "length (sm_buffer ?sm) = DATAGRAM_SIZE" using assms(5) by simp
  with client_answers [of ?sm req "drop 25 (sm_buffer sm1)" fp resp0 resp pad c] pr assms(4)
  obtain m where m: "client_handle fp pad resp0 ?sm c = (Reply m, c)" "sm_length m = 17"
    "take 17 (sm_buffer m) = MSG_TYPE_RESPONSE # response_bytes pad resp" "sm_ok m"
    by auto
  obtain bs2 where bs2: "send_stream m = Cont bs2" using m(4) by (simp add: send_stream_def sm_ok_def)
  let ?r = "sm2\<lparr>sm_length := 17, sm_buffer := (MSG_TYPE_RESPONSE # response_bytes pad resp) @ drop 17 (sm_buffer sm2)\<rparr>"
  have r: "receive_stream bs2 sm2 = Cont (0, ?r, [])"
    using receive_sent [OF m(4) _ bs2, of sm2 "[]"] assms(5) m(2,3) by simp
  have "client_for_sock ?sock (srv k') = int i"
    using client_for_sock_unique [OF assms(3)] i assms(2) cl by (simp add: client_for_sock_def table_ok_def)
  then have "listen_message STREAM ?sock ?r k' = Cont (handle_response (int i) ?r k')"
    by (simp add: listen_message_def)
  moreover have "take 16 (response_bytes pad resp @ drop 17 (sm_buffer sm2)) = response_bytes pad resp @ []"
    using length_response_bytes [OF assms(4), of resp] by simp
  then have "handle_response (int i) ?r k' =
      k'\<lparr>results := results k @ [(current_request_id k, request_value fp req, cl_name (clients (srv k) ! i))]\<rparr>"
    using bytes_response_bytes [OF assms(4), of resp "[]"] by (simp add: handle_response_def res cl t(2) resp_def)
  moreover have "receive_request fp pad resp0 errno0 sm1 bs c = Cont (Reply m, [], c)"
    using rcv m(1) by (simp add: receive_request_def)
  ultimately show ?thesis using sent parse bs bs2 r line by (metis option.sel)
qed


theorem calc_end_to_end_witness:
  "\<exists>k' sock sm name. read_request (\<lambda>s. if s = ''6*7'' @ [NL] then (6, ''*7'' @ [NL]) else (7, [NL])) True (Some (''6*7'' @ [NL]))
       \<lparr>req_id = 0, req_type = 0, req_left = 0, req_right = 0\<rparr>
       \<lparr>srv = one_client_server, current_request_id = 3, results = []\<rparr> = Cont (0, k') \<and>
     listen_message STREAM sock sm k' = Cont (k'\<lparr>results := [(3, 42, name)]\<rparr>)"
proof -
  let ?strtod = "\<lambda>s. if s = ''6*7'' @ [NL] then (6 :: double, ''*7'' @ [NL]) else (7, [NL])"
  let ?req = "\<lparr>req_id = 0, req_type = 0, req_left = 0, req_right = 0\<rparr>"
  let ?k = "\<lparr>srv = one_client_server, current_request_id = 3, results = []\<rparr>"
  let ?sm = "\<lparr>sm_addr = [], sm_length = 0, sm_buffer = replicate 256 0\<rparr>"
  let ?fp = "\<lparr>fp_add = (+), fp_sub = (-), fp_mul = (*), fp_div = (div)\<rparr> :: fpu"
  have parse: "parse_request ?strtod (''6*7'' @ [NL]) (?req\<lparr>req_id := 3\<rparr>) =
      Cont (0, \<lparr>req_id = 3, req_type = MULTIPLICATION, req_left = 6, req_right = 7\<rparr>)"
    by (simp add: parse_request_def)
  have "next_from (clients one_client_server) 0 (Suc 15) = Some 0"
    by (subst next_from.simps) (simp add: one_client_server_def calc_client_def)
  then have "next_free_client one_client_server = (0, one_client_server\<lparr>free_cl := 1\<rparr>)"
    by (simp add: next_free_client_def one_client_server_def empty_server_def)
  then obtain k' where k': "read_request ?strtod True (Some (''6*7'' @ [NL])) ?req ?k = Cont (0, k')"
    using parse by (simp add: read_request_def)
  have "active_in one_client_server j \<Longrightarrow> j < CONF_CLIENTS_MAX \<Longrightarrow> j = 0" for j
    by (auto simp: one_client_server_def calc_client_def nth_Cons' split: if_splits)
  moreover have "length (clients one_client_server) = CONF_CLIENTS_MAX" using one_client_server_ok by (simp add: table_ok_def)
  ultimately have d: "socks_distinct one_client_server" unfolding socks_distinct_def by metis
  from calc_end_to_end [OF k', where pad = "[0, 0, 0, 0]" and fp = ?fp and ?sm0.0 = ?sm and ?sm1.0 = ?sm and ?sm2.0 = ?sm
      and ?resp0.0 = "\<lparr>resp_id = 0, resp_result = 0\<rparr>" and ?errno0.0 = False and c = "\<lparr>server_sock = 0, send_unregister = True\<rparr>"]
    one_client_server_ok d parse
  obtain i sm where "listen_message STREAM (cl_sock (clients one_client_server ! i)) sm k' =
      Cont (k'\<lparr>results := [(3, request_value ?fp \<lparr>req_id = 3, req_type = MULTIPLICATION, req_left = 6, req_right = 7\<rparr>,
        cl_name (clients one_client_server ! i))]\<rparr>)"
    by auto
  moreover have "request_value ?fp \<lparr>req_id = 3, req_type = MULTIPLICATION, req_left = 6, req_right = 7\<rparr> = 42"
    by (simp add: request_value_def)
  ultimately show ?thesis using k' by metis
qed

end
