(* ===== verification/Calc_Main.thy ===== *)
theory Calc_Main
  imports Calc_Server C_Lib
begin

text \<open>
  The two programs of the calculator network from their command lines to their ends:
  \<open>main\<close>, \<open>setup_socks\<close> and \<open>cleanup\<close> of \<open>cw10/zad1/src/server.c\<close> and \<open>main\<close> of
  \<open>client.c\<close>.  Which system calls succeed and the function \<open>inet_addr\<close> are parameters; the
  arguments are without their NULs.
\<close>

text \<open>
  How the start of a program goes: it returns before its cleanup is installed, it exits with -1,
  it overruns a buffer or follows a null pointer, or it reaches its loop.
\<close>

datatype 'a start = Usage | Failed | Crashed | Started 'a

subsection \<open>server.c\<close>

record sys_calls =
  net_socket :: bool
  local_socket :: bool
  net_bind :: bool
  local_bind :: bool
  listens :: bool
  threads :: bool

text \<open>\<open>setup_socks\<close>: the port and the path the server is bound to.\<close>

definition setup_socks :: "transport \<Rightarrow> sys_calls \<Rightarrow> int \<Rightarrow> string \<Rightarrow> (uint16_t \<times> string) start" where
  "setup_socks tr calls port local_path =
     (if \<not> net_socket calls then Failed
      else if \<not> local_socket calls then Failed
      else if 108 \<le> length local_path then Crashed
      else if \<not> net_bind calls then Failed
      else if \<not> local_bind calls then Failed
      else if tr = STREAM \<and> \<not> listens calls then Failed
      else Started (word_of_int port, local_path))"

text \<open>\<open>main\<close> up to its loop, with the threads created; \<open>sv\<close> is the table before it.\<close>

definition server_start ::
    "transport \<Rightarrow> sys_calls \<Rightarrow> int \<Rightarrow> int \<Rightarrow> string list \<Rightarrow> server \<Rightarrow> ((uint16_t \<times> string) \<times> calc) start" where
  "server_start tr calls sock_net sock_local argv sv =
     (if length argv \<noteq> 3 then Usage
      else
        let sv0 = sv\<lparr>clients := map (\<lambda>c. c\<lparr>cl_active := False\<rparr>) (clients sv)\<rparr>;
            port = atoi (argv ! 1);
            local_path = argv ! 2
        in if 107 < length local_path then Failed
           else (case setup_socks tr calls port local_path of
               Started bound \<Rightarrow>
                 if \<not> threads calls then Failed
                 else if tr = STREAM then Started (bound, \<lparr>srv = sv0, current_request_id = 0, results = []\<rparr>)
                 else (case add_to_poll sock_local sv0 of
                     Cont sv1 \<Rightarrow>
                       (case add_to_poll sock_net sv1 of
                          Cont sv2 \<Rightarrow> Started (bound, \<lparr>srv = sv2, current_request_id = 0, results = []\<rparr>)
                        | _ \<Rightarrow> Failed)
                   | _ \<Rightarrow> Failed)
             | Usage \<Rightarrow> Usage | Failed \<Rightarrow> Failed | Crashed \<Rightarrow> Crashed))"

text \<open>The loop of \<open>main\<close>, for as many lines as are read: each with whether a message can be sent.\<close>

fun server_loop :: "(string \<Rightarrow> double \<times> string) \<Rightarrow> request_t \<Rightarrow> (bool \<times> string option) list \<Rightarrow> calc \<Rightarrow> calc outcome" where
  "server_loop strtod req0 [] k = Cont k"
| "server_loop strtod req0 ((ok, line) # ls) k =
     (case read_request strtod ok line req0 k of
        Cont (r, k') \<Rightarrow> server_loop strtod req0 ls k'
      | Exit i \<Rightarrow> Exit i
      | Out_Of_Bounds \<Rightarrow> Out_Of_Bounds)"

definition teardown_socks :: "int \<Rightarrow> int \<Rightarrow> server \<Rightarrow> server" where
  "teardown_socks sock_net sock_local sv = sv\<lparr>closed := sock_local # sock_net # closed sv\<rparr>"

text \<open>An interrupt calls \<open>exit\<close>, which runs \<open>cleanup\<close>.\<close>

definition server_sighandler :: "transport \<Rightarrow> int \<Rightarrow> int \<Rightarrow> calc \<Rightarrow> int \<times> calc" where
  "server_sighandler tr sock_net sock_local k =
     (let k' = server_cleanup tr k in (0, k'\<lparr>srv := teardown_socks sock_net sock_local (srv k')\<rparr>))"

subsection \<open>client.c\<close>

datatype server_addr = Un_Addr string | In_Addr uint16_t "32 word"

definition client_start ::
    "(string \<Rightarrow> 32 word) \<Rightarrow> bool \<Rightarrow> bool \<Rightarrow> string list \<Rightarrow> (byte list \<times> server_addr) start" where
  "client_start inet_addr sock_ok connect_ok argv =
     (if length argv \<noteq> 4 then Usage
      else if CONF_CLIENT_NAME_MAX \<le> length (argv ! 1) then Crashed
      else
        let name = map of_char (argv ! 1) :: byte list;
            connected = (\<lambda>addr. if connect_ok then Started (name, addr) else Failed)
        in if argv ! 2 = ''local'' then
             (if \<not> sock_ok then Failed else if 108 \<le> length (argv ! 3) then Crashed else connected (Un_Addr (argv ! 3)))
           else if argv ! 2 = ''net'' then
             (if \<not> sock_ok then Failed
              else (case strtok '':'' (argv ! 3) of
                  (addrname, rest) \<Rightarrow>
                    (case (strtok [] rest, addrname) of
                       ((Some port, _), Some host) \<Rightarrow> connected (In_Addr (word_of_int (atoi port)) (inet_addr host))
                     | _ \<Rightarrow> Crashed)))
           else Failed)"

text \<open>Every request that is received consumes bytes of the stream.\<close>

lemma receive_request_consumes:
  assumes "receive_request fp pad resp0 errno0 sm0 s c = Cont (a, s', c')" and "s \<noteq> []"
  shows "length s' < length s"
proof -
  have "length t < length s" if "receive_stream s sm0 = Cont (r, sm, t)" for r sm t
    using that assms(2) by (auto simp: receive_stream_def Let_def split: if_splits)
  then show ?thesis using assms(1) by (auto simp: receive_request_def split: outcome.splits if_splits prod.splits)
qed

text \<open>
  The loop over the bytes the server sends: the answers and the result of the process, if it ends;
  when the stream has ended and \<open>errno\<close> is not zero it goes on for ever.
\<close>

function client_session ::
    "fpu \<Rightarrow> byte list \<Rightarrow> response_t \<Rightarrow> bool \<Rightarrow> socket_message \<Rightarrow> byte list \<Rightarrow> calc_cl \<Rightarrow>
     (socket_message list \<times> int option \<times> calc_cl) outcome" where
  "client_session fp pad resp0 errno0 sm0 s c =
     (case receive_request fp pad resp0 errno0 sm0 s c of
        Cont (a, s', c') \<Rightarrow>
          (case a of
             Quit i \<Rightarrow> Cont ([], Some i, c')
           | Ignored \<Rightarrow> if s = [] then Cont ([], None, c') else client_session fp pad resp0 errno0 sm0 s' c'
           | Reply m \<Rightarrow>
               if s = [] then Cont ([m], None, c')
               else (case client_session fp pad resp0 errno0 sm0 s' c' of
                   Cont (ms, r) \<Rightarrow> Cont (m # ms, r) | Exit i \<Rightarrow> Exit i | Out_Of_Bounds \<Rightarrow> Out_Of_Bounds))
      | Exit i \<Rightarrow> Exit i
      | Out_Of_Bounds \<Rightarrow> Out_Of_Bounds)"
  by pat_completeness auto

termination
  by (relation "measure (\<lambda>(fp, pad, resp0, errno0, sm0, s, c). length s)") (auto dest: receive_request_consumes)

declare client_session.simps [simp del]

subsection \<open>Command lines\<close>

text \<open>The server and a client given the same port and path mean the same address.\<close>

lemma atoi_print_u: "n < 2 ^ 31 \<Longrightarrow> atoi (print_u n) = int n"
  using atoi_print_d [of "int n"] by (simp add: print_d_def)

lemma server_start_addresses:
  assumes "server_start STREAM calls net loc [prog, print_u p, path] sv = Started ((port, path'), k)" and "p < 65536"
  shows "port = word_of_nat p" and "path' = path" and "length path < 108"
    and "\<forall>c \<in> set (clients (srv k)). \<not> cl_active c"
  using assms atoi_print_u [of p]
  by (auto simp: server_start_def setup_socks_def Let_def split: if_splits)

lemma span_char:
  "x \<notin> set xs \<Longrightarrow> takeWhile (\<lambda>c. c \<noteq> x) (xs @ x # ys) = xs"
  "x \<notin> set xs \<Longrightarrow> dropWhile (\<lambda>c. c \<noteq> x) (xs @ x # ys) = x # ys"
  "x \<notin> set xs \<Longrightarrow> dropWhile (\<lambda>c. c \<noteq> x) xs = []"
  by (induction xs) auto

lemma strtok_rest: "strtok [] s = (if s = [] then NULL else Some s, [])"
proof -
  have "tl (dropWhile (\<lambda>c. True) s) = []" "takeWhile (\<lambda>c. True) s = s" "dropWhile (\<lambda>c. False) s = s"
    by (induction s) auto
  then show ?thesis by (simp add: strtok_def Let_def)
qed

lemma client_start_net:
  assumes "p < 65536" and "host \<noteq> []" and "CHR '':'' \<notin> set host" and "length name < CONF_CLIENT_NAME_MAX"
  shows "client_start inet_addr True True [prog, name, ''net'', host @ '':'' @ print_u p] =
    Started (map of_char name, In_Addr (word_of_nat p) (inet_addr host))"
proof -
  have "dropWhile (\<lambda>c. c = CHR '':'') (host @ '':'' @ print_u p) = host @ '':'' @ print_u p"
    using assms(2,3) by (cases host) auto
  moreover have "takeWhile (\<lambda>c. c \<noteq> CHR '':'') (host @ '':'' @ print_u p) = host"
    "dropWhile (\<lambda>c. c \<noteq> CHR '':'') (host @ '':'' @ print_u p) = '':'' @ print_u p"
    using assms(3) by (simp_all add: span_char)
  ultimately have "strtok '':'' (host @ '':'' @ print_u p) = (Some host, print_u p)"
    using assms(2) by (simp add: strtok_def Let_def)
  then show ?thesis using assms(1,4) atoi_print_u [of p] by (simp add: client_start_def Let_def strtok_rest)
qed

lemma client_start_local:
  assumes "length path < 108" and "length name < CONF_CLIENT_NAME_MAX"
  shows "client_start inet_addr True True [prog, name, ''local'', path] = Started (map of_char name, Un_Addr path)"
  using assms by (simp add: client_start_def Let_def)

text \<open>A network address without a port, or a path that is too long, crashes the client.\<close>

lemma client_start_crashes:
  "CHR '':'' \<notin> set host \<Longrightarrow> length name < CONF_CLIENT_NAME_MAX \<Longrightarrow>
     client_start inet_addr True True [prog, name, ''net'', host] = Crashed"
  "108 \<le> length path \<Longrightarrow> client_start inet_addr True True [prog, name, ''local'', path] = Crashed"
proof -
  assume a: "CHR '':'' \<notin> set host" "length name < CONF_CLIENT_NAME_MAX"
  have "dropWhile (\<lambda>c. c = CHR '':'') host = host" using a(1) by (cases host) auto
  then have "snd (strtok '':'' host) = []" using a(1) by (simp add: strtok_def Let_def span_char)
  then show "client_start inet_addr True True [prog, name, ''net'', host] = Crashed"
    using a(2) by (auto simp: client_start_def Let_def strtok_rest split: prod.splits)
qed (simp add: client_start_def Let_def)

subsection \<open>Messages to one client\<close>

text \<open>The payloads sent on a socket, in order, and the bytes they make.\<close>

definition sent_on :: "int \<Rightarrow> server \<Rightarrow> byte list list" where
  "sent_on sock sv = map (\<lambda>(s, a, p). p) (filter (\<lambda>(s, a, p). s = sock) (sent sv))"

definition wire_bytes :: "addr_t \<Rightarrow> socket_message \<Rightarrow> byte list list \<Rightarrow> byte list outcome" where
  "wire_bytes addr sm0 ps = send_all (map (\<lambda>p. sm_init addr p sm0) ps)"

abbreviation sendable :: "byte list \<Rightarrow> bool" where
  "sendable p \<equiv> p \<noteq> [] \<and> length p \<le> DATAGRAM_SIZE"

lemma wire_bytes_ok:
  assumes "\<forall>p \<in> set ps. sendable p" and "length (sm_buffer sm0) = DATAGRAM_SIZE"
  shows "\<exists>bs. wire_bytes addr sm0 ps = Cont bs"
  unfolding wire_bytes_def using assms sm_init_sent(1) by (intro send_all_ok) auto

text \<open>The next message a client reads from such bytes.\<close>

lemma receive_wire:
  assumes "sendable p" and "length (sm_buffer sm0) = DATAGRAM_SIZE" and "length (sm_buffer sm1) = DATAGRAM_SIZE"
    and "wire_bytes addr sm0 (p # ps) = Cont bs"
  shows "\<exists>cs sm. wire_bytes addr sm0 ps = Cont cs \<and> receive_stream bs sm1 = Cont (0, sm, cs) \<and> bs \<noteq> [] \<and>
    sm_buffer sm ! 0 = hd p \<and> sm_payload sm = p"
proof -
  let ?m = "sm_init addr p sm0"
  obtain b cs where b: "send_stream ?m = Cont b" and cs: "wire_bytes addr sm0 ps = Cont cs" "bs = b @ cs"
    using assms(4) by (auto simp: wire_bytes_def split: outcome.splits)
  note i = sm_init_sent [OF conjunct2 [OF assms(1)] assms(2), of addr]
  let ?sm = "sm1\<lparr>sm_length := sm_length ?m, sm_buffer := p @ drop (unat (sm_length ?m)) (sm_buffer sm1)\<rparr>"
  have "receive_stream bs sm1 = Cont (0, ?sm, cs)"
    using receive_sent [OF i(1) assms(3) b, of cs] cs(2) i(2) by simp
  moreover have "bs \<noteq> []" using calculation by (auto simp: receive_stream_def split: if_splits)
  moreover have "unat (sm_length ?m) = length p" using assms(1) i(3) by (simp add: unat_of_nat)
  then have "sm_payload ?sm = p" by simp
  moreover have "sm_buffer ?sm ! 0 = hd p" using assms(1) by (simp add: nth_append hd_conv_nth)
  ultimately show ?thesis using cs(1) by blast
qed

lemma client_handle_goes_on:
  "sm_buffer sm ! 0 \<notin> {MSG_TYPE_NAMEINUSE, MSG_TYPE_SHUTDOWN} \<Longrightarrow>
   \<exists>a. client_handle fp pad resp0 sm c = (a, c) \<and> (\<forall>i. a \<noteq> Quit i)"
  by (auto simp: client_handle_def Let_def split: prod.splits)

text \<open>A client reads on until it is told that the server shuts down; then it ends without a word.\<close>

lemma client_session_ends:
  assumes "\<forall>p \<in> set ps. sendable p \<and> hd p \<notin> {MSG_TYPE_NAMEINUSE, MSG_TYPE_SHUTDOWN}"
    and "length (sm_buffer sm0) = DATAGRAM_SIZE" and "length (sm_buffer sm1) = DATAGRAM_SIZE"
    and "wire_bytes addr sm0 (ps @ [[MSG_TYPE_SHUTDOWN]]) = Cont bs"
  shows "\<exists>ms. client_session fp pad resp0 errno0 sm1 bs c = Cont (ms, Some 0, c\<lparr>send_unregister := False\<rparr>)"
  using assms(1,4)
proof (induction ps arbitrary: bs)
  case Nil
  from receive_wire [OF _ assms(2,3), of "[MSG_TYPE_SHUTDOWN]" addr "[]" bs] Nil.prems(2)
  obtain cs sm where "receive_stream bs sm1 = Cont (0, sm, cs)" "sm_buffer sm ! 0 = MSG_TYPE_SHUTDOWN" by auto
  then have "receive_request fp pad resp0 errno0 sm1 bs c = Cont (Quit 0, cs, c\<lparr>send_unregister := False\<rparr>)"
    by (simp add: receive_request_def client_handle_def Let_def)
  then show ?case by (subst client_session.simps) simp
next
  case (Cons p ps)
  from receive_wire [OF _ assms(2,3), of p addr "ps @ [[MSG_TYPE_SHUTDOWN]]" bs] Cons.prems
  obtain cs sm where cs: "wire_bytes addr sm0 (ps @ [[MSG_TYPE_SHUTDOWN]]) = Cont cs" and "bs \<noteq> []"
    and r: "receive_stream bs sm1 = Cont (0, sm, cs)" "sm_buffer sm ! 0 = hd p" by auto
  from Cons.IH [OF _ cs] Cons.prems(1) obtain ms where
    ms: "client_session fp pad resp0 errno0 sm1 cs c = Cont (ms, Some 0, c\<lparr>send_unregister := False\<rparr>)" by auto
  from client_handle_goes_on [of sm fp pad resp0 c] r(2) Cons.prems(1) obtain a where
    a: "client_handle fp pad resp0 sm c = (a, c)" "\<forall>i. a \<noteq> Quit i" by auto
  then have "receive_request fp pad resp0 errno0 sm1 bs c = Cont (a, cs, c)"
    using r by (simp add: receive_request_def)
  then show ?case using a(2) ms \<open>bs \<noteq> []\<close> by (subst client_session.simps) (cases a; simp)
qed

subsection \<open>The end of a session\<close>

lemma filter_unique:
  assumes "i < length xs" and "P (xs ! i)" and "\<And>j. j < length xs \<Longrightarrow> P (xs ! j) \<Longrightarrow> j = i"
  shows "filter P xs = [xs ! i]"
proof -
  have xs: "xs = take i xs @ xs ! i # drop (Suc i) xs" using assms(1) by (simp add: id_take_nth_drop)
  have u: "P (xs ! j) \<Longrightarrow> j < length xs \<Longrightarrow> j = i" for j using assms(3) by blast
  have "\<not> P (xs ! j)" if "j < i" for j using u [of j] that assms(1) by auto
  then have "filter P (take i xs) = []" by (auto simp: filter_empty_conv in_set_conv_nth)
  moreover have "\<not> P (xs ! Suc (i + j))" if "j < length xs - Suc i" for j
    using u [of "Suc (i + j)"] that by fastforce
  then have "filter P (drop (Suc i) xs) = []" by (auto simp: filter_empty_conv in_set_conv_nth)
  ultimately have "filter P (take i xs @ xs ! i # drop (Suc i) xs) = [xs ! i]" using assms(2) by simp
  then show ?thesis using xs by simp
qed

lemma shutdown_sent_on:
  assumes "length (clients sv) = CONF_CLIENTS_MAX" and "socks_distinct sv" and "i < CONF_CLIENTS_MAX" and "active_in sv i"
  shows "sent_on (cl_sock (clients sv ! i)) (teardown_clients tr sv) =
    sent_on (cl_sock (clients sv ! i)) sv @ [[MSG_TYPE_SHUTDOWN]]"
proof -
  let ?s = "cl_sock (clients sv ! i)"
  have "filter (\<lambda>c. cl_active c \<and> cl_sock c = ?s) (clients sv) = [clients sv ! i]"
    using assms by (intro filter_unique) (auto simp: socks_distinct_def)
  then have "filter (\<lambda>c. cl_sock c = ?s) (filter cl_active (clients sv)) = [clients sv ! i]"
    by (simp add: conj_commute)
  then show ?thesis
    by (simp add: sent_on_def teardown_clients_effect [OF assms(1)] filter_map comp_def del: filter_filter)
qed


lemma one_client_only:
  "i < length (clients one_client_server) \<Longrightarrow> active_in one_client_server i \<Longrightarrow> i = 0"
  by (auto simp: one_client_server_def calc_client_def nth_Cons' split: if_splits)

lemma one_client_socks_distinct: "socks_distinct one_client_server"
  unfolding socks_distinct_def using one_client_only by metis


text \<open>
  C14: Leaving and coming back: when a client is interrupted it reports this, and the listener,
  reading the report on the client's socket, frees its slot, closes the socket and changes no
  other slot; the name can then be registered again over a new connection.
\<close>

theorem calc_rejoin:
  assumes "table_ok (srv k)" and "names_distinct (clients (srv k))" and "socks_distinct (srv k)"
    and "i < CONF_CLIENTS_MAX" and "active_in (srv k) i" and "sock = cl_sock (clients (srv k) ! i)"
    and "0 \<le> server_sock c" and "send_unregister c"
    and "length (sm_buffer sm0) = DATAGRAM_SIZE" and "length (sm_buffer sm1) = DATAGRAM_SIZE"
    and "register_name sm2 = Cont (cl_name (clients (srv k) ! i))" and "sock2 \<notin> set (polled (srv k))"
  shows "\<exists>bs sm k' sv j. wire_bytes addr sm0 (client_cleanup c) = Cont bs \<and> receive_stream bs sm1 = Cont (0, sm, []) \<and>
    listen_message STREAM sock sm k = Cont k' \<and> clients (srv k') = (clients (srv k))[i := (clients (srv k) ! i)\<lparr>cl_active := False\<rparr>] \<and>
    sock \<in> set (closed (srv k')) \<and> sock \<notin> set (polled (srv k')) \<and>
    register_client STREAM sock2 sm2 (srv k') = Cont sv \<and> j < CONF_CLIENTS_MAX \<and> active_in sv j \<and>
    cl_name (clients sv ! j) = cl_name (clients (srv k) ! i) \<and> cl_sock (clients sv ! j) = sock2 \<and> sock2 \<in> set (polled sv)"
proof -
  have len: "length (clients (srv k)) = CONF_CLIENTS_MAX" using assms(1) by (simp add: table_ok_def)
  have cc: "client_cleanup c = [[MSG_TYPE_UNREGISTER]]" using assms(7,8) by (simp add: client_cleanup_def)
  obtain bs where bs: "wire_bytes addr sm0 (client_cleanup c) = Cont bs"
    using wire_bytes_ok [of "client_cleanup c" sm0 addr] cc assms(9) by auto
  from receive_wire [OF _ assms(9,10) bs [unfolded cc]]
  obtain sm where sm: "receive_stream bs sm1 = Cont (0, sm, [])" "sm_buffer sm ! 0 = MSG_TYPE_UNREGISTER"
    by (auto simp: wire_bytes_def)
  have ci: "client_for_sock sock (srv k) = int i"
    using client_for_sock_unique [OF assms(3)] assms(4-6) len by simp
  let ?k = "k\<lparr>srv := unregister_client STREAM (int i) (srv k)\<rparr>"
  let ?cs = "(clients (srv k))[i := (clients (srv k) ! i)\<lparr>cl_active := False\<rparr>]"
  have lm: "listen_message STREAM sock sm k = Cont ?k"
    using sm(2) ci by (simp add: listen_message_def Let_def)
  have cl: "clients (srv ?k) = ?cs" "sock \<in> set (closed (srv ?k))" "sock \<notin> set (polled (srv ?k))"
    "set (polled (srv ?k)) \<subseteq> set (polled (srv k))"
    using assms(6) by (auto simp: unregister_client_def close_sock_def Let_def)
  have "\<not> is_name_taken (cl_name (clients (srv k) ! i)) (srv ?k)"
  proof
    assume "is_name_taken (cl_name (clients (srv k) ! i)) (srv ?k)"
    then obtain j where j: "j < length ?cs" "cl_active (?cs ! j)" "cl_name (?cs ! j) = cl_name (clients (srv k) ! i)"
      unfolding is_name_taken_iff cl(1) by (metis in_set_conv_nth)
    then have "j \<noteq> i" using assms(4) len by auto
    then show False using j assms(2,4,5) len by (auto simp: names_distinct_def)
  qed
  then have r: "register_client STREAM sock2 sm2 (srv ?k) =
      insert_client STREAM sock2 (sm_addr sm2) (cl_name (clients (srv k) ! i)) (srv ?k)"
    using assms(11) by (simp add: register_client_def)
  have "\<not> client_freeid (srv ?k) < 0"
  proof -
    have "?cs ! i \<in> set ?cs" "\<not> cl_active (?cs ! i)" using assms(4) len by (auto intro: nth_mem simp del: nth_list_update_eq) simp
    then show ?thesis unfolding client_freeid_full cl(1) by blast
  qed
  then obtain j where j: "j < length (clients (srv ?k))" "client_freeid (srv ?k) = int j" by (rule client_freeid_some)
  have "sock2 \<notin> set (polled (srv ?k))" using cl(4) assms(12) by blast
  then obtain sv where sv: "register_client STREAM sock2 sm2 (srv ?k) = Cont sv" "active_in sv j"
    "cl_name (clients sv ! j) = cl_name (clients (srv k) ! i)" "cl_sock (clients sv ! j) = sock2" "sock2 \<in> set (polled sv)"
    using j unfolding r by (simp add: insert_client_def add_to_poll_def Let_def)
  have "j < CONF_CLIENTS_MAX" using j(1) cl(1) len by simp
  then show ?thesis using bs sm(1) lm cl(1-3) sv by blast
qed

theorem calc_rejoin_witness:
  "\<exists>bs sm k' sv j. wire_bytes [] \<lparr>sm_addr = [], sm_length = 0, sm_buffer = replicate 256 0\<rparr>
       (client_cleanup \<lparr>server_sock = 3, send_unregister = True\<rparr>) = Cont bs \<and>
     listen_message STREAM 7 sm \<lparr>srv = one_client_server, current_request_id = 0, results = []\<rparr> = Cont k' \<and>
     register_client STREAM 8 \<lparr>sm_addr = [], sm_length = word_of_nat (Suc (length [65 :: byte])), sm_buffer = 0 # [65] @ 0 # replicate 253 0\<rparr>
       (srv k') = Cont sv \<and> cl_name (clients sv ! j) = [65]"
proof -
  let ?sm = "\<lparr>sm_addr = [], sm_length = 0, sm_buffer = replicate 256 0\<rparr>"
  let ?reg = "\<lparr>sm_addr = [], sm_length = word_of_nat (Suc (length [65 :: byte])), sm_buffer = 0 # [65] @ 0 # replicate 253 0\<rparr>"
  let ?k = "\<lparr>srv = one_client_server, current_request_id = 0, results = []\<rparr>"
  have one: "active_in (srv ?k) 0" "7 = cl_sock (clients (srv ?k) ! 0)" "[65] = cl_name (clients (srv ?k) ! 0)"
    "8 \<notin> set (polled (srv ?k))"
    by (simp_all add: one_client_server_def calc_client_def empty_server_def)
  have "register_name ?reg = Cont [65]" by (rule register_name_simple) simp_all
  then have reg: "register_name ?reg = Cont (cl_name (clients (srv ?k) ! 0))" using one(3) by simp
  have "names_distinct (clients one_client_server)" unfolding names_distinct_def using one_client_only by metis
  then show ?thesis
    using calc_rejoin [of ?k 0 7 "\<lparr>server_sock = 3, send_unregister = True\<rparr>" ?sm ?sm ?reg 8 "[]"] one reg
      one_client_server_ok one_client_socks_distinct by (auto simp del: One_nat_def)
qed

end
