(* ===== verification/Calc_Shutdown.thy ===== *)
theory Calc_Shutdown
  imports Calc_Main Transition
begin

text \<open>
  The shutdown of the stream server (\<open>cleanup\<close> in \<open>cw10/zad1/src/server.c\<close>) while its threads are still
  running.  The main thread asks the pinger, then the accepting threads to end, and waits for each at most
  until a point in time: \<open>pthread_timedjoin_np\<close> takes an absolute time, and one second after the
  epoch is long past, so it does not wait.  Then the clients are told, slot by slot and without the
  mutex, the sockets are closed, and the listener is asked to end.

  A request to end takes effect at a cancellation point.  A thread that ends while it holds the mutex leaves it
  locked; the main thread never takes it.
\<close>

subsection \<open>Threads\<close>

text \<open>
  An accepting thread accepts and receives a registration, looks up the name, and inserts the
  client; the pinger holds the mutex from the first slot to the last.
\<close>

datatype acc_pc = Acc_Accept | Acc_Check int addr_t "byte list" | Acc_Insert int addr_t "byte list" | Acc_Dead

record acc =
  acc_pc :: acc_pc
  acc_asked :: bool

datatype ping_pc = Pg_Sleep | Pg_Slot nat | Pg_Dead

datatype down_pc = Dn_Pinger | Dn_Accept nat | Dn_Slot nat | Dn_Socks | Dn_Listener | Dn_Done

record down =
  d_srv :: server
  d_main :: down_pc
  d_accs :: "acc list"
  d_ping :: ping_pc
  d_ping_asked :: bool
  d_locked :: bool

text \<open>\<open>die\<close> says that the thread ends at a cancellation point on its way, which takes a request.\<close>

definition acc_step :: "bool \<Rightarrow> nat \<Rightarrow> down \<Rightarrow> down option" where
  "acc_step die i s =
     (let a = d_accs s ! i; sv = d_srv s;
          put = (\<lambda>pc s. s\<lparr>d_accs := (d_accs s)[i := a\<lparr>acc_pc := pc\<rparr>]\<rparr>)
      in if die \<and> \<not> acc_asked a then None
         else
           case acc_pc a of
             Acc_Accept \<Rightarrow> if die then Some (put Acc_Dead s) else None
           | Acc_Check sock addr name \<Rightarrow>
               if d_locked s then None
               else if is_name_taken name sv then
                 Some (if die then put Acc_Dead s else put Acc_Accept (s\<lparr>d_srv := refuse_client sock addr sv\<rparr>))
               else if die then None else Some (put (Acc_Insert sock addr name) s)
           | Acc_Insert sock addr name \<Rightarrow>
               if d_locked s then None
               else
                 (case insert_client STREAM sock addr name sv of
                    Cont sv' \<Rightarrow>
                      Some (if die then put Acc_Dead (s\<lparr>d_srv := sv', d_locked := True\<rparr>) else put Acc_Accept (s\<lparr>d_srv := sv'\<rparr>))
                  | _ \<Rightarrow> None)
           | Acc_Dead \<Rightarrow> None)"

text \<open>A connection with a registration; a thread that has been asked does not get past \<open>accept\<close>.\<close>

definition acc_receive :: "nat \<Rightarrow> int \<Rightarrow> addr_t \<Rightarrow> byte list \<Rightarrow> down \<Rightarrow> down option" where
  "acc_receive i sock addr name s =
     (let a = d_accs s ! i in
      if acc_pc a = Acc_Accept \<and> \<not> acc_asked a \<and> sock \<notin> set (polled (d_srv s))
      then Some (s\<lparr>d_accs := (d_accs s)[i := a\<lparr>acc_pc := Acc_Check sock addr name\<rparr>]\<rparr>) else None)"

definition ping_step :: "bool \<Rightarrow> down \<Rightarrow> down option" where
  "ping_step die s =
     (if die \<and> \<not> d_ping_asked s then None
      else
        case d_ping s of
          Pg_Sleep \<Rightarrow>
            if die then Some (s\<lparr>d_ping := Pg_Dead\<rparr>)
            else if d_locked s then None else Some (s\<lparr>d_ping := Pg_Slot 0, d_locked := True\<rparr>)
        | Pg_Slot i \<Rightarrow>
            if i < CONF_CLIENTS_MAX
            then Some (if die then s\<lparr>d_ping := Pg_Dead\<rparr> else s\<lparr>d_srv := ping_slot STREAM i (d_srv s), d_ping := Pg_Slot (Suc i)\<rparr>)
            else if die then None else Some (s\<lparr>d_ping := Pg_Sleep, d_locked := False\<rparr>)
        | Pg_Dead \<Rightarrow> None)"

text \<open>The listener reads that a client leaves.\<close>

definition listen_leave :: "int \<Rightarrow> down \<Rightarrow> down option" where
  "listen_leave sock s =
     (if d_locked s then None
      else Some (s\<lparr>d_srv := unregister_client STREAM (client_for_sock sock (d_srv s)) (d_srv s)\<rparr>))"

subsection \<open>The main thread\<close>

definition down_main :: "int \<Rightarrow> int \<Rightarrow> down \<Rightarrow> down option" where
  "down_main sock_net sock_local s =
     (case d_main s of
        Dn_Pinger \<Rightarrow> Some (s\<lparr>d_ping_asked := True, d_main := Dn_Accept 0\<rparr>)
      | Dn_Accept i \<Rightarrow>
          Some (if i < length (d_accs s)
                then s\<lparr>d_accs := (d_accs s)[i := (d_accs s ! i)\<lparr>acc_asked := True\<rparr>], d_main := Dn_Accept (Suc i)\<rparr>
                else s\<lparr>d_main := Dn_Slot 0\<rparr>)
      | Dn_Slot i \<Rightarrow>
          Some (if i < CONF_CLIENTS_MAX then s\<lparr>d_srv := teardown_slot STREAM i (d_srv s), d_main := Dn_Slot (Suc i)\<rparr>
                else s\<lparr>d_main := Dn_Socks\<rparr>)
      | Dn_Socks \<Rightarrow> Some (s\<lparr>d_srv := teardown_socks sock_net sock_local (d_srv s), d_main := Dn_Listener\<rparr>)
      | Dn_Listener \<Rightarrow> Some (s\<lparr>d_main := Dn_Done\<rparr>)
      | Dn_Done \<Rightarrow> None)"

datatype down_event = D_Main | D_Receive nat int addr_t "byte list" | D_Acc bool nat | D_Ping bool | D_Leave int

definition down_act :: "int \<Rightarrow> int \<Rightarrow> down_event \<Rightarrow> down \<Rightarrow> down option" where
  "down_act net loc e s =
     (case e of
        D_Main \<Rightarrow> down_main net loc s
      | D_Receive i sock addr name \<Rightarrow> if i < length (d_accs s) then acc_receive i sock addr name s else None
      | D_Acc die i \<Rightarrow> if i < length (d_accs s) then acc_step die i s else None
      | D_Ping die \<Rightarrow> ping_step die s
      | D_Leave sock \<Rightarrow> listen_leave sock s)"

definition down_step :: "int \<Rightarrow> int \<Rightarrow> down \<Rightarrow> down \<Rightarrow> bool" where
  "down_step net loc s t = (\<exists>e. down_act net loc e s = Some t)"

text \<open>The stream server has two accepting threads.\<close>

definition down_init :: "acc_pc \<Rightarrow> acc_pc \<Rightarrow> ping_pc \<Rightarrow> server \<Rightarrow> down" where
  "down_init a1 a2 p sv =
     \<lparr>d_srv = sv, d_main = Dn_Pinger, d_accs = [\<lparr>acc_pc = a1, acc_asked = False\<rparr>, \<lparr>acc_pc = a2, acc_asked = False\<rparr>],
      d_ping = p, d_ping_asked = False, d_locked = (case p of Pg_Slot _ \<Rightarrow> True | _ \<Rightarrow> False)\<rparr>"

fun down_run :: "int \<Rightarrow> int \<Rightarrow> down_event list \<Rightarrow> down \<Rightarrow> down option" where
  "down_run net loc [] s = Some s"
| "down_run net loc (e # es) s = (case down_act net loc e s of None \<Rightarrow> None | Some t \<Rightarrow> down_run net loc es t)"

lemma down_run_reachable: "down_run net loc es s = Some t \<Longrightarrow> (down_step net loc)\<^sup>*\<^sup>* s t"
proof (induction es arbitrary: s)
  case (Cons e es)
  then obtain r where "down_act net loc e s = Some r" "down_run net loc es r = Some t" by (auto split: option.splits)
  then show ?case using Cons.IH [of r] by (meson converse_rtranclp_into_rtranclp down_step_def)
qed simp

subsection \<open>What a step does to the table\<close>

text \<open>A client stays in its slot until its socket is closed.\<close>

definition keeps :: "server \<Rightarrow> server \<Rightarrow> bool" where
  "keeps sv sv' \<longleftrightarrow> length (clients sv') = length (clients sv) \<and> set (closed sv) \<subseteq> set (closed sv') \<and>
     (\<forall>j < length (clients sv). cl_active (clients sv ! j) \<longrightarrow>
        cl_sock (clients sv ! j) \<in> set (closed sv') \<or>
        cl_active (clients sv' ! j) \<and> cl_sock (clients sv' ! j) = cl_sock (clients sv ! j))"

text \<open>Active clients in the first slots.\<close>

definition behind :: "nat \<Rightarrow> server \<Rightarrow> nat" where
  "behind i sv = total (\<lambda>c. if cl_active c then 1 else 0) (take i (clients sv))"

lemma behind_update:
  assumes "clients sv' = (clients sv)[k := c]"
  shows "behind i sv' \<le> behind i sv + (if cl_active c \<and> \<not> cl_active (clients sv ! k) then 1 else 0)"
proof (cases "k < i \<and> k < length (clients sv)")
  case True
  then show ?thesis
    using total_update [of k "take i (clients sv)" "\<lambda>c. if cl_active c then 1 else (0::nat)" c]
    by (simp add: behind_def assms take_update_swap split: if_splits)
next
  case False
  then have "take i (clients sv') = take i (clients sv)"
    by (cases "k < length (clients sv)") (auto simp: assms list_update_beyond)
  then show ?thesis by (simp add: behind_def)
qed

lemma keeps_refl: "keeps sv sv"
  by (simp add: keeps_def)

lemma keeps_slot:
  assumes "clients sv' = (clients sv)[k := c]" and "set (closed sv) \<subseteq> set (closed sv')"
    and "cl_active (clients sv ! k) \<Longrightarrow> cl_sock (clients sv ! k) \<in> set (closed sv') \<or> cl_active c \<and> cl_sock c = cl_sock (clients sv ! k)"
  shows "keeps sv sv'"
proof -
  have "cl_sock (clients sv ! j) \<in> set (closed sv') \<or> cl_active (clients sv' ! j) \<and> cl_sock (clients sv' ! j) = cl_sock (clients sv ! j)"
    if "j < length (clients sv)" "cl_active (clients sv ! j)" for j
    using assms(1,3) that by (cases "j = k") simp_all
  then show ?thesis using assms(1,2) by (simp add: keeps_def)
qed

lemma ping_slot_keeps: "keeps sv (ping_slot STREAM i sv) \<and> behind n (ping_slot STREAM i sv) \<le> behind n sv"
proof -
  let ?sv = "ping_slot STREAM i sv"
  have "?sv = sv \<or> (\<exists>c. clients ?sv = (clients sv)[i := c] \<and> set (closed sv) \<subseteq> set (closed ?sv) \<and> cl_active (clients sv ! i) \<and>
      (cl_sock (clients sv ! i) \<in> set (closed ?sv) \<or> cl_active c \<and> cl_sock c = cl_sock (clients sv ! i)))"
    by (auto simp: ping_slot_def close_sock_def send_sm_def Let_def)
  then show ?thesis
  proof (elim disjE exE conjE)
    fix c assume c: "clients ?sv = (clients sv)[i := c]" "set (closed sv) \<subseteq> set (closed ?sv)" "cl_active (clients sv ! i)"
      "cl_sock (clients sv ! i) \<in> set (closed ?sv)"
    then show ?thesis using keeps_slot [OF c(1,2)] behind_update [OF c(1), of n] by simp
  next
    fix c assume c: "clients ?sv = (clients sv)[i := c]" "set (closed sv) \<subseteq> set (closed ?sv)" "cl_active (clients sv ! i)"
      "cl_active c" "cl_sock c = cl_sock (clients sv ! i)"
    then show ?thesis using keeps_slot [OF c(1,2)] behind_update [OF c(1), of n] by simp
  qed (simp add: keeps_refl)
qed

lemma unregister_keeps: "keeps sv (unregister_client STREAM k sv) \<and> behind n (unregister_client STREAM k sv) \<le> behind n sv"
proof (cases "0 \<le> k")
  case True
  let ?sv = "unregister_client STREAM k sv"
  have c: "clients ?sv = (clients sv)[nat k := (clients sv ! nat k)\<lparr>cl_active := False\<rparr>]" "set (closed sv) \<subseteq> set (closed ?sv)"
    "cl_sock (clients sv ! nat k) \<in> set (closed ?sv)"
    using True by (auto simp: unregister_client_def close_sock_def Let_def)
  then show ?thesis using keeps_slot [OF c(1,2)] behind_update [OF c(1), of n] by simp
qed (simp add: unregister_client_def keeps_refl)

lemma teardown_slot_keeps:
  "keeps sv (teardown_slot STREAM i sv) \<and> behind n (teardown_slot STREAM i sv) \<le> behind n sv"
proof -
  let ?sv = "teardown_slot STREAM i sv"
  have c: "clients ?sv = (clients sv)[i := (clients sv ! i)\<lparr>cl_active := False\<rparr>]" by (rule teardown_slot_effect(1))
  have "set (closed sv) \<subseteq> set (closed ?sv)" using teardown_slot_effect(3) [of i sv] by auto
  moreover have "cl_active (clients sv ! i) \<Longrightarrow> cl_sock (clients sv ! i) \<in> set (closed ?sv)" using teardown_slot_effect(3) [of i sv] by simp
  ultimately show ?thesis using keeps_slot [OF c] behind_update [OF c, of n] by simp
qed

lemma insert_keeps:
  assumes "insert_client STREAM sock addr name sv = Cont sv'"
  shows "keeps sv sv' \<and> behind n sv' \<le> behind n sv + 1"
proof -
  have cl: "closed sv' = closed sv"
    using assms by (auto simp: insert_client_def add_to_poll_def Let_def split: if_splits)
  consider "sv' = sv" | k where "k < length (clients sv)" "\<not> cl_active (clients sv ! k)"
      "clients sv' = (clients sv)[k := \<lparr>cl_addr = addr, cl_active = True, cl_sock = sock, cl_name = name, cl_inactivity = 0\<rparr>]"
    using insert_client_clients [OF assms] by blast
  then show ?thesis
  proof cases
    case 1
    then show ?thesis by (simp add: keeps_refl)
  next
    case 2
    then show ?thesis using keeps_slot [OF 2(3)] behind_update [OF 2(3), of n] cl by simp
  qed
qed

lemma refuse_keeps: "keeps sv (refuse_client sock addr sv) \<and> behind n (refuse_client sock addr sv) = behind n sv"
  by (simp add: refuse_client_def send_sm_def keeps_def behind_def)

lemma socks_keeps: "keeps sv (teardown_socks net loc sv) \<and> behind n (teardown_socks net loc sv) = behind n sv"
  by (auto simp: teardown_socks_def keeps_def behind_def)

subsection \<open>Invariant\<close>

text \<open>Threads with a registration under way.\<close>

definition acc_busy :: "acc \<Rightarrow> nat" where
  "acc_busy a = (case acc_pc a of Acc_Check _ _ _ \<Rightarrow> 1 | Acc_Insert _ _ _ \<Rightarrow> 1 | _ \<Rightarrow> 0)"

definition busy :: "down \<Rightarrow> nat" where
  "busy s = total acc_busy (d_accs s)"

definition all_asked :: "down \<Rightarrow> bool" where
  "all_asked s = (\<forall>a \<in> set (d_accs s). acc_asked a)"

lemma acc_step_effect:
  assumes "acc_step die i s = Some t" and i: "i < length (d_accs s)"
  shows "d_main t = d_main s \<and> map acc_asked (d_accs t) = map acc_asked (d_accs s) \<and> keeps (d_srv s) (d_srv t) \<and>
    behind n (d_srv t) + busy t \<le> behind n (d_srv s) + busy s"
proof -
  have b: "busy (u\<lparr>d_accs := (d_accs s)[i := (d_accs s ! i)\<lparr>acc_pc := pc\<rparr>]\<rparr>) + acc_busy (d_accs s ! i) =
      busy s + acc_busy ((d_accs s ! i)\<lparr>acc_pc := pc\<rparr>)" for u pc
    using total_update [OF i, of acc_busy] by (simp add: busy_def)
  have m: "map acc_asked ((d_accs s)[i := (d_accs s ! i)\<lparr>acc_pc := pc\<rparr>]) = map acc_asked (d_accs s)" for pc
    using i by (simp add: map_update list_update_same_conv)
  show ?thesis
  proof (cases "acc_pc (d_accs s ! i)")
    case Acc_Accept
    then show ?thesis using assms(1) b [where u = s and pc = Acc_Dead] m by (auto simp: acc_step_def Let_def keeps_refl acc_busy_def split: if_splits)
  next
    case (Acc_Check sock addr name)
    note r = refuse_keeps [of "d_srv s" sock addr n]
    show ?thesis using assms(1) Acc_Check b [where u = s and pc = Acc_Dead] b [where u = s and pc = "Acc_Insert sock addr name"]
        b [where u = "s\<lparr>d_srv := refuse_client sock addr (d_srv s)\<rparr>" and pc = Acc_Accept] m r
      by (auto simp: acc_step_def Let_def keeps_refl acc_busy_def split: if_splits)
  next
    case (Acc_Insert sock addr name)
    obtain sv where sv: "insert_client STREAM sock addr name (d_srv s) = Cont sv"
      using assms(1) Acc_Insert by (auto simp: acc_step_def Let_def split: if_splits outcome.splits)
    note r = insert_keeps [OF sv, of n]
    show ?thesis using assms(1) Acc_Insert sv b [where u = "s\<lparr>d_srv := sv, d_locked := True\<rparr>" and pc = Acc_Dead] b [where u = "s\<lparr>d_srv := sv\<rparr>" and pc = Acc_Accept] m r
      by (auto simp: acc_step_def Let_def acc_busy_def split: if_splits)
  next
    case Acc_Dead
    then show ?thesis using assms(1) by (simp add: acc_step_def Let_def split: if_splits)
  qed
qed

lemma other_thread_effect:
  assumes "ping_step die s = Some t \<or> listen_leave sock s = Some t"
  shows "d_main t = d_main s \<and> d_accs t = d_accs s \<and> keeps (d_srv s) (d_srv t) \<and> behind n (d_srv t) \<le> behind n (d_srv s)"
  using assms ping_slot_keeps [of "d_srv s"] unregister_keeps [of "d_srv s"]
  by (auto simp: ping_step_def listen_leave_def keeps_refl split: ping_pc.splits if_splits)

lemma thread_effect:
  assumes st: "down_act net loc e s = Some t" and e: "e \<noteq> D_Main"
  shows "d_main t = d_main s \<and> map acc_asked (d_accs t) = map acc_asked (d_accs s) \<and> keeps (d_srv s) (d_srv t) \<and>
    (all_asked s \<longrightarrow> behind n (d_srv t) + busy t \<le> behind n (d_srv s) + busy s)"
proof (cases e)
  case (D_Receive i sock addr name)
  then have i: "i < length (d_accs s)" and "\<not> acc_asked (d_accs s ! i)" and t: "t = s\<lparr>d_accs := (d_accs s)[i := (d_accs s ! i)\<lparr>acc_pc := Acc_Check sock addr name\<rparr>]\<rparr>"
    using st by (auto simp: down_act_def acc_receive_def Let_def split: if_splits)
  then have "\<not> all_asked s" by (auto simp: all_asked_def)
  then show ?thesis using i by (simp add: t keeps_refl map_update list_update_same_conv)
next
  case (D_Acc die i)
  then show ?thesis using st acc_step_effect [of die i s t n] by (auto simp: down_act_def split: if_splits)
next
  case (D_Ping die)
  then show ?thesis using st other_thread_effect [of die s t 0 n] by (auto simp: down_act_def busy_def)
next
  case (D_Leave sock)
  then show ?thesis using st other_thread_effect [of False s t sock n] by (auto simp: down_act_def busy_def)
qed (use e in simp)

text \<open>The slots the main thread has dealt with.\<close>

definition dealt :: "down \<Rightarrow> nat" where
  "dealt s = (case d_main s of Dn_Pinger \<Rightarrow> 0 | Dn_Accept _ \<Rightarrow> 0 | Dn_Slot i \<Rightarrow> i | _ \<Rightarrow> CONF_CLIENTS_MAX)"

definition down_inv :: "int \<Rightarrow> int \<Rightarrow> int set \<Rightarrow> nat \<Rightarrow> down \<Rightarrow> bool" where
  "down_inv net loc X n s \<longleftrightarrow>
     length (clients (d_srv s)) = CONF_CLIENTS_MAX \<and> all_asked s \<and> d_main s \<noteq> Dn_Pinger \<and> (\<forall>i. d_main s \<noteq> Dn_Accept i) \<and> dealt s \<le> CONF_CLIENTS_MAX \<and>
     behind (dealt s) (d_srv s) + busy s \<le> n \<and>
     (\<forall>x \<in> X. x \<in> set (closed (d_srv s)) \<or>
        (\<exists>j. dealt s \<le> j \<and> j < CONF_CLIENTS_MAX \<and> cl_active (clients (d_srv s) ! j) \<and> cl_sock (clients (d_srv s) ! j) = x)) \<and>
     (d_main s \<in> {Dn_Listener, Dn_Done} \<longrightarrow> {net, loc} \<subseteq> set (closed (d_srv s)))"

lemma covered_keeps:
  assumes "keeps sv sv'" and "length (clients sv) = CONF_CLIENTS_MAX"
    and "x \<in> set (closed sv) \<or> (\<exists>j. d \<le> j \<and> j < CONF_CLIENTS_MAX \<and> cl_active (clients sv ! j) \<and> cl_sock (clients sv ! j) = x)"
  shows "x \<in> set (closed sv') \<or> (\<exists>j. d \<le> j \<and> j < CONF_CLIENTS_MAX \<and> cl_active (clients sv' ! j) \<and> cl_sock (clients sv' ! j) = x)"
  using assms unfolding keeps_def by (metis subsetD)

lemma down_inv_thread:
  assumes inv: "down_inv net loc X n s" and st: "down_act net loc e s = Some t" and e: "e \<noteq> D_Main"
  shows "down_inv net loc X n t"
proof -
  note ef = thread_effect [OF st e, of "dealt s"]
  have d: "dealt t = dealt s" using ef by (simp add: dealt_def)
  have "all_asked t"
  proof -
    have "set (map acc_asked (d_accs t)) = set (map acc_asked (d_accs s))" using ef by simp
    then show ?thesis using inv by (auto simp: down_inv_def all_asked_def)
  qed
  moreover have k: "keeps (d_srv s) (d_srv t)" using ef by blast
  moreover have "length (clients (d_srv t)) = CONF_CLIENTS_MAX" "set (closed (d_srv s)) \<subseteq> set (closed (d_srv t))"
    using k inv by (simp_all add: keeps_def down_inv_def)
  moreover have "behind (dealt s) (d_srv t) + busy t \<le> n" using ef inv unfolding down_inv_def by linarith
  moreover have "x \<in> set (closed (d_srv t)) \<or>
      (\<exists>j. dealt s \<le> j \<and> j < CONF_CLIENTS_MAX \<and> cl_active (clients (d_srv t) ! j) \<and> cl_sock (clients (d_srv t) ! j) = x)" if "x \<in> X" for x
    using inv that by (intro covered_keeps [OF k]) (simp_all add: down_inv_def)
  ultimately show ?thesis using inv ef d unfolding down_inv_def by auto
qed

lemma down_inv_main:
  assumes inv: "down_inv net loc X n s" and st: "down_main net loc s = Some t"
  shows "down_inv net loc X n t"
proof (cases "d_main s")
  case (Dn_Slot i)
  show ?thesis
  proof (cases "i < CONF_CLIENTS_MAX")
    case True
    let ?sv = "d_srv s" and ?sv' = "teardown_slot STREAM i (d_srv s)"
    have t: "t = s\<lparr>d_srv := ?sv', d_main := Dn_Slot (Suc i)\<rparr>" using st Dn_Slot True by (simp add: down_main_def)
    have len: "length (clients ?sv) = CONF_CLIENTS_MAX" using inv by (simp add: down_inv_def)
    have c: "clients ?sv' = (clients ?sv)[i := (clients ?sv ! i)\<lparr>cl_active := False\<rparr>]" by (rule teardown_slot_effect(1))
    note k = teardown_slot_keeps [of ?sv i i]
    have "behind (Suc i) ?sv' = behind i ?sv'"
      using True len by (simp add: behind_def c take_Suc_conv_app_nth)
    then have "behind (Suc i) ?sv' + busy t \<le> n"
      using k inv Dn_Slot by (simp add: down_inv_def dealt_def t busy_def)
    moreover have "x \<in> set (closed ?sv') \<or> (\<exists>j. Suc i \<le> j \<and> j < CONF_CLIENTS_MAX \<and> cl_active (clients ?sv' ! j) \<and> cl_sock (clients ?sv' ! j) = x)"
      if "x \<in> X" for x
    proof -
      have "x \<in> set (closed ?sv') \<or> (\<exists>j. i \<le> j \<and> j < CONF_CLIENTS_MAX \<and> cl_active (clients ?sv' ! j) \<and> cl_sock (clients ?sv' ! j) = x)"
        using inv that Dn_Slot by (intro covered_keeps [OF conjunct1 [OF k] len]) (simp add: down_inv_def dealt_def)
      moreover have "\<not> cl_active (clients ?sv' ! i)" using True len by (simp add: c)
      ultimately show ?thesis by (metis Suc_leI le_neq_implies_less)
    qed
    ultimately show ?thesis using inv True len c by (simp add: t down_inv_def dealt_def Dn_Slot all_asked_def)
  next
    case False
    then have "i = CONF_CLIENTS_MAX" using inv Dn_Slot by (simp add: down_inv_def dealt_def)
    then show ?thesis using inv st Dn_Slot by (auto simp: down_main_def down_inv_def dealt_def all_asked_def busy_def)
  qed
next
  case Dn_Socks
  let ?sv = "d_srv s" and ?sv' = "teardown_socks net loc (d_srv s)"
  have t: "t = s\<lparr>d_srv := ?sv', d_main := Dn_Listener\<rparr>" using st Dn_Socks by (simp add: down_main_def)
  have "clients ?sv' = clients ?sv" "set (closed ?sv') = {net, loc} \<union> set (closed ?sv)" "behind CONF_CLIENTS_MAX ?sv' = behind CONF_CLIENTS_MAX ?sv"
    by (auto simp: teardown_socks_def behind_def)
  then show ?thesis using inv Dn_Socks by (simp add: t down_inv_def dealt_def all_asked_def busy_def)
next
  case Dn_Listener
  then show ?thesis using inv st by (auto simp: down_main_def down_inv_def dealt_def all_asked_def busy_def)
qed (use inv st in \<open>auto simp: down_main_def down_inv_def\<close>)

interpretation shutdown: invariant_system "down_step net loc" "down_inv net loc X n" for net loc X n
proof
  fix s t
  assume inv: "down_inv net loc X n s" and "down_step net loc s t"
  then obtain e where e: "down_act net loc e s = Some t" by (auto simp: down_step_def)
  show "down_inv net loc X n t"
  proof (cases "e = D_Main")
    case True
    then show ?thesis using down_inv_main [OF inv] e by (simp add: down_act_def)
  next
    case False
    then show ?thesis using down_inv_thread [OF inv e] by blast
  qed
qed

text \<open>Before the first slot is dealt with both accepting threads have been asked.\<close>

definition asking :: "down \<Rightarrow> bool" where
  "asking s \<longleftrightarrow> length (clients (d_srv s)) = CONF_CLIENTS_MAX \<and>
     (case d_main s of
        Dn_Pinger \<Rightarrow> True
      | Dn_Accept i \<Rightarrow> \<forall>j < i. j < length (d_accs s) \<longrightarrow> map acc_asked (d_accs s) ! j
      | _ \<Rightarrow> all_asked s)"

lemma all_asked_map: "all_asked s = (\<forall>b \<in> set (map acc_asked (d_accs s)). b)"
  by (simp add: all_asked_def)

lemma asking_step:
  assumes inv: "asking s" and st: "down_step net loc s t"
  shows "asking t"
proof -
  obtain e where e: "down_act net loc e s = Some t" using st by (auto simp: down_step_def)
  show ?thesis
  proof (cases "e = D_Main")
    case True
    show ?thesis
    proof (cases "d_main s")
      case (Dn_Accept i)
      show ?thesis
      proof (cases "i < length (d_accs s)")
        case lt: True
        then show ?thesis using inv e True Dn_Accept by (auto simp: down_act_def down_main_def asking_def less_Suc_eq nth_list_update)
      next
        case False
        then have "all_asked s" using inv Dn_Accept by (auto simp: asking_def all_asked_def in_set_conv_nth)
        then show ?thesis using False inv e True Dn_Accept by (auto simp: down_act_def down_main_def asking_def all_asked_def)
      qed
    qed (use inv e True in \<open>auto simp: down_act_def down_main_def asking_def all_asked_def teardown_slot_effect(1) teardown_socks_def split: if_splits\<close>)
  next
    case False
    note ef = thread_effect [OF e False, of 0]
    have l: "length (d_accs t) = length (d_accs s)" using ef by (metis length_map)
    have m: "map acc_asked (d_accs t) = map acc_asked (d_accs s)" and a: "d_main t = d_main s"
      and c: "length (clients (d_srv t)) = length (clients (d_srv s))" using ef by (simp_all add: keeps_def)
    show ?thesis using inv unfolding asking_def all_asked_map by (simp only: l m a c)
  qed
qed

interpretation asked_first: invariant_system "down_step net loc" asking for net loc
  by unfold_locales (rule asking_step)

subsection \<open>Properties\<close>

lemma behind_all: "length (clients sv) = CONF_CLIENTS_MAX \<Longrightarrow> behind CONF_CLIENTS_MAX sv = length (filter cl_active (clients sv))"
proof -
  have "total (\<lambda>c. if cl_active c then 1 else (0::nat)) cs = length (filter cl_active cs)" for cs by (induction cs) auto
  then show "length (clients sv) = CONF_CLIENTS_MAX \<Longrightarrow> behind CONF_CLIENTS_MAX sv = length (filter cl_active (clients sv))"
    by (simp add: behind_def)
qed


definition late_events :: "down_event list" where
  "late_events = replicate 5 D_Main @ [D_Acc False 0] @ replicate 18 D_Main"

text \<open>
  A client whose registration is under way when the shutdown begins: it is entered into the first slot after
  this has been dealt with, and is never told.
\<close>

lemma late_run:
  "\<exists>t. down_run 3 4 late_events (down_init (Acc_Insert 9 [] [65]) Acc_Accept Pg_Dead empty_server) = Some t \<and> d_main t = Dn_Done \<and>
    filter cl_active (clients (d_srv t)) = [\<lparr>cl_addr = [], cl_active = True, cl_sock = 9, cl_name = [65], cl_inactivity = 0\<rparr>] \<and>
    9 \<notin> set (closed (d_srv t)) \<and> sent (d_srv t) = []"
  by (simp add: late_events_def numeral_eq_Suc down_act_def down_main_def down_init_def acc_step_def teardown_slot_def teardown_socks_def
      insert_client_def client_freeid_def add_to_poll_def empty_server_def calc_client_def Let_def)


end
