(* ===== verification/Barber_Shop.thy ===== *)
theory Barber_Shop
  imports Bounded_Queue
begin

text \<open>
  The shared memory of the sleeping barber (\<open>cw07/zad1/src/barber-shop.c\<close>): the barber's chair,
  four semaphores, the sleeping flag and the circular waiting room.  Capacity, count and
  positions are non-negative: the capacity is the number of clients asked for, the count is
  only decremented when positive.  A semaphore is its value.
\<close>

record wr_seat =
  taken :: bool
  seat_pid :: int
  waiting :: nat

record barber_shop_mem =
  barber_chair :: wr_seat
  mx_waiting_room :: nat
  sem_barber_sleeping :: nat
  sem_barber_ready :: nat
  sem_customer_ready :: nat
  barber_sleeping :: bool
  wr_capacity :: nat
  wr_count :: nat
  wr_start :: nat
  wr_end :: nat
  waiting_room :: "wr_seat list"

definition new_seat :: "int \<Rightarrow> wr_seat" where
  "new_seat getpid = \<lparr>taken = True, seat_pid = getpid, waiting = 0\<rparr>"

definition empty_seat :: wr_seat where
  "empty_seat = \<lparr>taken = False, seat_pid = -1, waiting = 0\<rparr>"

definition initialize_barber :: "nat \<Rightarrow> barber_shop_mem" where
  "initialize_barber wr_cap =
     \<lparr>barber_chair = empty_seat, mx_waiting_room = 1, sem_barber_sleeping = 0, sem_barber_ready = 0,
      sem_customer_ready = 0, barber_sleeping = False, wr_capacity = wr_cap, wr_count = 0, wr_start = 0, wr_end = 0,
      waiting_room = replicate wr_cap empty_seat\<rparr>"

text \<open>Both give the index of a seat, where the code gives its address.\<close>

definition wr_pop :: "barber_shop_mem \<Rightarrow> (nat \<times> barber_shop_mem) option" where
  "wr_pop bs =
     (if wr_count bs = 0 then None
      else Some (wr_start bs, bs\<lparr>wr_start := (wr_start bs + 1) mod wr_capacity bs, wr_count := wr_count bs - 1\<rparr>))"

definition wr_push :: "barber_shop_mem \<Rightarrow> (nat \<times> barber_shop_mem) option" where
  "wr_push bs =
     (if wr_capacity bs \<le> wr_count bs then None
      else Some (wr_end bs, bs\<lparr>wr_end := (wr_end bs + 1) mod wr_capacity bs, wr_count := wr_count bs + 1\<rparr>))"

definition set_seat :: "nat \<Rightarrow> wr_seat \<Rightarrow> barber_shop_mem \<Rightarrow> barber_shop_mem" where
  "set_seat p seat bs = bs\<lparr>waiting_room := (waiting_room bs)[p := seat]\<rparr>"

definition seat_at :: "barber_shop_mem \<Rightarrow> nat \<Rightarrow> wr_seat" where
  "seat_at bs p = waiting_room bs ! p"

subsection \<open>The waiting room is a bounded queue\<close>

definition room_ok :: "barber_shop_mem \<Rightarrow> bool" where
  "room_ok bs \<longleftrightarrow> length (waiting_room bs) = wr_capacity bs \<and> wr_count bs \<le> wr_capacity bs \<and>
     (0 < wr_capacity bs \<longrightarrow> wr_start bs < wr_capacity bs \<and>
        wr_end bs = (wr_start bs + wr_count bs) mod wr_capacity bs)"

definition room_queue :: "barber_shop_mem \<Rightarrow> wr_seat list" where
  "room_queue bs = window (waiting_room bs) (wr_start bs) (wr_count bs)"

text \<open>Taking a seat and inviting the first in the queue, as the two programs combine them.\<close>

definition room_enter :: "wr_seat \<Rightarrow> barber_shop_mem \<Rightarrow> barber_shop_mem option" where
  "room_enter seat bs = (case wr_push bs of None \<Rightarrow> None | Some (p, bs') \<Rightarrow> Some (set_seat p seat bs'))"

definition room_leave :: "barber_shop_mem \<Rightarrow> (wr_seat \<times> barber_shop_mem) option" where
  "room_leave bs = (case wr_pop bs of None \<Rightarrow> None | Some (p, bs') \<Rightarrow> Some (seat_at bs' p, bs'))"

lemma wr_push_ok:
  assumes "room_ok bs" and "wr_push bs = Some (p, bs')"
  shows "room_ok bs'" and "p < wr_capacity bs" and "p = (wr_start bs + wr_count bs) mod wr_capacity bs"
    and "wr_count bs < wr_capacity bs"
proof -
  show c: "wr_count bs < wr_capacity bs" using assms(2) by (simp add: wr_push_def split: if_splits)
  show p: "p = (wr_start bs + wr_count bs) mod wr_capacity bs"
    using assms c by (auto simp: room_ok_def wr_push_def split: if_splits)
  show "p < wr_capacity bs" unfolding p using c by (intro mod_less_divisor) simp
  show "room_ok bs'"
    using assms by (auto simp: room_ok_def wr_push_def mod_Suc_eq split: if_splits)
qed

lemma wr_pop_ok:
  assumes "room_ok bs" and "wr_pop bs = Some (p, bs')"
  shows "room_ok bs'" and "p < wr_capacity bs" and "p = wr_start bs" and "0 < wr_count bs"
proof -
  have c: "0 < wr_count bs" "0 < wr_capacity bs" and p: "p = wr_start bs"
    and bs': "bs' = bs\<lparr>wr_start := (wr_start bs + 1) mod wr_capacity bs, wr_count := wr_count bs - 1\<rparr>"
    using assms by (auto simp: room_ok_def wr_pop_def split: if_splits)
  have "((wr_start bs + 1) mod wr_capacity bs + (wr_count bs - 1)) mod wr_capacity bs =
      (wr_start bs + wr_count bs) mod wr_capacity bs"
    using c(1) by (cases "wr_count bs") (simp_all add: mod_simps)
  then show "room_ok bs'" "p < wr_capacity bs" "p = wr_start bs" "0 < wr_count bs"
    using assms(1) c p by (auto simp: room_ok_def bs')
qed

interpretation room: bounded_fifo room_ok wr_capacity room_queue room_enter room_leave
proof
  fix bs bs' :: barber_shop_mem and x :: wr_seat
  assume ok: "room_ok bs"
  show "length (room_queue bs) \<le> wr_capacity bs" using ok by (simp add: room_queue_def room_ok_def)
  show "room_enter x bs = None \<longleftrightarrow> length (room_queue bs) = wr_capacity bs"
    using ok by (auto simp: room_enter_def wr_push_def room_queue_def room_ok_def)
  show "room_ok bs' \<and> wr_capacity bs' = wr_capacity bs \<and> room_queue bs' = room_queue bs @ [x]"
    if e: "room_enter x bs = Some bs'"
  proof -
    obtain p b where p: "wr_push bs = Some (p, b)" and bs': "bs' = set_seat p x b"
      using e by (auto simp: room_enter_def split: option.splits)
    note w = wr_push_ok [OF ok p]
    have b: "b = bs\<lparr>wr_end := (wr_end bs + 1) mod wr_capacity bs, wr_count := wr_count bs + 1\<rparr>"
      using p by (auto simp: wr_push_def split: if_splits)
    have len: "length (waiting_room bs) = wr_capacity bs" using ok by (simp add: room_ok_def)
    have "room_queue bs' = room_queue bs @ [x]"
      using window_push [of "wr_count bs" "waiting_room bs" "wr_start bs" x] w(3,4) len
      by (simp add: bs' b room_queue_def set_seat_def)
    then show ?thesis using w(1) by (simp add: bs' b room_ok_def set_seat_def)
  qed
  show "room_leave bs = None \<longleftrightarrow> room_queue bs = []"
    by (auto simp: room_leave_def wr_pop_def room_queue_def window_def)
  show "room_ok bs' \<and> wr_capacity bs' = wr_capacity bs \<and> room_queue bs = x # room_queue bs'"
    if e: "room_leave bs = Some (x, bs')"
  proof -
    obtain p where p: "wr_pop bs = Some (p, bs')" and x: "x = seat_at bs' p"
      using e by (auto simp: room_leave_def split: option.splits)
    note w = wr_pop_ok [OF ok p]
    have b: "bs' = bs\<lparr>wr_start := (wr_start bs + 1) mod wr_capacity bs, wr_count := wr_count bs - 1\<rparr>"
      using p by (auto simp: wr_pop_def split: if_splits)
    have len: "length (waiting_room bs) = wr_capacity bs" using ok by (simp add: room_ok_def)
    show ?thesis
      using window_pop [of "wr_count bs" "wr_start bs" "waiting_room bs"] w len
      by (simp add: b x room_queue_def seat_at_def)
  qed
qed

lemma initialize_barber_ok: "room_ok (initialize_barber cap) \<and> room_queue (initialize_barber cap) = []"
  by (simp add: room_ok_def initialize_barber_def room_queue_def)

text \<open>
  C22: The waiting room is fair: over any sequence of clients taking seats and the barber inviting,
  clients are invited in the order in which they sat down, and never more wait than there are
  seats.
\<close>

theorem waiting_room_fifo:
  assumes "fifo_run room_enter room_leave ops (initialize_barber cap) = (bs, ins, outs)"
  shows "ins = outs @ room_queue bs \<and> length (room_queue bs) \<le> cap"
  using room.fifo_order [OF _ assms] room.fifo_never_overfull [OF _ assms] initialize_barber_ok [of cap]
  by (simp add: initialize_barber_def)

theorem waiting_room_fifo_witness:
  "\<exists>bs. fifo_run room_enter room_leave [Push (new_seat 1), Push (new_seat 2), Push (new_seat 3), Pop, Push (new_seat 4)]
      (initialize_barber 2) = (bs, [new_seat 1, new_seat 2, new_seat 4], [new_seat 1]) \<and>
    [new_seat 1, new_seat 2, new_seat 4] = [new_seat 1] @ room_queue bs"
proof -
  have "\<exists>bs. fifo_run room_enter room_leave
      [Push (new_seat 1), Push (new_seat 2), Push (new_seat 3), Pop, Push (new_seat 4)] (initialize_barber 2) =
      (bs, [new_seat 1, new_seat 2, new_seat 4], [new_seat 1])"
    by (simp add: room_enter_def room_leave_def wr_push_def wr_pop_def initialize_barber_def set_seat_def seat_at_def
        numeral_2_eq_2)
  then show ?thesis using waiting_room_fifo by blast
qed

end
