(* ===== verification/Barber.thy ===== *)
theory Barber
  imports Barber_Shop Transition
begin

text \<open>
  The processes of the sleeping barber: \<open>cw07/zad1/src/barber.c\<close> and \<open>client.c\<close>.  A process is
  a program counter between semaphore operations; a step is one semaphore operation with the
  plain code up to the next one, and a wait on a zero semaphore has no step.  Interrupted waits
  and signals are left out; the listener process, which starts the clients, is in \<open>Barber_Main\<close>: here the
  number of clients is arbitrary.  A client's process id is its index.
\<close>

datatype barber_pc = B_Lock | B_InRoom | B_UnlockServe | B_Sleep | B_WaitReady | B_Cut | B_WaitOut

datatype client_pc = C_Loop | C_Lock | C_InRoom | C_UnlockWoke | C_Sit | C_UnlockSeat nat | C_WaitSeat nat
  | C_SitFrom nat | C_WaitCut | C_Out | C_UnlockFull | C_Exit | C_Done

record customer =
  c_pc :: client_pc
  haircuts :: nat

record barber_sys =
  shop :: barber_shop_mem
  barber :: barber_pc
  customers :: "customer list"

fun barber_step :: "barber_pc \<Rightarrow> barber_shop_mem \<Rightarrow> (barber_pc \<times> barber_shop_mem) option" where
  "barber_step B_Lock bs =
     (if 0 < mx_waiting_room bs then Some (B_InRoom, bs\<lparr>mx_waiting_room := mx_waiting_room bs - 1\<rparr>) else None)"
| "barber_step B_InRoom bs =
     (case wr_pop bs of
        Some (p, bs') \<Rightarrow>
          Some (B_UnlockServe, set_seat p ((seat_at bs' p)\<lparr>waiting := waiting (seat_at bs' p) + 1\<rparr>) bs')
      | None \<Rightarrow> Some (B_Sleep, bs\<lparr>barber_sleeping := True, mx_waiting_room := mx_waiting_room bs + 1\<rparr>))"
| "barber_step B_UnlockServe bs = Some (B_WaitReady, bs\<lparr>mx_waiting_room := mx_waiting_room bs + 1\<rparr>)"
| "barber_step B_Sleep bs =
     (if 0 < sem_barber_sleeping bs
      then Some (B_WaitReady, bs\<lparr>sem_barber_sleeping := sem_barber_sleeping bs - 1\<rparr>) else None)"
| "barber_step B_WaitReady bs =
     (if 0 < sem_customer_ready bs
      then Some (B_Cut, bs\<lparr>sem_customer_ready := sem_customer_ready bs - 1\<rparr>) else None)"
| "barber_step B_Cut bs = Some (B_WaitOut, bs\<lparr>sem_barber_ready := sem_barber_ready bs + 1\<rparr>)"
| "barber_step B_WaitOut bs =
     (if 0 < sem_customer_ready bs
      then Some (B_Lock, bs\<lparr>sem_customer_ready := sem_customer_ready bs - 1\<rparr>) else None)"

definition client_step :: "int \<Rightarrow> customer \<Rightarrow> barber_shop_mem \<Rightarrow> (customer \<times> barber_shop_mem) option" where
  "client_step getpid c bs =
     (case c_pc c of
        C_Loop \<Rightarrow>
          Some (if 0 < haircuts c then c\<lparr>haircuts := haircuts c - 1, c_pc := C_Lock\<rparr> else c\<lparr>c_pc := C_Done\<rparr>, bs)
      | C_Lock \<Rightarrow>
          (if 0 < mx_waiting_room bs
           then Some (c\<lparr>c_pc := C_InRoom\<rparr>, bs\<lparr>mx_waiting_room := mx_waiting_room bs - 1\<rparr>) else None)
      | C_InRoom \<Rightarrow>
          (if barber_sleeping bs
           then Some (c\<lparr>c_pc := C_UnlockWoke\<rparr>,
                  bs\<lparr>barber_sleeping := False, sem_barber_sleeping := sem_barber_sleeping bs + 1\<rparr>)
           else (case wr_push bs of
               None \<Rightarrow> Some (c\<lparr>c_pc := C_UnlockFull\<rparr>, bs)
             | Some (p, bs') \<Rightarrow> Some (c\<lparr>c_pc := C_UnlockSeat p\<rparr>, set_seat p (new_seat getpid) bs')))
      | C_UnlockWoke \<Rightarrow> Some (c\<lparr>c_pc := C_Sit\<rparr>, bs\<lparr>mx_waiting_room := mx_waiting_room bs + 1\<rparr>)
      | C_Sit \<Rightarrow>
          Some (c\<lparr>c_pc := C_WaitCut\<rparr>,
            bs\<lparr>barber_chair := new_seat getpid, sem_customer_ready := sem_customer_ready bs + 1\<rparr>)
      | C_UnlockSeat p \<Rightarrow> Some (c\<lparr>c_pc := C_WaitSeat p\<rparr>, bs\<lparr>mx_waiting_room := mx_waiting_room bs + 1\<rparr>)
      | C_WaitSeat p \<Rightarrow>
          (if 0 < waiting (seat_at bs p)
           then Some (c\<lparr>c_pc := C_SitFrom p\<rparr>,
                  set_seat p ((seat_at bs p)\<lparr>waiting := waiting (seat_at bs p) - 1\<rparr>) bs) else None)
      | C_SitFrom p \<Rightarrow>
          Some (c\<lparr>c_pc := C_WaitCut\<rparr>,
            bs\<lparr>barber_chair := new_seat getpid, sem_customer_ready := sem_customer_ready bs + 1\<rparr>)
      | C_WaitCut \<Rightarrow>
          (if 0 < sem_barber_ready bs
           then Some (c\<lparr>c_pc := C_Out\<rparr>, bs\<lparr>sem_barber_ready := sem_barber_ready bs - 1\<rparr>) else None)
      | C_Out \<Rightarrow>
          Some (c\<lparr>c_pc := C_Loop\<rparr>,
            bs\<lparr>barber_chair := empty_seat, sem_customer_ready := sem_customer_ready bs + 1\<rparr>)
      | C_UnlockFull \<Rightarrow> Some (c\<lparr>c_pc := C_Exit\<rparr>, bs\<lparr>mx_waiting_room := mx_waiting_room bs + 1\<rparr>)
      | C_Exit \<Rightarrow> None
      | C_Done \<Rightarrow> None)"

inductive shop_step :: "barber_sys \<Rightarrow> barber_sys \<Rightarrow> bool" where
  barber_moves: "barber_step (barber s) (shop s) = Some (b, bs) \<Longrightarrow> shop_step s (s\<lparr>barber := b, shop := bs\<rparr>)"
| client_moves: "i < length (customers s) \<Longrightarrow> client_step (int i) (customers s ! i) (shop s) = Some (c, bs) \<Longrightarrow>
    shop_step s (s\<lparr>customers := (customers s)[i := c], shop := bs\<rparr>)"

definition shop_init :: "nat \<Rightarrow> nat list \<Rightarrow> barber_sys" where
  "shop_init wr_cap hs = \<lparr>shop = initialize_barber wr_cap, barber = B_Lock,
     customers = map (\<lambda>h. \<lparr>c_pc = C_Loop, haircuts = h\<rparr>) hs\<rparr>"

subsection \<open>Tokens\<close>

text \<open>
  The weights of the invariant: clients on their way to the chair, in the chair before and
  after the haircut, and holding the mutex.  A posted seat semaphore is an invitation.
\<close>

definition w_sit :: "customer \<Rightarrow> nat" where
  "w_sit c = (case c_pc c of C_UnlockWoke \<Rightarrow> 1 | C_Sit \<Rightarrow> 1 | C_SitFrom _ \<Rightarrow> 1 | _ \<Rightarrow> 0)"

definition w_wait :: "customer \<Rightarrow> nat" where
  "w_wait c = (if c_pc c = C_WaitCut then 1 else 0)"

definition w_out :: "customer \<Rightarrow> nat" where
  "w_out c = (if c_pc c = C_Out then 1 else 0)"

definition w_hold :: "customer \<Rightarrow> nat" where
  "w_hold c = (case c_pc c of C_InRoom \<Rightarrow> 1 | C_UnlockWoke \<Rightarrow> 1 | C_UnlockSeat _ \<Rightarrow> 1 | C_UnlockFull \<Rightarrow> 1 | _ \<Rightarrow> 0)"

lemmas weight_defs = w_sit_def w_wait_def w_out_def w_hold_def

definition invitations :: "barber_sys \<Rightarrow> nat" where
  "invitations s = total waiting (waiting_room (shop s)) + total w_sit (customers s)"

definition in_chair :: "barber_sys \<Rightarrow> nat" where
  "in_chair s = total w_wait (customers s)"

definition getting_out :: "barber_sys \<Rightarrow> nat" where
  "getting_out s = total w_out (customers s)"

definition holds_mutex :: "barber_sys \<Rightarrow> nat" where
  "holds_mutex s = (if barber s = B_InRoom \<or> barber s = B_UnlockServe then 1 else 0) + total w_hold (customers s)"

text \<open>What holds of the semaphores while the barber is at a point of his program.\<close>

definition phase_ok :: "barber_pc \<Rightarrow> nat \<Rightarrow> nat \<Rightarrow> nat \<Rightarrow> barber_shop_mem \<Rightarrow> bool" where
  "phase_ok b tok w out bs \<longleftrightarrow>
     (case b of
        B_Lock \<Rightarrow> tok = 0 \<and> w = 0 \<and> out = 0 \<and> sem_customer_ready bs = 0 \<and> sem_barber_ready bs = 0 \<and>
          sem_barber_sleeping bs = 0 \<and> \<not> barber_sleeping bs
      | B_InRoom \<Rightarrow> tok = 0 \<and> w = 0 \<and> out = 0 \<and> sem_customer_ready bs = 0 \<and> sem_barber_ready bs = 0 \<and>
          sem_barber_sleeping bs = 0 \<and> \<not> barber_sleeping bs
      | B_UnlockServe \<Rightarrow> tok + w \<le> 1 \<and> out = 0 \<and> sem_customer_ready bs = w \<and> sem_barber_ready bs = 0 \<and>
          sem_barber_sleeping bs = 0 \<and> \<not> barber_sleeping bs
      | B_WaitReady \<Rightarrow> tok + w \<le> 1 \<and> out = 0 \<and> sem_customer_ready bs = w \<and> sem_barber_ready bs = 0 \<and>
          sem_barber_sleeping bs = 0 \<and> \<not> barber_sleeping bs
      | B_Sleep \<Rightarrow> out = 0 \<and> sem_barber_ready bs = 0 \<and> sem_customer_ready bs = w \<and>
          (if barber_sleeping bs then tok = 0 \<and> w = 0 \<and> sem_barber_sleeping bs = 0
           else tok + w \<le> 1 \<and> sem_barber_sleeping bs = 1)
      | B_Cut \<Rightarrow> tok = 0 \<and> w = 1 \<and> out = 0 \<and> sem_customer_ready bs = 0 \<and> sem_barber_ready bs = 0 \<and>
          sem_barber_sleeping bs = 0 \<and> \<not> barber_sleeping bs
      | B_WaitOut \<Rightarrow> tok = 0 \<and> w = sem_barber_ready bs \<and> sem_customer_ready bs + sem_barber_ready bs + out = 1 \<and>
          sem_barber_sleeping bs = 0 \<and> \<not> barber_sleeping bs)"

definition chair_ok :: "barber_sys \<Rightarrow> bool" where
  "chair_ok s \<longleftrightarrow> (\<forall>i < length (customers s). c_pc (customers s ! i) \<in> {C_WaitCut, C_Out} \<longrightarrow>
     barber_chair (shop s) = new_seat (int i))"

definition slots_ok :: "barber_sys \<Rightarrow> bool" where
  "slots_ok s \<longleftrightarrow> (\<forall>c \<in> set (customers s). \<forall>p. c_pc c = C_UnlockSeat p \<or> c_pc c = C_WaitSeat p \<longrightarrow>
     p < wr_capacity (shop s))"

definition shop_inv :: "barber_sys \<Rightarrow> bool" where
  "shop_inv s \<longleftrightarrow> room_ok (shop s) \<and> mx_waiting_room (shop s) + holds_mutex s = 1 \<and>
     phase_ok (barber s) (invitations s) (in_chair s) (getting_out s) (shop s) \<and> chair_ok s \<and> slots_ok s"

lemmas token_defs = invitations_def in_chair_def getting_out_def holds_mutex_def

lemma room_ok_other [simp]:
  "room_ok (bs\<lparr>mx_waiting_room := a\<rparr>) = room_ok bs" "room_ok (bs\<lparr>sem_barber_sleeping := a\<rparr>) = room_ok bs"
  "room_ok (bs\<lparr>sem_barber_ready := a\<rparr>) = room_ok bs" "room_ok (bs\<lparr>sem_customer_ready := a\<rparr>) = room_ok bs"
  "room_ok (bs\<lparr>barber_sleeping := x\<rparr>) = room_ok bs" "room_ok (bs\<lparr>barber_chair := y\<rparr>) = room_ok bs"
  "room_ok (set_seat p z bs) = room_ok bs"
  by (simp_all add: room_ok_def set_seat_def)

lemma set_seat_same [simp]:
  "mx_waiting_room (set_seat p z bs) = mx_waiting_room bs"
  "sem_barber_sleeping (set_seat p z bs) = sem_barber_sleeping bs"
  "sem_barber_ready (set_seat p z bs) = sem_barber_ready bs"
  "sem_customer_ready (set_seat p z bs) = sem_customer_ready bs"
  "barber_sleeping (set_seat p z bs) = barber_sleeping bs"
  "barber_chair (set_seat p z bs) = barber_chair bs"
  "wr_capacity (set_seat p z bs) = wr_capacity bs" "wr_count (set_seat p z bs) = wr_count bs"
  "wr_start (set_seat p z bs) = wr_start bs" "wr_end (set_seat p z bs) = wr_end bs"
  "waiting_room (set_seat p z bs) = (waiting_room bs)[p := z]"
  by (simp_all add: set_seat_def)

lemma wr_pop_same:
  assumes "wr_pop bs = Some (p, bs')"
  shows "mx_waiting_room bs' = mx_waiting_room bs" "sem_barber_sleeping bs' = sem_barber_sleeping bs"
    "sem_barber_ready bs' = sem_barber_ready bs" "sem_customer_ready bs' = sem_customer_ready bs"
    "barber_sleeping bs' = barber_sleeping bs" "barber_chair bs' = barber_chair bs"
    "wr_capacity bs' = wr_capacity bs" "waiting_room bs' = waiting_room bs" "wr_end bs' = wr_end bs"
  using assms by (auto simp: wr_pop_def split: if_splits)

lemma wr_push_same:
  assumes "wr_push bs = Some (p, bs')"
  shows "mx_waiting_room bs' = mx_waiting_room bs" "sem_barber_sleeping bs' = sem_barber_sleeping bs"
    "sem_barber_ready bs' = sem_barber_ready bs" "sem_customer_ready bs' = sem_customer_ready bs"
    "barber_sleeping bs' = barber_sleeping bs" "barber_chair bs' = barber_chair bs"
    "wr_capacity bs' = wr_capacity bs" "waiting_room bs' = waiting_room bs" "wr_start bs' = wr_start bs"
  using assms by (auto simp: wr_push_def split: if_splits)

lemma total_waiting_set:
  "p < length xs \<Longrightarrow> total waiting (xs[p := z]) + waiting (xs ! p) = total waiting xs + waiting z"
  by (rule total_update)

subsection \<open>Safety\<close>

lemma barber_step_inv:
  assumes "shop_inv s" and "barber_step (barber s) (shop s) = Some (b, bs)"
  shows "shop_inv (s\<lparr>barber := b, shop := bs\<rparr>)"
proof (cases "barber s")
  case B_InRoom
  show ?thesis
  proof (cases "wr_pop (shop s)")
    case None
    then show ?thesis
      using assms B_InRoom
      by (auto simp: shop_inv_def token_defs phase_ok_def chair_ok_def slots_ok_def)
  next
    case (Some r)
    then obtain p bs' where pop: "wr_pop (shop s) = Some (p, bs')" by (cases r) auto
    have ok: "room_ok (shop s)" using assms(1) by (simp add: shop_inv_def)
    note w = wr_pop_ok [OF ok pop] and same = wr_pop_same [OF pop]
    let ?seat = "(seat_at bs' p)\<lparr>waiting := waiting (seat_at bs' p) + 1\<rparr>"
    have res: "b = B_UnlockServe" "bs = set_seat p ?seat bs'" using assms(2) B_InRoom pop by auto
    have "p < length (waiting_room (shop s))" using ok w(2) by (simp add: room_ok_def)
    from total_waiting_set [OF this, of ?seat]
    have "total waiting ((waiting_room (shop s))[p := ?seat]) = total waiting (waiting_room (shop s)) + 1"
      by (simp add: seat_at_def same)
    then show ?thesis
      using assms(1) B_InRoom res w(1)
      by (auto simp: shop_inv_def token_defs phase_ok_def chair_ok_def slots_ok_def same)
  qed
qed (use assms in \<open>auto simp: shop_inv_def token_defs phase_ok_def chair_ok_def slots_ok_def split: if_splits\<close>)

lemma chair_ok_update:
  assumes "chair_ok s" and "barber_chair bs = barber_chair (shop s)"
    and "c_pc c \<in> {C_WaitCut, C_Out} \<Longrightarrow> c_pc (customers s ! i) \<in> {C_WaitCut, C_Out}"
  shows "chair_ok (s\<lparr>customers := (customers s)[i := c], shop := bs\<rparr>)"
  unfolding chair_ok_def
proof (intro allI impI)
  fix j
  assume j: "j < length (customers (s\<lparr>customers := (customers s)[i := c], shop := bs\<rparr>))"
    and pc: "c_pc (customers (s\<lparr>customers := (customers s)[i := c], shop := bs\<rparr>) ! j) \<in> {C_WaitCut, C_Out}"
  then have "c_pc (customers s ! j) \<in> {C_WaitCut, C_Out}" using assms(3) by (cases "j = i") auto
  then show "barber_chair (shop (s\<lparr>customers := (customers s)[i := c], shop := bs\<rparr>)) = new_seat (int j)"
    using assms(1,2) j by (auto simp: chair_ok_def)
qed

text \<open>Nobody is in the chair while somebody is on the way to it.\<close>

lemma way_to_chair_free:
  assumes "shop_inv s" and "i < length (customers s)" and "w_sit (customers s ! i) = 1"
  shows "in_chair s = 0" and "getting_out s = 0"
proof -
  have "1 \<le> invitations s" using total_ge [OF assms(2), of w_sit] assms(3) by (simp add: invitations_def)
  then show "in_chair s = 0" "getting_out s = 0"
    using assms(1) by (auto simp: shop_inv_def phase_ok_def split: barber_pc.splits if_splits)
qed

lemma chair_ok_alone:
  assumes "\<And>j. j < length (customers s) \<Longrightarrow> j \<noteq> i \<Longrightarrow> c_pc (customers s ! j) \<notin> {C_WaitCut, C_Out}"
    and "c_pc c \<in> {C_WaitCut, C_Out} \<Longrightarrow> barber_chair bs = new_seat (int i)"
  shows "chair_ok (s\<lparr>customers := (customers s)[i := c], shop := bs\<rparr>)"
  unfolding chair_ok_def
proof (intro allI impI)
  fix j
  assume j: "j < length (customers (s\<lparr>customers := (customers s)[i := c], shop := bs\<rparr>))"
    and pc: "c_pc (customers (s\<lparr>customers := (customers s)[i := c], shop := bs\<rparr>) ! j) \<in> {C_WaitCut, C_Out}"
  then have "j = i" using assms(1) [of j] by (cases "j = i") auto
  then show "barber_chair (shop (s\<lparr>customers := (customers s)[i := c], shop := bs\<rparr>)) = new_seat (int j)"
    using assms(2) j pc by simp
qed

text \<open>At most one client is in the chair or on the way to it.\<close>

definition w_chair :: "customer \<Rightarrow> nat" where
  "w_chair c = w_sit c + w_wait c + w_out c"

lemma total_chair: "total w_chair cs = total w_sit cs + total w_wait cs + total w_out cs"
  by (induction cs) (auto simp: w_chair_def)

lemma chair_exclusive:
  assumes "shop_inv s" and "i < length (customers s)" and "j < length (customers s)" and "j \<noteq> i"
    and "w_chair (customers s ! i) = 1"
  shows "w_chair (customers s ! j) = 0"
proof -
  have "total w_chair (customers s) \<le> 1"
    using assms(1)
    by (auto simp: total_chair shop_inv_def token_defs phase_ok_def split: barber_pc.splits if_splits)
  moreover have "w_chair (customers s ! j) + w_chair (customers s ! i) \<le> total w_chair (customers s)"
    by (rule total_two [OF assms(3,2,4)])
  ultimately show ?thesis using assms(5) by simp
qed

lemma slots_ok_update:
  assumes "slots_ok s" and "wr_capacity bs = wr_capacity (shop s)"
    and "\<And>p. c_pc c = C_UnlockSeat p \<or> c_pc c = C_WaitSeat p \<Longrightarrow> p < wr_capacity (shop s)"
  shows "slots_ok (s\<lparr>customers := (customers s)[i := c], shop := bs\<rparr>)"
  using assms by (auto simp: slots_ok_def dest!: subsetD [OF set_update_subset_insert])

lemma client_step_mutex:
  "client_step pid c0 bs0 = Some (c, bs) \<Longrightarrow> mx_waiting_room bs + w_hold c = mx_waiting_room bs0 + w_hold c0"
  by (cases "c_pc c0") (auto simp: client_step_def w_hold_def wr_push_same split: if_splits option.splits)

text \<open>The phases under the steps of a client in and around the chair.\<close>

lemma phase_mutex [simp]: "phase_ok b t w out (bs\<lparr>mx_waiting_room := m\<rparr>) = phase_ok b t w out bs"
  by (cases b) (simp_all add: phase_ok_def)

lemma phase_sit:
  "phase_ok b (Suc t) w out bs \<Longrightarrow>
   phase_ok b t (Suc w) out (bs\<lparr>barber_chair := x, sem_customer_ready := Suc (sem_customer_ready bs)\<rparr>)"
  by (cases b) (auto simp: phase_ok_def split: if_splits)

lemma phase_cut:
  "phase_ok b t (Suc w) out bs \<Longrightarrow> 0 < sem_barber_ready bs \<Longrightarrow>
   phase_ok b t w (Suc out) (bs\<lparr>sem_barber_ready := sem_barber_ready bs - 1\<rparr>)"
  by (cases b) (auto simp: phase_ok_def split: if_splits)

lemma phase_out:
  "phase_ok b t w (Suc out) bs \<Longrightarrow>
   phase_ok b t w out (bs\<lparr>barber_chair := x, sem_customer_ready := Suc (sem_customer_ready bs)\<rparr>)"
  by (cases b) (auto simp: phase_ok_def split: if_splits)

lemma client_step_inv:
  assumes "shop_inv s" and "i < length (customers s)"
    and "client_step (int i) (customers s ! i) (shop s) = Some (c, bs)"
  shows "shop_inv (s\<lparr>customers := (customers s)[i := c], shop := bs\<rparr>)"
proof -
  let ?c = "customers s ! i" and ?s = "s\<lparr>customers := (customers s)[i := c], shop := bs\<rparr>"
  note inv = assms(1) [unfolded shop_inv_def]
  have T: "total w_sit ((customers s)[i := c]) + w_sit ?c = total w_sit (customers s) + w_sit c"
    "total w_wait ((customers s)[i := c]) + w_wait ?c = total w_wait (customers s) + w_wait c"
    "total w_out ((customers s)[i := c]) + w_out ?c = total w_out (customers s) + w_out c"
    "total w_hold ((customers s)[i := c]) + w_hold ?c = total w_hold (customers s) + w_hold c"
    by (rule total_update [OF assms(2)])+
  have G: "w_sit ?c \<le> total w_sit (customers s)" "w_wait ?c \<le> total w_wait (customers s)"
    "w_out ?c \<le> total w_out (customers s)" "w_hold ?c \<le> total w_hold (customers s)"
    by (rule total_ge [OF assms(2)])+
  note step = assms(3) [unfolded client_step_def]
  have sl: "p < wr_capacity (shop s)" if "c_pc ?c = C_UnlockSeat p \<or> c_pc ?c = C_WaitSeat p" for p
    using inv that assms(2) by (auto simp: slots_ok_def)
  have len: "length (waiting_room (shop s)) = wr_capacity (shop s)" using inv by (simp add: room_ok_def)
  have ch: "chair_ok ?s"
  proof (cases "w_chair ?c = 1")
    case True
    have "c_pc (customers s ! j) \<notin> {C_WaitCut, C_Out}" if "j < length (customers s)" "j \<noteq> i" for j
      using chair_exclusive [OF assms(1,2) that True] by (auto simp: w_chair_def weight_defs)
    moreover have "barber_chair bs = new_seat (int i)" if "c_pc c \<in> {C_WaitCut, C_Out}"
    proof (cases "c_pc ?c = C_WaitCut")
      case w: True
      then have "barber_chair (shop s) = new_seat (int i)" using inv assms(2) by (simp add: chair_ok_def)
      then show ?thesis using step w by (auto split: if_splits)
    next
      case False
      then show ?thesis
        using step that by (auto split: client_pc.splits if_splits option.splits prod.splits)
    qed
    ultimately show ?thesis by (rule chair_ok_alone)
  next
    case False
    then show ?thesis
      using step inv
      by (intro chair_ok_update)
        (auto simp: w_chair_def weight_defs wr_push_same split: client_pc.splits if_splits option.splits prod.splits)
  qed
  have so: "slots_ok ?s"
    using step inv sl wr_push_ok(2)
    by (intro slots_ok_update)
      (auto simp: wr_push_same split: client_pc.splits if_splits option.splits prod.splits)
  have rm: "room_ok bs"
    using step inv wr_push_ok(1) by (auto split: client_pc.splits if_splits option.splits prod.splits)
  have hold: "mx_waiting_room bs + holds_mutex ?s = 1"
    using client_step_mutex [OF assms(3)] inv T(4) G(4) by (simp add: holds_mutex_def)
  note P = inv [THEN conjunct2, THEN conjunct2, THEN conjunct1]
  have "phase_ok (barber s) (invitations ?s) (in_chair ?s) (getting_out ?s) bs"
  proof (cases "c_pc ?c")
    case C_InRoom
    show ?thesis
    proof (cases "barber_sleeping (shop s)")
      case True
      then show ?thesis
        using C_InRoom step P T G by (cases "barber s") (auto simp: phase_ok_def token_defs weight_defs)
    next
      case False
      have "total waiting (waiting_room bs) \<le> total waiting (waiting_room (shop s))" and
        "bs = shop s \<and> c_pc c = C_UnlockFull \<or> (\<exists>p. c_pc c = C_UnlockSeat p)"
        and "barber_sleeping bs = barber_sleeping (shop s)" "sem_barber_sleeping bs = sem_barber_sleeping (shop s)"
        "sem_barber_ready bs = sem_barber_ready (shop s)" "sem_customer_ready bs = sem_customer_ready (shop s)"
        using C_InRoom False step inv wr_push_ok(2) total_waiting_set [of _ "waiting_room (shop s)" "new_seat (int i)"] len
        by (fastforce simp: wr_push_same new_seat_def split: option.splits)+
      then show ?thesis
        using C_InRoom P T G by (cases "barber s") (auto simp: phase_ok_def token_defs weight_defs)
    qed
  next
    case (C_WaitSeat p)
    let ?z = "(seat_at (shop s) p)\<lparr>waiting := waiting (seat_at (shop s) p) - 1\<rparr>"
    have pos: "0 < waiting (waiting_room (shop s) ! p)" and c: "c_pc c = C_SitFrom p" and bs: "bs = set_seat p ?z (shop s)"
      using C_WaitSeat step by (auto simp: seat_at_def split: if_splits)
    have "total waiting ((waiting_room (shop s))[p := ?z]) + 1 = total waiting (waiting_room (shop s))"
      using total_waiting_set [of p "waiting_room (shop s)" ?z] sl [of p] len C_WaitSeat pos
      by (simp add: seat_at_def)
    then show ?thesis
      using C_WaitSeat c P T G by (cases "barber s") (auto simp: bs phase_ok_def token_defs weight_defs)
  next
    case C_Sit
    then have c: "c_pc c = C_WaitCut" and bs: "bs = (shop s)\<lparr>barber_chair := new_seat (int i),
        sem_customer_ready := sem_customer_ready (shop s) + 1\<rparr>" using step by auto
    then have "invitations s = Suc (invitations ?s)" "in_chair ?s = Suc (in_chair s)" "getting_out ?s = getting_out s"
      using C_Sit T by (simp_all add: token_defs weight_defs)
    then show ?thesis using P bs by (simp add: phase_sit)
  next
    case (C_SitFrom p)
    then have c: "c_pc c = C_WaitCut" and bs: "bs = (shop s)\<lparr>barber_chair := new_seat (int i),
        sem_customer_ready := sem_customer_ready (shop s) + 1\<rparr>" using step by auto
    then have "invitations s = Suc (invitations ?s)" "in_chair ?s = Suc (in_chair s)" "getting_out ?s = getting_out s"
      using C_SitFrom T by (simp_all add: token_defs weight_defs)
    then show ?thesis using P bs by (simp add: phase_sit)
  next
    case C_WaitCut
    then have c: "c_pc c = C_Out" and br: "0 < sem_barber_ready (shop s)"
      and bs: "bs = (shop s)\<lparr>sem_barber_ready := sem_barber_ready (shop s) - 1\<rparr>"
      using step by (auto split: if_splits)
    then have "invitations ?s = invitations s" "in_chair s = Suc (in_chair ?s)" "getting_out ?s = Suc (getting_out s)"
      using C_WaitCut T by (simp_all add: token_defs weight_defs)
    then show ?thesis using P bs br phase_cut by simp
  next
    case C_Out
    then have c: "c_pc c = C_Loop" and bs: "bs = (shop s)\<lparr>barber_chair := empty_seat,
        sem_customer_ready := sem_customer_ready (shop s) + 1\<rparr>" using step by auto
    then have "invitations ?s = invitations s" "in_chair ?s = in_chair s" "getting_out s = Suc (getting_out ?s)"
      using C_Out T by (simp_all add: token_defs weight_defs)
    then show ?thesis using P bs by (simp add: phase_out)
  next
    case C_UnlockWoke
    then have c: "c_pc c = C_Sit" and bs: "bs = (shop s)\<lparr>mx_waiting_room := mx_waiting_room (shop s) + 1\<rparr>"
      using step by auto
    then have "invitations ?s = invitations s" "in_chair ?s = in_chair s" "getting_out ?s = getting_out s"
      using C_UnlockWoke T by (simp_all add: token_defs weight_defs)
    then show ?thesis using P bs by simp
  next
    case C_Exit
    then show ?thesis using step by simp
  next
    case C_Done
    then show ?thesis using step by simp
  qed (use T step P in \<open>auto simp: token_defs weight_defs split: if_splits\<close>)
  then show ?thesis using ch so rm hold by (simp add: shop_inv_def)
qed


subsection \<open>The queue and its owners\<close>

text \<open>
  Which seat a waiting client sits on, and what the room looks like when every seat in the
  queue, and a seat whose semaphore is posted, belongs to a client waiting on it.
\<close>

definition seat_of :: "client_pc \<Rightarrow> nat option" where
  "seat_of pc = (case pc of C_UnlockSeat p \<Rightarrow> Some p | C_WaitSeat p \<Rightarrow> Some p | _ \<Rightarrow> None)"

definition own :: "customer list \<Rightarrow> nat \<Rightarrow> nat option" where
  "own cs i = (if i < length cs then seat_of (c_pc (cs ! i)) else None)"

abbreviation q_pos :: "barber_shop_mem \<Rightarrow> nat \<Rightarrow> nat" where
  "q_pos bs k \<equiv> (wr_start bs + k) mod wr_capacity bs"

definition queue_ok :: "(nat \<Rightarrow> nat option) \<Rightarrow> barber_shop_mem \<Rightarrow> bool" where
  "queue_ok ow bs \<longleftrightarrow>
     (\<forall>i p. ow i = Some p \<longrightarrow> p < wr_capacity bs \<and> seat_pid (waiting_room bs ! p) = int i \<and>
        (waiting (waiting_room bs ! p) = 0 \<longrightarrow> (\<exists>k < wr_count bs. p = q_pos bs k))) \<and>
     (\<forall>k < wr_count bs. waiting (waiting_room bs ! q_pos bs k) = 0 \<and> (\<exists>i. ow i = Some (q_pos bs k))) \<and>
     (\<forall>p < wr_capacity bs. 0 < waiting (waiting_room bs ! p) \<longrightarrow>
        (\<exists>i. ow i = Some p) \<and> (p + 1) mod wr_capacity bs = wr_start bs)"

lemma own_update: "i < length cs \<Longrightarrow> own (cs[i := c]) = (own cs)(i := seat_of (c_pc c))"
  by (rule ext) (auto simp: own_def)

lemma queue_okD:
  assumes "queue_ok ow bs"
  shows "ow i = Some p \<Longrightarrow> p < wr_capacity bs" and "ow i = Some p \<Longrightarrow> seat_pid (waiting_room bs ! p) = int i"
    and "ow i = Some p \<Longrightarrow> waiting (waiting_room bs ! p) = 0 \<Longrightarrow> \<exists>k < wr_count bs. p = q_pos bs k"
    and "k < wr_count bs \<Longrightarrow> waiting (waiting_room bs ! q_pos bs k) = 0"
    and "k < wr_count bs \<Longrightarrow> \<exists>i. ow i = Some (q_pos bs k)"
    and "p < wr_capacity bs \<Longrightarrow> 0 < waiting (waiting_room bs ! p) \<Longrightarrow> \<exists>i. ow i = Some p"
    and "p < wr_capacity bs \<Longrightarrow> 0 < waiting (waiting_room bs ! p) \<Longrightarrow> (p + 1) mod wr_capacity bs = wr_start bs"
  using assms unfolding queue_ok_def by blast+

lemma owner_unique: "queue_ok ow bs \<Longrightarrow> ow i = Some p \<Longrightarrow> ow j = Some p \<Longrightarrow> i = j"
  using queue_okD(2) [of ow bs i p] queue_okD(2) [of ow bs j p] by simp

text \<open>The queue has at most as many entries as there are waiting clients, and one fewer when
  somebody is invited.\<close>

lemma queue_owners:
  assumes "queue_ok ow bs" and "room_ok bs" and "\<And>i. ow i \<noteq> None \<Longrightarrow> i < n" and "finite E" and "E \<subseteq> {..<n}"
    and "\<And>e k. e \<in> E \<Longrightarrow> k < wr_count bs \<Longrightarrow> ow e \<noteq> Some (q_pos bs k)"
  shows "wr_count bs + card E \<le> n"
proof -
  have "\<forall>k \<in> {..<wr_count bs}. \<exists>i. ow i = Some (q_pos bs k)" using queue_okD(5) [OF assms(1)] by blast
  then obtain f where f: "\<forall>k \<in> {..<wr_count bs}. ow (f k) = Some (q_pos bs k)" by (metis bchoice)
  have cap: "wr_count bs \<le> wr_capacity bs" using assms(2) by (simp add: room_ok_def)
  have inj: "inj_on f {..<wr_count bs}"
  proof (rule inj_onI)
    fix x y
    assume xy: "x \<in> {..<wr_count bs}" "y \<in> {..<wr_count bs}" "f x = f y"
    then have "q_pos bs x = q_pos bs y" using f by (metis option.inject)
    with xy cap mod_add_neq [of x y "wr_capacity bs" "wr_start bs"] mod_add_neq [of y x "wr_capacity bs" "wr_start bs"]
    show "x = y" by (metis lessThan_iff linorder_neqE_nat order_less_le_trans)
  qed
  have "f ` {..<wr_count bs} \<inter> E = {}" using f assms(6) by blast
  then have "card (f ` {..<wr_count bs} \<union> E) = wr_count bs + card E"
    using inj assms(4) by (simp add: card_Un_disjoint card_image)
  moreover have "f ` {..<wr_count bs} \<union> E \<subseteq> {..<n}" using f assms(3,5) by fastforce
  then have "card (f ` {..<wr_count bs} \<union> E) \<le> n" by (metis card_lessThan card_mono finite_lessThan)
  ultimately show ?thesis by simp
qed

text \<open>With no more clients than seats, the seat a client takes is free and its semaphore is not
  posted: no invitation is overwritten.\<close>

lemma push_seat_free:
  assumes "queue_ok ow bs" and "room_ok bs" and "\<And>j. ow j \<noteq> None \<Longrightarrow> j < n" and "n \<le> wr_capacity bs"
    and "i < n" and "ow i = None"
  shows "wr_count bs < wr_capacity bs" and "waiting (waiting_room bs ! q_pos bs (wr_count bs)) = 0"
    and "ow j \<noteq> Some (q_pos bs (wr_count bs))"
proof -
  let ?p = "q_pos bs (wr_count bs)"
  have "wr_count bs + card {i} \<le> n"
    using assms(5,6) by (intro queue_owners [OF assms(1-3)]) auto
  then show c: "wr_count bs < wr_capacity bs" using assms(4) by simp
  have notq: "?p \<noteq> q_pos bs k" if "k < wr_count bs" for k
    using mod_add_neq [OF that c, of "wr_start bs"] by simp
  have p: "?p < wr_capacity bs" using c by simp
  show w: "waiting (waiting_room bs ! ?p) = 0"
  proof (rule ccontr)
    assume "waiting (waiting_room bs ! ?p) \<noteq> 0"
    then have pos: "0 < waiting (waiting_room bs ! ?p)" by simp
    from queue_okD(6) [OF assms(1) p pos] obtain a where a: "ow a = Some ?p" by blast
    have "(wr_start bs + (wr_count bs + 1)) mod wr_capacity bs = wr_start bs"
      using queue_okD(7) [OF assms(1) p pos] by (simp add: mod_simps)
    moreover have "wr_start bs = (wr_start bs + 0) mod wr_capacity bs" using assms(2) c by (simp add: room_ok_def)
    ultimately have "\<not> wr_count bs + 1 < wr_capacity bs"
      using mod_add_neq [of 0 "wr_count bs + 1" "wr_capacity bs" "wr_start bs"] by auto
    moreover have "ow e \<noteq> Some (q_pos bs k)" if "e \<in> {a, i}" "k < wr_count bs" for e k
      using that a assms(6) notq [OF that(2)] by (metis empty_iff insert_iff option.distinct(1) option.inject)
    then have "wr_count bs + card {a, i} \<le> n"
      using assms(3) [of a] assms(5) a by (intro queue_owners [OF assms(1-3)]) auto
    moreover have "a \<noteq> i" using a assms(6) by auto
    ultimately show False using assms(4) by simp
  qed
  show "ow j \<noteq> Some ?p" using queue_okD(3) [OF assms(1) _ w] notq by blast
qed

lemma queue_push:
  assumes "queue_ok ow bs" and "room_ok bs" and "\<And>j. ow j \<noteq> None \<Longrightarrow> j < n" and "n \<le> wr_capacity bs"
    and "i < n" and "ow i = None" and "wr_push bs = Some (p, bs')"
  shows "queue_ok (ow(i := Some p)) (set_seat p (new_seat (int i)) bs')"
proof -
  note free = push_seat_free [OF assms(1-6)] and D = queue_okD [OF assms(1)]
  have p: "p = q_pos bs (wr_count bs)" "p < wr_capacity bs" using wr_push_ok [OF assms(2,7)] by auto
  have bs': "bs' = bs\<lparr>wr_end := (wr_end bs + 1) mod wr_capacity bs, wr_count := wr_count bs + 1\<rparr>"
    using assms(7) by (auto simp: wr_push_def split: if_splits)
  have len: "length (waiting_room bs) = wr_capacity bs" using assms(2) by (simp add: room_ok_def)
  let ?b = "set_seat p (new_seat (int i)) bs'"
  have room: "waiting_room ?b ! q = (if q = p then new_seat (int i) else waiting_room bs ! q)" for q
    using p(2) len by (simp add: bs' nth_list_update)
  have pos: "q_pos ?b k = q_pos bs k" "wr_count ?b = wr_count bs + 1" "wr_capacity ?b = wr_capacity bs"
    "wr_start ?b = wr_start bs" for k by (simp_all add: bs')
  have notq: "q_pos bs k \<noteq> p" if "k < wr_count bs" for k
    using mod_add_neq [OF that free(1), of "wr_start bs"] p(1) by simp
  have own: "(ow(i := Some p)) j = Some q \<longleftrightarrow> j = i \<and> q = p \<or> j \<noteq> i \<and> ow j = Some q" for j q by auto
  have other: "q \<noteq> p" if "ow j = Some q" for j q using free(3) p(1) that by auto
  show ?thesis
    unfolding queue_ok_def
  proof (intro conjI allI impI)
    fix j q
    assume "(ow(i := Some p)) j = Some q"
    then consider "j = i" "q = p" | "j \<noteq> i" "ow j = Some q" unfolding own by blast
    note c = this
    show "q < wr_capacity ?b" using c p(2) D(1) by cases (auto simp: bs')
    show "seat_pid (waiting_room ?b ! q) = int j" using c D(2) other unfolding room by cases (auto simp: new_seat_def)
    assume w: "waiting (waiting_room ?b ! q) = 0"
    show "\<exists>k < wr_count ?b. q = q_pos ?b k" using c
    proof cases
      case 1
      then show ?thesis using p(1) by (auto simp: bs')
    next
      case 2
      then have "waiting (waiting_room bs ! q) = 0" using w other unfolding room by simp
      from D(3) [OF 2(2) this] show ?thesis unfolding pos by (metis less_add_one order_less_trans)
    qed
  next
    fix k
    assume "k < wr_count ?b"
    then consider "k = wr_count bs" | "k < wr_count bs" unfolding pos by linarith
    note c = this
    show "waiting (waiting_room ?b ! q_pos ?b k) = 0"
      using c p(1) D(4) notq unfolding pos room by cases (auto simp: new_seat_def)
    show "\<exists>j. (ow(i := Some p)) j = Some (q_pos ?b k)" using c
    proof cases
      case 1
      then show ?thesis using p(1) unfolding pos by (metis fun_upd_same)
    next
      case 2
      then obtain j where "ow j = Some (q_pos bs k)" using D(5) by blast
      then show ?thesis using assms(6) unfolding pos by (metis fun_upd_other option.distinct(1))
    qed
  next
    fix q
    assume q: "q < wr_capacity ?b" "0 < waiting (waiting_room ?b ! q)"
    then have "q \<noteq> p" unfolding room by (auto simp: new_seat_def)
    with q have q': "q < wr_capacity bs" "0 < waiting (waiting_room bs ! q)" unfolding room pos by simp_all
    obtain j where "ow j = Some q" using D(6) [OF q'] by blast
    then show "\<exists>j. (ow(i := Some p)) j = Some q" using assms(6) by (metis fun_upd_other option.distinct(1))
    show "(q + 1) mod wr_capacity ?b = wr_start ?b" using D(7) [OF q'] unfolding pos .
  qed
qed


lemma queue_pop:
  assumes "queue_ok ow bs" and "room_ok bs" and "wr_pop bs = Some (p, bs')"
    and "\<And>q. q < wr_capacity bs \<Longrightarrow> waiting (waiting_room bs ! q) = 0"
  shows "queue_ok ow (set_seat p ((seat_at bs' p)\<lparr>waiting := waiting (seat_at bs' p) + 1\<rparr>) bs')"
proof -
  note D = queue_okD [OF assms(1)]
  let ?b = "set_seat p ((seat_at bs' p)\<lparr>waiting := waiting (seat_at bs' p) + 1\<rparr>) bs'"
  have p: "p = wr_start bs" "p < wr_capacity bs" "0 < wr_count bs" using wr_pop_ok [OF assms(2,3)] by auto
  have bs': "bs' = bs\<lparr>wr_start := (wr_start bs + 1) mod wr_capacity bs, wr_count := wr_count bs - 1\<rparr>"
    using assms(3) by (auto simp: wr_pop_def split: if_splits)
  have len: "length (waiting_room bs) = wr_capacity bs" and cap: "wr_count bs \<le> wr_capacity bs"
    using assms(2) by (simp_all add: room_ok_def)
  have room: "waiting_room ?b ! q = (if q = p then (waiting_room bs ! p)\<lparr>waiting := 1\<rparr> else waiting_room bs ! q)" for q
    using p(2) len assms(4) [of p] by (simp add: bs' seat_at_def nth_list_update)
  have pos: "q_pos ?b k = q_pos bs (Suc k)" "wr_count ?b = wr_count bs - 1" "wr_capacity ?b = wr_capacity bs" for k
    by (simp_all add: bs' mod_simps)
  have st: "wr_start ?b = (wr_start bs + 1) mod wr_capacity bs" by (simp add: bs')
  have p0: "p = q_pos bs 0" using p(1,2) by simp
  have notp: "q_pos bs (Suc k) \<noteq> p" if "k < wr_count bs - 1" for k
  proof -
    have "Suc k < wr_capacity bs" using that cap by linarith
    then show ?thesis using mod_add_neq [of 0 "Suc k" "wr_capacity bs" "wr_start bs"] p0 by auto
  qed
  show ?thesis
    unfolding queue_ok_def
  proof (intro conjI allI impI)
    fix j q
    assume o: "ow j = Some q"
    show "q < wr_capacity ?b" using D(1) [OF o] unfolding pos .
    show "seat_pid (waiting_room ?b ! q) = int j" using D(2) [OF o] unfolding room by auto
    assume "waiting (waiting_room ?b ! q) = 0"
    then have q: "q \<noteq> p" unfolding room by auto
    obtain k where k: "k < wr_count bs" "q = q_pos bs k"
      using D(3) [OF o assms(4) [OF D(1) [OF o]]] by blast
    with q p0 obtain m where "k = Suc m" by (cases k) auto
    with k show "\<exists>k < wr_count ?b. q = q_pos ?b k" by (intro exI [of _ m]) (auto simp: bs' mod_simps)
  next
    fix k
    assume "k < wr_count ?b"
    then have k: "k < wr_count bs - 1" "Suc k < wr_count bs" unfolding pos by auto
    show "waiting (waiting_room ?b ! q_pos ?b k) = 0"
      using notp [OF k(1)] D(4) [OF k(2)] unfolding pos(1) room by simp
    show "\<exists>i. ow i = Some (q_pos ?b k)" using D(5) [OF k(2)] unfolding pos(1) .
  next
    fix q
    assume "q < wr_capacity ?b" "0 < waiting (waiting_room ?b ! q)"
    then have q: "q = p" using assms(4) [of q] unfolding pos room by (auto split: if_splits)
    show "\<exists>i. ow i = Some q" using D(5) [OF p(3)] q p0 by simp
    show "(q + 1) mod wr_capacity ?b = wr_start ?b" using q p(1) unfolding pos st by simp
  qed
qed

lemma queue_wait:
  assumes "queue_ok ow bs" and "room_ok bs" and "ow i = Some p" and "waiting (waiting_room bs ! p) = 1"
    and "\<And>q. q < wr_capacity bs \<Longrightarrow> q \<noteq> p \<Longrightarrow> waiting (waiting_room bs ! q) = 0"
  shows "queue_ok (ow(i := None)) (set_seat p ((seat_at bs p)\<lparr>waiting := waiting (seat_at bs p) - 1\<rparr>) bs)"
proof -
  note D = queue_okD [OF assms(1)]
  let ?b = "set_seat p ((seat_at bs p)\<lparr>waiting := waiting (seat_at bs p) - 1\<rparr>) bs"
  have p: "p < wr_capacity bs" and len: "length (waiting_room bs) = wr_capacity bs"
    using D(1) [OF assms(3)] assms(2) by (simp_all add: room_ok_def)
  have room: "waiting_room ?b ! q = (if q = p then (waiting_room bs ! p)\<lparr>waiting := 0\<rparr> else waiting_room bs ! q)" for q
    using p len assms(4) by (simp add: seat_at_def nth_list_update)
  have notq: "q_pos bs k \<noteq> p" if "k < wr_count bs" for k using D(4) [OF that] assms(4) by auto
  show ?thesis
    unfolding queue_ok_def
  proof (intro conjI allI impI)
    fix j q
    assume "(ow(i := None)) j = Some q"
    then have o: "ow j = Some q" and j: "j \<noteq> i" by (auto split: if_splits)
    have q: "q \<noteq> p" using owner_unique [OF assms(1) o] assms(3) j by auto
    show "q < wr_capacity ?b" using D(1) [OF o] by simp
    show "seat_pid (waiting_room ?b ! q) = int j" using D(2) [OF o] q unfolding room by simp
    assume "waiting (waiting_room ?b ! q) = 0"
    then show "\<exists>k < wr_count ?b. q = q_pos ?b k" using D(3) [OF o] q unfolding room by simp
  next
    fix k
    assume "k < wr_count ?b"
    then have k: "k < wr_count bs" by simp
    show "waiting (waiting_room ?b ! q_pos ?b k) = 0" using notq [OF k] D(4) [OF k] unfolding room by simp
    obtain j where j: "ow j = Some (q_pos bs k)" using D(5) [OF k] by blast
    then have "j \<noteq> i" using notq [OF k] assms(3) by auto
    then show "\<exists>j. (ow(i := None)) j = Some (q_pos ?b k)" using j by (intro exI [of _ j]) simp
  next
    fix q
    assume "q < wr_capacity ?b" "0 < waiting (waiting_room ?b ! q)"
    then have False using assms(5) [of q] unfolding room by (auto split: if_splits)
    then show "\<exists>j. (ow(i := None)) j = Some q" "(q + 1) mod wr_capacity ?b = wr_start ?b" by auto
  qed
qed


subsection \<open>Liveness with no more clients than seats\<close>

text \<open>
  Every invitation is outstanding until it is taken up: while the barber waits for a customer,
  exactly one client is invited, on the way or seated.  Nobody is turned away.
\<close>

definition served :: "barber_sys \<Rightarrow> bool" where
  "served s \<longleftrightarrow>
     (barber s = B_UnlockServe \<or> barber s = B_WaitReady \<or> barber s = B_Sleep \<and> \<not> barber_sleeping (shop s) \<longrightarrow>
        invitations s + in_chair s = 1) \<and>
     (barber_sleeping (shop s) \<longrightarrow> wr_count (shop s) = 0) \<and>
     (\<forall>c \<in> set (customers s). c_pc c \<noteq> C_UnlockFull \<and> c_pc c \<noteq> C_Exit)"

definition live_inv :: "barber_sys \<Rightarrow> bool" where
  "live_inv s \<longleftrightarrow> shop_inv s \<and> queue_ok (own (customers s)) (shop s) \<and> served s \<and>
     length (customers s) \<le> wr_capacity (shop s)"

lemma no_invitation_seats:
  assumes "invitations s = 0" and "room_ok (shop s)" and "q < wr_capacity (shop s)"
  shows "waiting (waiting_room (shop s) ! q) = 0"
  using assms total_ge [of q "waiting_room (shop s)" waiting] by (simp add: invitations_def room_ok_def)

lemma one_invitation_seats:
  assumes "shop_inv s" and "p < wr_capacity (shop s)" and "0 < waiting (waiting_room (shop s) ! p)"
  shows "waiting (waiting_room (shop s) ! p) = 1"
    and "q < wr_capacity (shop s) \<Longrightarrow> q \<noteq> p \<Longrightarrow> waiting (waiting_room (shop s) ! q) = 0"
proof -
  have len: "length (waiting_room (shop s)) = wr_capacity (shop s)" using assms(1) by (simp add: shop_inv_def room_ok_def)
  have "invitations s \<le> 1"
    using assms(1) by (auto simp: shop_inv_def phase_ok_def split: barber_pc.splits if_splits)
  then have t: "total waiting (waiting_room (shop s)) \<le> 1" by (simp add: invitations_def)
  show "waiting (waiting_room (shop s) ! p) = 1"
    using total_ge [of p "waiting_room (shop s)" waiting] t len assms(2,3) by simp
  show "waiting (waiting_room (shop s) ! q) = 0" if "q < wr_capacity (shop s)" "q \<noteq> p"
    using total_two [of p "waiting_room (shop s)" q waiting] that t len assms(2,3) by simp
qed

lemma barber_step_room:
  assumes "barber_step b bs = Some (b', bs')" and "\<not> (b = B_InRoom \<and> wr_pop bs \<noteq> None)"
  shows "waiting_room bs' = waiting_room bs" and "wr_start bs' = wr_start bs"
    and "wr_count bs' = wr_count bs" and "wr_capacity bs' = wr_capacity bs"
proof -
  have "waiting_room bs' = waiting_room bs \<and> wr_start bs' = wr_start bs \<and> wr_count bs' = wr_count bs \<and>
      wr_capacity bs' = wr_capacity bs"
    using assms by (cases b) (auto split: if_splits option.splits)
  then show "waiting_room bs' = waiting_room bs" and "wr_start bs' = wr_start bs"
    and "wr_count bs' = wr_count bs" and "wr_capacity bs' = wr_capacity bs" by blast+
qed

lemma barber_step_live:
  assumes "live_inv s" and "barber_step (barber s) (shop s) = Some (b, bs)"
  shows "live_inv (s\<lparr>barber := b, shop := bs\<rparr>)"
proof -
  let ?s = "s\<lparr>barber := b, shop := bs\<rparr>"
  have inv: "shop_inv s" and q: "queue_ok (own (customers s)) (shop s)" and sv: "served s"
    and n: "length (customers s) \<le> wr_capacity (shop s)"
    using assms(1) by (auto simp: live_inv_def)
  have inv': "shop_inv ?s" by (rule barber_step_inv [OF inv assms(2)])
  have rm: "room_ok (shop s)" using inv by (simp add: shop_inv_def)
  show ?thesis
  proof (cases "barber s = B_InRoom \<and> wr_pop (shop s) \<noteq> None")
    case True
    then obtain p bs' where pop: "wr_pop (shop s) = Some (p, bs')" and B: "barber s = B_InRoom" by auto
    let ?z = "(seat_at bs' p)\<lparr>waiting := waiting (seat_at bs' p) + 1\<rparr>"
    have bs: "b = B_UnlockServe" "bs = set_seat p ?z bs'" using assms(2) B pop by auto
    have t0: "invitations s = 0" "in_chair s = 0" using inv B by (auto simp: shop_inv_def phase_ok_def)
    have "queue_ok (own (customers s)) bs"
      unfolding bs by (rule queue_pop [OF q rm pop no_invitation_seats [OF t0(1) rm]])
    moreover have "p < length (waiting_room (shop s))" using wr_pop_ok(2) [OF rm pop] rm by (simp add: room_ok_def)
    from total_waiting_set [OF this, of ?z] have "invitations ?s = invitations s + 1"
      by (simp add: invitations_def bs wr_pop_same [OF pop] seat_at_def)
    then have "served ?s" using sv t0 inv' bs
      by (auto simp: served_def in_chair_def shop_inv_def phase_ok_def)
    ultimately show ?thesis using inv' n by (simp add: live_inv_def bs wr_pop_same [OF pop])
  next
    case False
    note same = barber_step_room [OF assms(2) False]
    have "queue_ok (own (customers s)) bs" using q unfolding queue_ok_def same .
    moreover have "phase_ok (barber s) (invitations s) (in_chair s) (getting_out s) (shop s)"
      using inv by (simp add: shop_inv_def)
    moreover have "invitations ?s = invitations s" "in_chair ?s = in_chair s"
      by (simp_all add: invitations_def in_chair_def same)
    ultimately have "served ?s \<and> queue_ok (own (customers s)) bs"
      using False assms(2) sv
      by (cases "barber s") (auto simp: served_def phase_ok_def wr_pop_def split: if_splits)
    then show ?thesis using inv' n same by (simp add: live_inv_def)
  qed
qed


lemma own_bound: "own cs j \<noteq> None \<Longrightarrow> j < length cs"
  by (auto simp: own_def split: if_splits)

lemma served_customers:
  assumes "served s" and "c_pc c \<noteq> C_UnlockFull" and "c_pc c \<noteq> C_Exit"
  shows "\<forall>c' \<in> set ((customers s)[i := c]). c_pc c' \<noteq> C_UnlockFull \<and> c_pc c' \<noteq> C_Exit"
  using assms by (auto simp: served_def dest!: subsetD [OF set_update_subset_insert])

text \<open>A client takes a seat.\<close>

lemma push_live:
  assumes "live_inv s" and "i < length (customers s)" and "c_pc (customers s ! i) = C_InRoom"
    and "\<not> barber_sleeping (shop s)" and "client_step (int i) (customers s ! i) (shop s) = Some (c, bs)"
  shows "live_inv (s\<lparr>customers := (customers s)[i := c], shop := bs\<rparr>)"
proof -
  let ?s = "s\<lparr>customers := (customers s)[i := c], shop := bs\<rparr>"
  have inv: "shop_inv s" and q: "queue_ok (own (customers s)) (shop s)" and sv: "served s"
    and n: "length (customers s) \<le> wr_capacity (shop s)" and rm: "room_ok (shop s)"
    using assms(1) by (auto simp: live_inv_def shop_inv_def)
  have o: "own (customers s) i = None" using assms(2,3) by (simp add: own_def seat_of_def)
  note free = push_seat_free [OF q rm own_bound n assms(2) o]
  obtain p bs' where push: "wr_push (shop s) = Some (p, bs')" using free(1) by (simp add: wr_push_def)
  then have c: "c_pc c = C_UnlockSeat p" and bs: "bs = set_seat p (new_seat (int i)) bs'"
    using assms(3-5) by (auto simp: client_step_def)
  note same = wr_push_same [OF push] and p = wr_push_ok(2,3) [OF rm push]
  have "queue_ok (own ((customers s)[i := c])) bs"
    using queue_push [OF q rm own_bound n assms(2) o push] by (simp add: own_update [OF assms(2)] c bs seat_of_def)
  moreover have "served ?s"
  proof -
    have "p < length (waiting_room (shop s))" using p(1) rm by (simp add: room_ok_def)
    from total_waiting_set [OF this, of "new_seat (int i)"] free(2) p(2)
    have "total waiting (waiting_room bs) = total waiting (waiting_room (shop s))" by (simp add: bs same new_seat_def)
    moreover have "w_sit c = w_sit (customers s ! i)" "w_wait c = w_wait (customers s ! i)"
      using c assms(3) by (simp_all add: weight_defs)
    ultimately have "invitations ?s = invitations s" "in_chair ?s = in_chair s"
      using total_update [OF assms(2), of w_sit c] total_update [OF assms(2), of w_wait c]
      by (simp_all add: invitations_def in_chair_def)
    moreover have "barber_sleeping bs = barber_sleeping (shop s)" by (simp add: bs same)
    ultimately show ?thesis
      using sv served_customers [OF sv, of c i] c assms(4) by (auto simp: served_def)
  qed
  moreover have "shop_inv ?s" by (rule client_step_inv [OF inv assms(2,5)])
  ultimately show ?thesis using n by (simp add: live_inv_def bs same)
qed

text \<open>A client takes up the barber's invitation.\<close>

lemma take_up_live:
  assumes "live_inv s" and "i < length (customers s)" and "c_pc (customers s ! i) = C_WaitSeat p"
    and "client_step (int i) (customers s ! i) (shop s) = Some (c, bs)"
  shows "live_inv (s\<lparr>customers := (customers s)[i := c], shop := bs\<rparr>)"
proof -
  let ?s = "s\<lparr>customers := (customers s)[i := c], shop := bs\<rparr>"
  let ?z = "(seat_at (shop s) p)\<lparr>waiting := waiting (seat_at (shop s) p) - 1\<rparr>"
  have inv: "shop_inv s" and q: "queue_ok (own (customers s)) (shop s)" and sv: "served s"
    and n: "length (customers s) \<le> wr_capacity (shop s)" and rm: "room_ok (shop s)"
    using assms(1) by (auto simp: live_inv_def shop_inv_def)
  have o: "own (customers s) i = Some p" using assms(2,3) by (simp add: own_def seat_of_def)
  have pos: "0 < waiting (waiting_room (shop s) ! p)" and c: "c_pc c = C_SitFrom p" and bs: "bs = set_seat p ?z (shop s)"
    using assms(3,4) by (auto simp: client_step_def seat_at_def split: if_splits)
  have p: "p < wr_capacity (shop s)" by (rule queue_okD(1) [OF q o])
  note one = one_invitation_seats [OF inv p pos]
  have "queue_ok (own ((customers s)[i := c])) bs"
    using queue_wait [OF q rm o one(1) one(2)] by (simp add: own_update [OF assms(2)] c bs seat_of_def)
  moreover have "served ?s"
  proof -
    have "p < length (waiting_room (shop s))" using p rm by (simp add: room_ok_def)
    from total_waiting_set [OF this, of ?z] one(1)
    have "total waiting (waiting_room bs) + 1 = total waiting (waiting_room (shop s))" by (simp add: bs seat_at_def)
    moreover have "w_sit c = w_sit (customers s ! i) + 1" "w_wait c = w_wait (customers s ! i)"
      using c assms(3) by (simp_all add: weight_defs)
    ultimately have "invitations ?s = invitations s" "in_chair ?s = in_chair s"
      using total_update [OF assms(2), of w_sit c] total_update [OF assms(2), of w_wait c]
      by (simp_all add: invitations_def in_chair_def)
    then show ?thesis using sv served_customers [OF sv, of c i] c by (auto simp: served_def bs)
  qed
  moreover have "shop_inv ?s" by (rule client_step_inv [OF inv assms(2,4)])
  ultimately show ?thesis using n by (simp add: live_inv_def bs)
qed

lemma client_step_other:
  assumes "client_step pid c0 bs0 = Some (c, bs)" and "\<not> (c_pc c0 = C_InRoom \<and> \<not> barber_sleeping bs0)"
    and "\<And>p. c_pc c0 \<noteq> C_WaitSeat p"
  shows "waiting_room bs = waiting_room bs0 \<and> wr_start bs = wr_start bs0 \<and> wr_count bs = wr_count bs0 \<and>
    wr_capacity bs = wr_capacity bs0 \<and> seat_of (c_pc c) = seat_of (c_pc c0) \<and>
    (c_pc c0 \<noteq> C_UnlockFull \<longrightarrow> c_pc c \<noteq> C_UnlockFull \<and> c_pc c \<noteq> C_Exit) \<and>
    (barber_sleeping bs \<longrightarrow> barber_sleeping bs0) \<and>
    (c_pc c0 = C_InRoom \<or> c_pc c0 = C_WaitCut \<or> barber_sleeping bs = barber_sleeping bs0 \<and>
      w_sit c + w_wait c = w_sit c0 + w_wait c0)"
  using assms by (cases "c_pc c0") (auto simp: client_step_def seat_of_def weight_defs split: if_splits)

lemma client_step_live:
  assumes "live_inv s" and "i < length (customers s)"
    and "client_step (int i) (customers s ! i) (shop s) = Some (c, bs)"
  shows "live_inv (s\<lparr>customers := (customers s)[i := c], shop := bs\<rparr>)"
proof -
  let ?c = "customers s ! i" and ?s = "s\<lparr>customers := (customers s)[i := c], shop := bs\<rparr>"
  consider "c_pc ?c = C_InRoom" "\<not> barber_sleeping (shop s)" | p where "c_pc ?c = C_WaitSeat p"
    | (other) "\<not> (c_pc ?c = C_InRoom \<and> \<not> barber_sleeping (shop s))" "\<And>p. c_pc ?c \<noteq> C_WaitSeat p" by blast
  then show ?thesis
  proof cases
    case 1
    then show ?thesis by (rule push_live [OF assms(1,2) _ _ assms(3)])
  next
    case 2
    then show ?thesis by (rule take_up_live [OF assms(1,2) _ assms(3)])
  next
    case other
    note E = client_step_other [OF assms(3) other]
    have inv: "shop_inv s" and q: "queue_ok (own (customers s)) (shop s)" and sv: "served s"
      and n: "length (customers s) \<le> wr_capacity (shop s)"
      and P: "phase_ok (barber s) (invitations s) (in_chair s) (getting_out s) (shop s)"
      using assms(1) by (auto simp: live_inv_def shop_inv_def)
    have inv': "shop_inv ?s" by (rule client_step_inv [OF inv assms(2,3)])
    then have P': "phase_ok (barber s) (invitations ?s) (in_chair ?s) (getting_out ?s) bs" by (simp add: shop_inv_def)
    have o: "own ((customers s)[i := c]) = own (customers s)"
      using E by (auto simp: own_update [OF assms(2)] own_def assms(2) fun_eq_iff)
    have "queue_ok (own ((customers s)[i := c])) bs" using q E unfolding o queue_ok_def by simp
    moreover have "c_pc ?c \<noteq> C_UnlockFull" using sv assms(2) by (simp add: served_def)
    then have pcs: "\<forall>c' \<in> set ((customers s)[i := c]). c_pc c' \<noteq> C_UnlockFull \<and> c_pc c' \<noteq> C_Exit"
      using served_customers [OF sv] E by blast
    have "served ?s"
    proof (cases "c_pc ?c = C_InRoom \<or> c_pc ?c = C_WaitCut")
      case True
      have "barber s = B_Sleep \<and> 1 \<le> invitations ?s \<or> barber s = B_WaitOut"
        using True
      proof
        assume "c_pc ?c = C_InRoom"
        then have "barber_sleeping (shop s)" "c_pc c = C_UnlockWoke" using other assms(3) by (auto simp: client_step_def)
        moreover have "w_sit c \<le> total w_sit ((customers s)[i := c])"
          using total_ge [of i "(customers s)[i := c]" w_sit] assms(2) by simp
        ultimately show ?thesis
          using P by (auto simp: phase_ok_def invitations_def w_sit_def split: barber_pc.splits)
      next
        assume "c_pc ?c = C_WaitCut"
        then have "0 < sem_barber_ready (shop s)" using assms(3) by (auto simp: client_step_def split: if_splits)
        then show ?thesis using P by (auto simp: phase_ok_def split: barber_pc.splits if_splits)
      qed
      then have "barber s = B_Sleep \<and> \<not> barber_sleeping bs \<longrightarrow> invitations ?s + in_chair ?s = 1"
        "barber s \<noteq> B_UnlockServe" "barber s \<noteq> B_WaitReady"
        using P' by (auto simp: phase_ok_def)
      moreover have "barber_sleeping bs \<longrightarrow> wr_count bs = 0" using E sv unfolding served_def by metis
      ultimately show ?thesis using pcs by (simp add: served_def)
    next
      case False
      then have w: "w_sit c + w_wait c = w_sit ?c + w_wait ?c" "barber_sleeping bs = barber_sleeping (shop s)"
        using E by auto
      then have "invitations ?s + in_chair ?s = invitations s + in_chair s"
        using total_update [OF assms(2), of w_sit c] total_update [OF assms(2), of w_wait c] E
        by (simp add: invitations_def in_chair_def)
      then show ?thesis using sv w(2) pcs E by (auto simp: served_def)
    qed
    ultimately show ?thesis using inv' n E by (simp add: live_inv_def)
  qed
qed


subsection \<open>Runs\<close>

lemma shop_init_inv: "shop_inv (shop_init cap hs)"
  by (auto simp: shop_inv_def shop_init_def initialize_barber_def room_ok_def token_defs phase_ok_def chair_ok_def
      slots_ok_def weight_defs empty_seat_def total_eq_0_iff)

lemma shop_init_live: "length hs \<le> cap \<Longrightarrow> live_inv (shop_init cap hs)"
  using shop_init_inv [of cap hs]
  by (auto simp: live_inv_def queue_ok_def served_def shop_init_def initialize_barber_def own_def seat_of_def
      empty_seat_def split: if_splits)

interpretation safe: invariant_system shop_step shop_inv
  by unfold_locales (auto elim!: shop_step.cases intro: barber_step_inv client_step_inv)

interpretation live: invariant_system shop_step live_inv
  by unfold_locales (auto elim!: shop_step.cases intro: barber_step_live client_step_live)

definition stuck :: "barber_sys \<Rightarrow> bool" where
  "stuck s \<longleftrightarrow> barber_step (barber s) (shop s) = None \<and>
     (\<forall>i < length (customers s). client_step (int i) (customers s ! i) (shop s) = None)"

lemma stuck_iff: "stuck s \<longleftrightarrow> (\<forall>s'. \<not> shop_step s s')"
proof
  show "\<forall>s'. \<not> shop_step s s'" if "stuck s" using that by (auto simp: stuck_def elim!: shop_step.cases)
  assume no: "\<forall>s'. \<not> shop_step s s'"
  have "barber_step (barber s) (shop s) = None"
    using no barber_moves [of s] by (cases "barber_step (barber s) (shop s)") fastforce+
  moreover have "client_step (int i) (customers s ! i) (shop s) = None" if "i < length (customers s)" for i
    using no client_moves [OF that] by (cases "client_step (int i) (customers s ! i) (shop s)") fastforce+
  ultimately show "stuck s" by (simp add: stuck_def)
qed

text \<open>A schedule names who moves: the barber or a client.\<close>

fun exec :: "nat option list \<Rightarrow> barber_sys \<Rightarrow> barber_sys option" where
  "exec [] s = Some s"
| "exec (None # sched) s =
     (case barber_step (barber s) (shop s) of None \<Rightarrow> None | Some (b, bs) \<Rightarrow> exec sched (s\<lparr>barber := b, shop := bs\<rparr>))"
| "exec (Some i # sched) s =
     (if i < length (customers s) then
        (case client_step (int i) (customers s ! i) (shop s) of
           None \<Rightarrow> None
         | Some (c, bs) \<Rightarrow> exec sched (s\<lparr>customers := (customers s)[i := c], shop := bs\<rparr>))
      else None)"

lemma exec_reachable: "exec sched s = Some s' \<Longrightarrow> shop_step\<^sup>*\<^sup>* s s'"
  by (induction sched s rule: exec.induct)
    (auto split: option.splits if_splits intro: converse_rtranclp_into_rtranclp barber_moves client_moves)

subsection \<open>Nobody waits forever\<close>

lemma blocked_client:
  assumes "client_step pid c bs = None"
  shows "c_pc c = C_Lock \<and> mx_waiting_room bs = 0 \<or> (\<exists>p. c_pc c = C_WaitSeat p \<and> waiting (waiting_room bs ! p) = 0) \<or>
    c_pc c = C_WaitCut \<and> sem_barber_ready bs = 0 \<or> c_pc c = C_Exit \<or> c_pc c = C_Done"
  using assms by (cases "c_pc c") (auto simp: client_step_def seat_at_def split: if_splits option.splits)

lemma total_0I: "(\<And>i. i < length xs \<Longrightarrow> f (xs ! i) = 0) \<Longrightarrow> total f xs = (0::nat)"
  by (auto simp: total_eq_0_iff in_set_conv_nth)

text \<open>When no client can move, nobody is on the way to the chair or holds the mutex.\<close>

lemma stuck_weights:
  assumes "\<forall>i < length cs. client_step (int i) (cs ! i) bs = None"
  shows "total w_sit cs = 0" and "total w_out cs = 0" and "total w_hold cs = 0"
    and "sem_barber_ready bs \<noteq> 0 \<Longrightarrow> total w_wait cs = 0"
proof -
  have b: "c_pc (cs ! i) = C_Lock \<or> (\<exists>p. c_pc (cs ! i) = C_WaitSeat p) \<or> c_pc (cs ! i) = C_WaitCut \<or>
      c_pc (cs ! i) = C_Exit \<or> c_pc (cs ! i) = C_Done" if "i < length cs" for i
    using blocked_client [OF assms [rule_format, OF that]] by (elim disjE exE conjE) simp_all
  have "w_sit (cs ! i) = 0" "w_out (cs ! i) = 0" "w_hold (cs ! i) = 0" if "i < length cs" for i
    using b [OF that] by (elim disjE exE; simp add: weight_defs)+
  then show "total w_sit cs = 0" "total w_out cs = 0" "total w_hold cs = 0" by (simp_all add: total_0I)
  have "w_wait (cs ! i) = 0" if "sem_barber_ready bs \<noteq> 0" "i < length cs" for i
    using blocked_client [OF assms [rule_format, OF that(2)]] that(1) by (elim disjE exE conjE) (simp_all add: w_wait_def)
  then show "total w_wait cs = 0" if "sem_barber_ready bs \<noteq> 0"
    using that by (simp add: total_0I)
qed

lemma stuck_asleep:
  assumes "live_inv s" and "stuck s"
  shows "barber s = B_Sleep \<and> barber_sleeping (shop s) \<and> mx_waiting_room (shop s) = 1"
proof -
  let ?bs = "shop s" and ?cs = "customers s"
  have st: "\<forall>i < length ?cs. client_step (int i) (?cs ! i) ?bs = None" "barber_step (barber s) ?bs = None"
    using assms(2) by (auto simp: stuck_def)
  note W = stuck_weights [OF st(1)]
  have P: "phase_ok (barber s) (invitations s) (in_chair s) (getting_out s) ?bs"
    and mx: "mx_waiting_room ?bs + holds_mutex s = 1" and rm: "room_ok ?bs" and sv: "served s"
    and q: "queue_ok (own ?cs) ?bs"
    using assms(1) by (auto simp: live_inv_def shop_inv_def)
  have b: "barber s \<noteq> B_InRoom" "barber s \<noteq> B_UnlockServe" "barber s \<noteq> B_Cut"
    using st(2) by (auto split: option.splits)
  then have m: "mx_waiting_room ?bs = 1" using mx W(3) by (simp add: holds_mutex_def)
  have noseat: "waiting (waiting_room ?bs ! p) = 0" if "p < wr_capacity ?bs" for p
  proof (rule ccontr)
    assume "waiting (waiting_room ?bs ! p) \<noteq> 0"
    with queue_okD(6) [OF q that] obtain i where o: "own ?cs i = Some p" by blast
    then have i: "i < length ?cs" using own_bound [of ?cs i] by simp
    with o have "c_pc (?cs ! i) = C_UnlockSeat p \<or> c_pc (?cs ! i) = C_WaitSeat p"
      by (auto simp: own_def seat_of_def split: client_pc.splits)
    with blocked_client [of "int i" "?cs ! i" ?bs] st(1) i \<open>waiting (waiting_room ?bs ! p) \<noteq> 0\<close> show False by auto
  qed
  then have "total waiting (waiting_room ?bs) = 0" using rm by (auto simp: total_eq_0_iff in_set_conv_nth room_ok_def)
  then have inv0: "invitations s = 0" using W(1) by (simp add: invitations_def)
  have out0: "getting_out s = 0" using W(2) by (simp add: getting_out_def)
  show ?thesis
  proof (cases "barber s")
    case B_Lock
    then show ?thesis using st(2) m by simp
  next
    case B_Sleep
    then show ?thesis using st(2) P m by (auto simp: phase_ok_def split: if_splits)
  next
    case B_WaitReady
    then have "in_chair s = 1" using sv inv0 by (simp add: served_def)
    then show ?thesis using B_WaitReady st(2) P by (simp add: phase_ok_def)
  next
    case B_WaitOut
    then have "sem_barber_ready ?bs = 1" "in_chair s = 1" using st(2) P out0 by (auto simp: phase_ok_def split: if_splits)
    then show ?thesis using W(4) by (simp add: in_chair_def)
  qed (use b in simp_all)
qed


subsection \<open>Properties\<close>

text \<open>
  With at most as many clients as seats, as the barber program starts them, the shop never
  deadlocks: when no process can move, every client has had all its haircuts, nobody was turned
  away, and the barber sleeps.
\<close>

theorem barber_no_deadlock:
  assumes "shop_step\<^sup>*\<^sup>* (shop_init cap hs) s" and "length hs \<le> cap" and "\<forall>s'. \<not> shop_step s s'"
  shows "barber s = B_Sleep \<and> (\<forall>c \<in> set (customers s). c_pc c = C_Done)"
proof -
  have L: "live_inv s" by (rule live.reachable_inv [OF assms(1) shop_init_live [OF assms(2)]])
  have st: "stuck s" using assms(3) by (simp add: stuck_iff)
  note A = stuck_asleep [OF L st]
  have sv: "served s" and q: "queue_ok (own (customers s)) (shop s)"
    and P: "phase_ok (barber s) (invitations s) (in_chair s) (getting_out s) (shop s)" and rm: "room_ok (shop s)"
    using L by (auto simp: live_inv_def shop_inv_def)
  have z: "invitations s = 0" "in_chair s = 0" "wr_count (shop s) = 0"
    using P A sv by (auto simp: phase_ok_def served_def)
  have "c_pc (customers s ! i) = C_Done" if i: "i < length (customers s)" for i
  proof -
    have "client_step (int i) (customers s ! i) (shop s) = None" using st i by (simp add: stuck_def)
    from blocked_client [OF this] consider "c_pc (customers s ! i) = C_Lock" "mx_waiting_room (shop s) = 0"
      | p where "c_pc (customers s ! i) = C_WaitSeat p" "waiting (waiting_room (shop s) ! p) = 0"
      | "c_pc (customers s ! i) = C_WaitCut" | "c_pc (customers s ! i) = C_Exit" | "c_pc (customers s ! i) = C_Done"
      by (elim disjE exE conjE)
    then show ?thesis
    proof cases
      case (2 p)
      then have "own (customers s) i = Some p" using i by (simp add: own_def seat_of_def)
      with queue_okD(3) [OF q this 2(2)] z(3) show ?thesis by simp
    next
      case 3
      then have "0 < in_chair s" using total_ge [OF i, of w_wait] by (simp add: in_chair_def w_wait_def)
      with z(2) show ?thesis by simp
    next
      case 4
      then show ?thesis using sv i by (auto simp: served_def)
    qed (use A in auto)
  qed
  then show ?thesis using A by (auto simp: in_set_conv_nth)
qed

theorem barber_no_deadlock_witness:
  "\<exists>s. shop_step\<^sup>*\<^sup>* (shop_init 1 [0]) s \<and> barber s = B_Sleep \<and> (\<forall>c \<in> set (customers s). c_pc c = C_Done)"
proof -
  obtain s where e: "exec [None, None, Some 0] (shop_init 1 [0]) = Some s" and st: "stuck s"
    by (simp add: shop_init_def initialize_barber_def client_step_def wr_pop_def stuck_def)
  have r: "shop_step\<^sup>*\<^sup>* (shop_init 1 [0]) s" by (rule exec_reachable [OF e])
  have "barber s = B_Sleep \<and> (\<forall>c \<in> set (customers s). c_pc c = C_Done)"
    using st by (intro barber_no_deadlock [OF r]) (simp_all add: stuck_iff)
  then show ?thesis using r by blast
qed

text \<open>
  C20: In every reachable state, with any number of clients, at most one client is in or on the way
  to the barber's chair, and when the barber cuts, the client he waits for is the one whose seat
  is in the chair.
\<close>

theorem barber_chair_safe:
  assumes "shop_step\<^sup>*\<^sup>* (shop_init cap hs) s"
  shows "total w_chair (customers s) \<le> 1 \<and>
    (barber s = B_Cut \<longrightarrow> (\<exists>i < length (customers s). c_pc (customers s ! i) = C_WaitCut \<and>
       barber_chair (shop s) = new_seat (int i)))"
proof -
  have I: "shop_inv s" by (rule safe.reachable_inv [OF assms shop_init_inv])
  then have P: "phase_ok (barber s) (invitations s) (in_chair s) (getting_out s) (shop s)" and ch: "chair_ok s"
    by (auto simp: shop_inv_def)
  have "total w_chair (customers s) \<le> 1"
    using P by (auto simp: total_chair token_defs phase_ok_def split: barber_pc.splits if_splits)
  moreover have "\<exists>i < length (customers s). c_pc (customers s ! i) = C_WaitCut \<and> barber_chair (shop s) = new_seat (int i)"
    if "barber s = B_Cut"
  proof -
    have "total w_wait (customers s) \<noteq> 0" using P that by (simp add: phase_ok_def in_chair_def)
    then have "\<not> (\<forall>i < length (customers s). w_wait (customers s ! i) = 0)"
      by (rule contrapos_nn) (rule total_0I, simp)
    then obtain i where i: "i < length (customers s)" "w_wait (customers s ! i) \<noteq> 0" by auto
    then have "c_pc (customers s ! i) = C_WaitCut" by (simp add: w_wait_def split: if_splits)
    with i(1) ch show ?thesis by (auto simp: chair_ok_def)
  qed
  ultimately show ?thesis by blast
qed

theorem barber_chair_safe_witness:
  "\<exists>s. shop_step\<^sup>*\<^sup>* (shop_init 1 [1]) s \<and> barber s = B_Cut \<and> barber_chair (shop s) = new_seat 0"
proof -
  obtain s where e: "exec [None, None, Some 0, Some 0, Some 0, Some 0, None, Some 0, None] (shop_init 1 [1]) = Some s"
    and b: "barber s = B_Cut" "length (customers s) = 1"
    by (simp add: shop_init_def initialize_barber_def client_step_def wr_pop_def)
  have r: "shop_step\<^sup>*\<^sup>* (shop_init 1 [1]) s" by (rule exec_reachable [OF e])
  from barber_chair_safe [OF r] b have "barber_chair (shop s) = new_seat 0" by auto
  with r b show ?thesis by blast
qed

text \<open>
  C21: With more clients than seats an invitation can be lost.  One seat, two clients: the first
  sits down, the barber invites it; before it has waited on its seat, the second takes the same
  seat and initialises its semaphore to zero.  Both clients and the barber wait forever.
\<close>

theorem barber_lost_invitation:
  "\<exists>s. shop_step\<^sup>*\<^sup>* (shop_init 1 [1, 1]) s \<and> (\<forall>s'. \<not> shop_step s s') \<and> barber s = B_WaitReady \<and>
     map c_pc (customers s) = [C_WaitSeat 0, C_WaitSeat 0]"
proof -
  obtain s where "exec [Some 0, Some 0, Some 0, Some 0, None, None, None, Some 1, Some 1, Some 1, Some 1]
      (shop_init 1 [1, 1]) = Some s" and "stuck s" "barber s = B_WaitReady" "map c_pc (customers s) = [C_WaitSeat 0, C_WaitSeat 0]"
    by (simp add: shop_init_def initialize_barber_def client_step_def wr_pop_def wr_push_def set_seat_def seat_at_def
        new_seat_def stuck_def less_Suc_eq)
  then show ?thesis using exec_reachable stuck_iff by metis
qed

end
