(* ===== verification/Barber_Runs.thy ===== *)
theory Barber_Runs
  imports Barber
begin

text \<open>
  Runs of the sleeping barber are finite: a customer in the waiting room and a post that wakes the
  barber up are each worth one round of the barber's loop, and a client brings a bounded number of
  them.  With at most as many clients as seats every run therefore ends with everybody served.
\<close>

fun barber_left :: "barber_pc \<Rightarrow> nat" where
  "barber_left B_Sleep = 0"
| "barber_left B_InRoom = 1"
| "barber_left B_Lock = 2"
| "barber_left B_WaitOut = 3"
| "barber_left B_Cut = 4"
| "barber_left B_WaitReady = 5"
| "barber_left B_UnlockServe = 6"

definition client_left :: "customer \<Rightarrow> nat" where
  "client_left c =
     (case c_pc c of
        C_Exit \<Rightarrow> 0
      | C_Done \<Rightarrow> 0
      | pc \<Rightarrow> 20 * haircuts c +
          (case pc of
             C_Loop \<Rightarrow> 1 | C_Lock \<Rightarrow> 20 | C_InRoom \<Rightarrow> 19 | C_UnlockWoke \<Rightarrow> 12 | C_Sit \<Rightarrow> 9 | C_UnlockSeat _ \<Rightarrow> 11
           | C_WaitSeat _ \<Rightarrow> 10 | C_SitFrom _ \<Rightarrow> 9 | C_WaitCut \<Rightarrow> 8 | C_Out \<Rightarrow> 7 | _ \<Rightarrow> 1))"

definition shop_left :: "barber_sys \<Rightarrow> nat" where
  "shop_left s =
     barber_left (barber s) + total client_left (customers s) + 6 * wr_count (shop s) + 6 * sem_barber_sleeping (shop s)"

lemma barber_step_left:
  "barber_step b bs = Some (b', bs') \<Longrightarrow>
     barber_left b' + 6 * wr_count bs' + 6 * sem_barber_sleeping bs' <
     barber_left b + 6 * wr_count bs + 6 * sem_barber_sleeping bs"
  by (cases b) (auto simp: wr_pop_def set_seat_def split: if_splits option.splits)

lemma client_step_left:
  "client_step i c bs = Some (c', bs') \<Longrightarrow>
     client_left c' + 6 * wr_count bs' + 6 * sem_barber_sleeping bs' <
     client_left c + 6 * wr_count bs + 6 * sem_barber_sleeping bs"
  by (cases "c_pc c") (auto simp: client_step_def client_left_def wr_push_def set_seat_def split: if_splits option.splits)

lemma shop_step_left: "shop_step s s' \<Longrightarrow> shop_left s' < shop_left s"
proof (induction rule: shop_step.induct)
  case (barber_moves s b bs)
  then show ?case using barber_step_left by (fastforce simp: shop_left_def)
next
  case (client_moves i s c bs)
  then show ?case using client_step_left [OF client_moves(2)] total_update [OF client_moves(1), of client_left c]
    by (simp add: shop_left_def)
qed

interpretation runs: terminating_system shop_step "\<lambda>_. True" shop_left
  by unfold_locales (auto intro: shop_step_left)

lemma shop_left_init: "shop_left (shop_init cap hs) = 2 + sum_list (map (\<lambda>h. 20 * h + 1) hs)"
  by (simp add: shop_left_def shop_init_def initialize_barber_def total_def client_left_def comp_def)

subsection \<open>Properties\<close>

text \<open>
  Every run of the barber shop is finite, with any number of clients: at most twenty steps for
  every haircut asked for, and one for every client.  With at most as many clients as seats, as the
  barber program starts them, every run can be continued to an end, and an end is where every client
  has had all its haircuts, nobody was turned away, and the barber sleeps.
\<close>

theorem barber_serves_everybody:
  assumes "(shop_step ^^ n) (shop_init cap hs) s"
  shows "n \<le> 2 + sum_list (map (\<lambda>h. 20 * h + 1) hs) \<and>
    (length hs \<le> cap \<longrightarrow>
       (\<exists>t. shop_step\<^sup>*\<^sup>* s t \<and> (\<forall>u. \<not> shop_step t u)) \<and>
       (\<forall>t. shop_step\<^sup>*\<^sup>* s t \<and> (\<forall>u. \<not> shop_step t u) \<longrightarrow>
          barber t = B_Sleep \<and> (\<forall>c \<in> set (customers t). c_pc c = C_Done)))"
proof -
  have "n \<le> 2 + sum_list (map (\<lambda>h. 20 * h + 1) hs)"
    using runs.run_bound [OF TrueI assms] by (simp add: shop_left_init)
  moreover have "shop_step\<^sup>*\<^sup>* (shop_init cap hs) s" using assms by (rule relpowp_imp_rtranclp)
  ultimately show ?thesis
    using runs.reaches_end [OF TrueI, of s] barber_no_deadlock rtranclp_trans [of shop_step] by blast
qed

text \<open>Two clients who want two haircuts each, in a room of two seats.\<close>

theorem barber_serves_everybody_witness:
  "\<exists>t. shop_step\<^sup>*\<^sup>* (shop_init 2 [2, 2]) t \<and> barber t = B_Sleep \<and> (\<forall>c \<in> set (customers t). c_pc c = C_Done)"
proof -
  have "(shop_step ^^ 0) (shop_init 2 [2, 2]) (shop_init 2 [2, 2])" by simp
  from barber_serves_everybody [OF this] show ?thesis by auto
qed

end
