(* ===== verification/Barber_Main.thy ===== *)
theory Barber_Main
  imports Barber_Runs C_Lib
begin

text \<open>
  The barber program from its command line to its exit (\<open>cw07/zad1/src/barber.c\<close>, \<open>client.c\<close> and the
  first half of \<open>barber-shop.c\<close>): it creates the shared memory under a fixed name or key, exclusively,
  forks a listener that starts the clients, and becomes the barber.  On a signal it ends the
  listener and exits, and the function registered with \<open>atexit\<close> removes the shared memory, if there
  is a listener.

  What happens in the memory once a client is running is the subject of \<open>Barber\<close>; here the memory
  stands for how the barber has set it up.
\<close>

subsection \<open>Shared memory\<close>

datatype shm_api = SYS_V | POSIX

text \<open>What is there under the name or key: nothing, an object without size, or a barber shop.\<close>

datatype shm_object = No_Object | Raw_Object | Shop barber_shop_mem

definition get_bs_size :: "size_t \<Rightarrow> size_t \<Rightarrow> int \<Rightarrow> size_t" where
  "get_bs_size sizeof_mem sizeof_seat wr_cap = sizeof_mem + to_size_t wr_cap * sizeof_seat"

text \<open>
  \<open>key\<close> says whether \<open>ftok\<close> finds a key, \<open>avail\<close> which sizes the system gives.  A POSIX object is
  created before its size is set.  A negative capacity leaves no seat, as 0 does.
\<close>

definition shm_create ::
    "shm_api \<Rightarrow> bool \<Rightarrow> (size_t \<Rightarrow> bool) \<Rightarrow> size_t \<Rightarrow> int \<Rightarrow> shm_object \<Rightarrow> shm_object \<times> barber_shop_mem outcome" where
  "shm_create api key avail bs_size wr_cap named =
     (if api = SYS_V \<and> \<not> key then (named, Exit 1)
      else if named \<noteq> No_Object then (named, Exit 1)
      else if \<not> avail bs_size then (if api = SYS_V then No_Object else Raw_Object, Exit 1)
      else (Shop (initialize_barber (nat wr_cap)), Cont (initialize_barber (nat wr_cap))))"

text \<open>Mapping an object of size 0 fails.\<close>

definition initialize_client :: "shm_api \<Rightarrow> bool \<Rightarrow> shm_object \<Rightarrow> barber_shop_mem outcome" where
  "initialize_client api key named =
     (if api = SYS_V \<and> \<not> key then Exit 1
      else case named of No_Object \<Rightarrow> Exit 1 | Raw_Object \<Rightarrow> Exit 1 | Shop bs \<Rightarrow> Cont bs)"

definition dispose_barber :: "shm_object \<Rightarrow> shm_object" where
  "dispose_barber named = No_Object"

subsection \<open>client.c\<close>

definition client_main :: "shm_api \<Rightarrow> bool \<Rightarrow> string list \<Rightarrow> shm_object \<Rightarrow> (customer \<times> barber_shop_mem) outcome" where
  "client_main api key argv named =
     (if length argv \<noteq> 2 then Exit 1
      else
        case initialize_client api key named of
          Cont bs \<Rightarrow> Cont (\<lparr>c_pc = C_Loop, haircuts = nat (atoi (argv ! 1))\<rparr>, bs)
        | Exit i \<Rightarrow> Exit i
        | Out_Of_Bounds \<Rightarrow> Out_Of_Bounds)"

subsection \<open>barber.c\<close>

datatype bm_pc = BM_Start | BM_Open | BM_Fork | BM_Serve | BM_Gone int

datatype bl_pc = BL_None | BL_Spawn nat | BL_Read | BL_Gone

text \<open>
  \<open>bw_listener_pid\<close> is the barber's variable; in the listener it is 0.  \<open>bw_clients\<close> lists the
  arguments of the clients that have been started.
\<close>

record barber_world =
  bw_named :: shm_object
  bw_main :: bm_pc
  bw_listener_pid :: int
  bw_listener :: bl_pc
  bw_term :: bool
  clients_count :: int
  haircuts_no :: int
  bw_clients :: "string list list"

definition bs_cleanup :: "int \<Rightarrow> shm_object \<Rightarrow> shm_object" where
  "bs_cleanup listener_pid named = (if 0 < listener_pid then dispose_barber named else named)"

definition main_exit :: "int \<Rightarrow> barber_world \<Rightarrow> barber_world" where
  "main_exit i w = w\<lparr>bw_main := BM_Gone i, bw_named := bs_cleanup (bw_listener_pid w) (bw_named w)\<rparr>"

definition main_step :: "shm_api \<Rightarrow> bool \<Rightarrow> (size_t \<Rightarrow> bool) \<Rightarrow> (int \<Rightarrow> size_t) \<Rightarrow> string list \<Rightarrow> int \<Rightarrow> barber_world \<Rightarrow> barber_world option" where
  "main_step api key avail bs_size argv forked w =
     (case bw_main w of
        BM_Start \<Rightarrow> Some (if length argv \<noteq> 3 then main_exit 1 w else w\<lparr>bw_main := BM_Open\<rparr>)
      | BM_Open \<Rightarrow>
          (let wr_cap = atoi (argv ! 1) in
           case shm_create api key avail (bs_size wr_cap) wr_cap (bw_named w) of
             (named, Cont bs) \<Rightarrow>
               Some (w\<lparr>bw_named := named, clients_count := wr_cap, haircuts_no := atoi (argv ! 2), bw_main := BM_Fork\<rparr>)
           | (named, _) \<Rightarrow> Some (main_exit 1 (w\<lparr>bw_named := named\<rparr>)))
      | BM_Fork \<Rightarrow>
          Some (w\<lparr>bw_listener_pid := forked, bw_listener := if 0 < forked then BL_Spawn 0 else BL_None, bw_main := BM_Serve\<rparr>)
      | BM_Serve \<Rightarrow> None
      | BM_Gone i \<Rightarrow> None)"

definition main_signal :: "barber_world \<Rightarrow> barber_world option" where
  "main_signal w =
     (case bw_main w of
        BM_Gone i \<Rightarrow> None
      | _ \<Rightarrow> Some (main_exit 0 (if 0 < bw_listener_pid w then w\<lparr>bw_term := True\<rparr> else w)))"

text \<open>The listener: \<open>spawn_clients\<close>, and the loop that reads a key, or nothing at the end of the input.\<close>

definition listener_step :: "bool \<Rightarrow> char option \<Rightarrow> barber_world \<Rightarrow> barber_world option" where
  "listener_step forked gc w =
     (case bw_listener w of
        BL_None \<Rightarrow> None
      | BL_Spawn i \<Rightarrow>
          Some (if int i < clients_count w
                then w\<lparr>bw_clients := bw_clients w @ (if forked then [[''client'', print_d (haircuts_no w)]] else []), bw_listener := BL_Spawn (Suc i)\<rparr>
                else w\<lparr>bw_listener := BL_Read\<rparr>)
      | BL_Read \<Rightarrow> Some (if gc = Some (CHR ''s'') then w\<lparr>bw_listener := BL_Spawn 0\<rparr> else w)
      | BL_Gone \<Rightarrow> None)"

definition listener_signal :: "barber_world \<Rightarrow> barber_world option" where
  "listener_signal w =
     (if bw_listener w \<in> {BL_None, BL_Gone} then None
      else Some (w\<lparr>bw_listener := BL_Gone, bw_named := bs_cleanup 0 (bw_named w)\<rparr>))"

datatype bw_event = Bw_Main int | Bw_Signal | Bw_Listener bool "char option" | Bw_Listener_Signal

definition bw_act ::
    "shm_api \<Rightarrow> bool \<Rightarrow> (size_t \<Rightarrow> bool) \<Rightarrow> (int \<Rightarrow> size_t) \<Rightarrow> string list \<Rightarrow> bw_event \<Rightarrow> barber_world \<Rightarrow> barber_world option" where
  "bw_act api key avail bs_size argv a w =
     (case a of
        Bw_Main forked \<Rightarrow> main_step api key avail bs_size argv forked w
      | Bw_Signal \<Rightarrow> main_signal w
      | Bw_Listener forked gc \<Rightarrow> listener_step forked gc w
      | Bw_Listener_Signal \<Rightarrow> listener_signal w)"

definition bw_step :: "shm_api \<Rightarrow> bool \<Rightarrow> (size_t \<Rightarrow> bool) \<Rightarrow> (int \<Rightarrow> size_t) \<Rightarrow> string list \<Rightarrow> barber_world \<Rightarrow> barber_world \<Rightarrow> bool" where
  "bw_step api key avail bs_size argv w w' = (\<exists>a. bw_act api key avail bs_size argv a w = Some w')"

definition bw_init :: "shm_object \<Rightarrow> barber_world" where
  "bw_init named =
     \<lparr>bw_named = named, bw_main = BM_Start, bw_listener_pid = -1, bw_listener = BL_None, bw_term = False,
      clients_count = 0, haircuts_no = 0, bw_clients = []\<rparr>"

fun bw_run ::
    "shm_api \<Rightarrow> bool \<Rightarrow> (size_t \<Rightarrow> bool) \<Rightarrow> (int \<Rightarrow> size_t) \<Rightarrow> string list \<Rightarrow> bw_event list \<Rightarrow> barber_world \<Rightarrow> barber_world option" where
  "bw_run api key avail bs_size argv [] w = Some w"
| "bw_run api key avail bs_size argv (a # as) w =
     (case bw_act api key avail bs_size argv a w of None \<Rightarrow> None | Some w' \<Rightarrow> bw_run api key avail bs_size argv as w')"

subsection \<open>Invariant\<close>

definition bw_inv :: "shm_api \<Rightarrow> bool \<Rightarrow> shm_object \<Rightarrow> barber_world \<Rightarrow> bool" where
  "bw_inv api key named0 w \<longleftrightarrow>
     (bw_listener w = BL_None \<longrightarrow> bw_clients w = []) \<and>
     (bw_listener w \<noteq> BL_None \<longrightarrow> 0 < bw_listener_pid w) \<and>
     INT_MIN \<le> haircuts_no w \<and> haircuts_no w \<le> INT_MAX \<and>
     (\<forall>argv \<in> set (bw_clients w). argv = [''client'', print_d (haircuts_no w)]) \<and>
     (case bw_main w of
        BM_Gone i \<Rightarrow>
          if 0 < bw_listener_pid w then bw_named w = No_Object \<and> named0 = No_Object \<and> bw_term w
          else bw_named w = named0 \<or> named0 = No_Object
      | BM_Serve \<Rightarrow> bw_named w = Shop (initialize_barber (nat (clients_count w))) \<and> named0 = No_Object \<and> (api = POSIX \<or> key)
      | BM_Fork \<Rightarrow>
          bw_named w = Shop (initialize_barber (nat (clients_count w))) \<and> named0 = No_Object \<and> (api = POSIX \<or> key) \<and>
          bw_listener w = BL_None \<and> bw_listener_pid w \<le> 0
      | _ \<Rightarrow> bw_named w = named0 \<and> bw_listener w = BL_None \<and> bw_listener_pid w \<le> 0)"

lemma main_step_inv:
  assumes inv: "bw_inv api key named0 w" and st: "main_step api key avail bs_size argv forked w = Some w'"
  shows "bw_inv api key named0 w'"
proof (cases "bw_main w")
  case BM_Open
  have b: "INT_MIN \<le> atoi (argv ! 2) \<and> atoi (argv ! 2) \<le> INT_MAX" by (rule atoi_bounds)
  show ?thesis
    using inv st BM_Open b by (cases api) (auto simp: bw_inv_def main_step_def shm_create_def main_exit_def bs_cleanup_def Let_def split: if_splits)
qed (use inv st in \<open>auto simp: bw_inv_def main_step_def main_exit_def bs_cleanup_def split: if_splits\<close>)

lemma main_signal_inv: "bw_inv api key named0 w \<Longrightarrow> main_signal w = Some w' \<Longrightarrow> bw_inv api key named0 w'"
  by (cases "bw_main w") (auto simp: bw_inv_def main_signal_def main_exit_def bs_cleanup_def dispose_barber_def split: if_splits)

lemma listener_step_inv: "bw_inv api key named0 w \<Longrightarrow> listener_step forked gc w = Some w' \<Longrightarrow> bw_inv api key named0 w'"
  by (cases "bw_main w"; cases "bw_listener w") (auto simp: bw_inv_def listener_step_def split: if_splits)

lemma listener_signal_inv: "bw_inv api key named0 w \<Longrightarrow> listener_signal w = Some w' \<Longrightarrow> bw_inv api key named0 w'"
  by (cases "bw_main w") (auto simp: bw_inv_def listener_signal_def bs_cleanup_def split: if_splits)

lemma bw_act_inv: "bw_inv api key named0 w \<Longrightarrow> bw_act api key avail bs_size argv a w = Some w' \<Longrightarrow> bw_inv api key named0 w'"
  by (cases a) (auto simp: bw_act_def intro: main_step_inv main_signal_inv listener_step_inv listener_signal_inv)

interpretation barber_life: invariant_system "bw_step api key avail bs_size argv" "bw_inv api key named0"
  for api key avail bs_size argv named0
  by unfold_locales (auto simp: bw_step_def intro: bw_act_inv)

lemma bw_inv_init: "bw_inv api key named (bw_init named)"
  by (simp add: bw_inv_def bw_init_def)

lemma bw_run_append:
  "bw_run api key avail bs_size argv (as @ cs) w =
    (case bw_run api key avail bs_size argv as w of None \<Rightarrow> None | Some w' \<Rightarrow> bw_run api key avail bs_size argv cs w')"
  by (induction as arbitrary: w) (auto split: option.splits)

lemma bw_run_reachable: "bw_run api key avail bs_size argv as w = Some w' \<Longrightarrow> (bw_step api key avail bs_size argv)\<^sup>*\<^sup>* w w'"
proof (induction as arbitrary: w)
  case (Cons a as)
  then obtain r where "bw_act api key avail bs_size argv a w = Some r" "bw_run api key avail bs_size argv as r = Some w'"
    by (auto split: option.splits)
  then show ?case using Cons.IH [of r] by (meson converse_rtranclp_into_rtranclp bw_step_def)
qed simp

subsection \<open>Starting the clients\<close>

lemma spawn_round:
  assumes "bw_listener w = BL_Spawn i" and "i + k = nat (clients_count w)"
  shows "bw_run api key avail bs_size argv (replicate (Suc k) (Bw_Listener True gc)) w =
    Some (w\<lparr>bw_clients := bw_clients w @ replicate k [''client'', print_d (haircuts_no w)], bw_listener := BL_Read\<rparr>)"
  using assms
proof (induction k arbitrary: i w)
  case 0
  then show ?case by (simp add: bw_act_def listener_step_def)
next
  case (Suc k)
  let ?w = "w\<lparr>bw_clients := bw_clients w @ [[''client'', print_d (haircuts_no w)]], bw_listener := BL_Spawn (Suc i)\<rparr>"
  have "int i < clients_count w" using Suc.prems(2) by linarith
  then have "bw_act api key avail bs_size argv (Bw_Listener True gc) w = Some ?w"
    using Suc.prems(1) by (simp add: bw_act_def listener_step_def)
  moreover have "bw_run api key avail bs_size argv (replicate (Suc k) (Bw_Listener True gc)) ?w =
      Some (?w\<lparr>bw_clients := bw_clients ?w @ replicate k [''client'', print_d (haircuts_no ?w)], bw_listener := BL_Read\<rparr>)"
    using Suc.prems(2) by (intro Suc.IH [where i = "Suc i"]) simp_all
  ultimately show ?case by (simp del: replicate.simps(2) add: replicate_Suc [of "Suc k" "Bw_Listener True gc"] replicate_Suc [of k "[''client'', print_d (haircuts_no w)]"])
qed

lemma client_main_started:
  assumes "INT_MIN \<le> h" and "h \<le> INT_MAX" and "api = POSIX \<or> key"
  shows "client_main api key [''client'', print_d h] (Shop bs) = Cont (\<lparr>c_pc = C_Loop, haircuts = nat h\<rparr>, bs)"
  using assms by (auto simp: client_main_def initialize_client_def atoi_print_d)

text \<open>A client that is done has had all its haircuts.\<close>

definition satisfied :: "barber_sys \<Rightarrow> bool" where
  "satisfied s = (\<forall>c \<in> set (customers s). c_pc c = C_Done \<longrightarrow> haircuts c = 0)"

lemma client_step_satisfied: "client_step i c bs = Some (c', bs') \<Longrightarrow> c_pc c' = C_Done \<Longrightarrow> haircuts c' = 0"
  by (cases "c_pc c") (auto simp: client_step_def split: if_splits option.splits)

lemma shop_step_satisfied: "shop_step s t \<Longrightarrow> satisfied s \<Longrightarrow> satisfied t"
proof (induction rule: shop_step.induct)
  case (client_moves i s c bs)
  then show ?case using client_step_satisfied [OF client_moves(2)] set_update_subset_insert [of "customers s" i c]
    by (auto simp: satisfied_def)
qed (simp add: satisfied_def)

interpretation happy: invariant_system shop_step satisfied
  by unfold_locales (rule shop_step_satisfied)

lemma shop_ends:
  assumes "(shop_step ^^ k) (shop_init cap hs) s" and "length hs \<le> cap"
  shows "k \<le> 2 + sum_list (map (\<lambda>h. 20 * h + 1) hs) \<and> (\<exists>t. shop_step\<^sup>*\<^sup>* s t \<and> (\<forall>u. \<not> shop_step t u)) \<and>
    (\<forall>t. shop_step\<^sup>*\<^sup>* s t \<and> (\<forall>u. \<not> shop_step t u) \<longrightarrow>
       barber t = B_Sleep \<and> (\<forall>c \<in> set (customers t). c_pc c = C_Done \<and> haircuts c = 0))"
proof -
  have "k \<le> 2 + sum_list (map (\<lambda>h. 20 * h + 1) hs)" using runs.run_bound [OF TrueI assms(1)] by (simp add: shop_left_init)
  moreover have r: "shop_step\<^sup>*\<^sup>* (shop_init cap hs) s" using assms(1) by (rule relpowp_imp_rtranclp)
  moreover have "barber t = B_Sleep \<and> (\<forall>c \<in> set (customers t). c_pc c = C_Done \<and> haircuts c = 0)"
    if t: "shop_step\<^sup>*\<^sup>* s t" "\<forall>u. \<not> shop_step t u" for t
  proof -
    have rt: "shop_step\<^sup>*\<^sup>* (shop_init cap hs) t" using r t(1) by (rule rtranclp_trans)
    have "satisfied (shop_init cap hs)" by (auto simp: satisfied_def shop_init_def)
    then have "satisfied t" by (rule happy.reachable_inv [OF rt])
    then show ?thesis using barber_no_deadlock [OF rt assms(2) t(2)] by (simp add: satisfied_def)
  qed
  ultimately show ?thesis using runs.reaches_end [OF TrueI, of s] by blast
qed

subsection \<open>Properties\<close>


text \<open>
  C18: The barber program with a number of clients and haircuts on its command line sets up the
  shop and starts as many clients as it has seats, so that the processes are those of the shop model
  in their first states.  From there every run is finite and can be continued until every client has
  had all its haircuts and the barber sleeps.
\<close>

theorem barber_program_serves:
  assumes "length argv = 3" and "n = atoi (argv ! 1)" and "h = atoi (argv ! 2)" and "api = POSIX \<or> key" and "avail (bs_size n)" and "0 < pid"
  shows "\<exists>w. bw_run api key avail bs_size argv (Bw_Main 0 # Bw_Main 0 # Bw_Main pid # replicate (Suc (nat n)) (Bw_Listener True None))
      (bw_init No_Object) = Some w \<and> bw_main w = BM_Serve \<and> bw_listener w = BL_Read \<and>
    (let s0 = shop_init (nat n) (replicate (nat n) (nat h)) in
      map (\<lambda>a. client_main api key a (bw_named w)) (bw_clients w) = map (\<lambda>c. Cont (c, shop s0)) (customers s0) \<and>
      (\<forall>k s. (shop_step ^^ k) s0 s \<longrightarrow>
         k \<le> 2 + nat n * (20 * nat h + 1) \<and> (\<exists>t. shop_step\<^sup>*\<^sup>* s t \<and> (\<forall>u. \<not> shop_step t u)) \<and>
         (\<forall>t. shop_step\<^sup>*\<^sup>* s t \<and> (\<forall>u. \<not> shop_step t u) \<longrightarrow>
            barber t = B_Sleep \<and> (\<forall>c \<in> set (customers t). c_pc c = C_Done \<and> haircuts c = 0))))"
proof -
  let ?bs = "initialize_barber (nat n)" and ?s0 = "shop_init (nat n) (replicate (nat n) (nat h))"
  let ?w = "(bw_init No_Object)\<lparr>bw_main := BM_Serve, bw_named := Shop ?bs, bw_listener_pid := pid, bw_listener := BL_Spawn 0, clients_count := n, haircuts_no := h\<rparr>"
  have "bw_run api key avail bs_size argv [Bw_Main 0, Bw_Main 0, Bw_Main pid] (bw_init No_Object) = Some ?w"
    using assms by (auto simp: bw_act_def main_step_def bw_init_def shm_create_def Let_def)
  moreover have sp: "bw_run api key avail bs_size argv (replicate (Suc (nat n)) (Bw_Listener True None)) ?w =
      Some (?w\<lparr>bw_clients := bw_clients ?w @ replicate (nat n) [''client'', print_d (haircuts_no ?w)], bw_listener := BL_Read\<rparr>)"
    by (rule spawn_round) (simp_all add: bw_init_def)
  ultimately have run: "bw_run api key avail bs_size argv (Bw_Main 0 # Bw_Main 0 # Bw_Main pid # replicate (Suc (nat n)) (Bw_Listener True None))
      (bw_init No_Object) = Some (?w\<lparr>bw_clients := replicate (nat n) [''client'', print_d h], bw_listener := BL_Read\<rparr>)"
    using bw_run_append [of api key avail bs_size argv "[Bw_Main 0, Bw_Main 0, Bw_Main pid]" "replicate (Suc (nat n)) (Bw_Listener True None)" "bw_init No_Object"]
    by (simp add: bw_init_def del: replicate_Suc)
  have "client_main api key [''client'', print_d h] (Shop ?bs) = Cont (\<lparr>c_pc = C_Loop, haircuts = nat h\<rparr>, ?bs)"
    using client_main_started [of h api key ?bs] atoi_bounds [of "argv ! 2"] assms(3,4) by blast
  then have "map (\<lambda>a. client_main api key a (Shop ?bs)) (replicate (nat n) [''client'', print_d h]) = map (\<lambda>c. Cont (c, shop ?s0)) (customers ?s0)"
    by (simp add: shop_init_def)
  moreover have "k \<le> 2 + nat n * (20 * nat h + 1) \<and> (\<exists>t. shop_step\<^sup>*\<^sup>* s t \<and> (\<forall>u. \<not> shop_step t u)) \<and>
      (\<forall>t. shop_step\<^sup>*\<^sup>* s t \<and> (\<forall>u. \<not> shop_step t u) \<longrightarrow>
         barber t = B_Sleep \<and> (\<forall>c \<in> set (customers t). c_pc c = C_Done \<and> haircuts c = 0))" if "(shop_step ^^ k) ?s0 s" for k s
    using shop_ends [OF that] by (simp add: sum_list_replicate)
  ultimately show ?thesis unfolding Let_def
    by (intro exI [of _ "?w\<lparr>bw_clients := replicate (nat n) [''client'', print_d h], bw_listener := BL_Read\<rparr>"] conjI allI impI run) simp_all
qed

theorem barber_program_serves_witness:
  "\<exists>w. bw_run POSIX False (\<lambda>_. True) (get_bs_size 192 40) [''barber'', print_d 2, print_d 3]
      (Bw_Main 0 # Bw_Main 0 # Bw_Main 7 # replicate 3 (Bw_Listener True None)) (bw_init No_Object) = Some w \<and> bw_listener w = BL_Read"
proof -
  have a: "atoi (print_d 2) = 2" "atoi (print_d 3) = 3" by (simp_all add: atoi_print_d)
  show ?thesis
    using barber_program_serves [where argv = "[''barber'', print_d 2, print_d 3]" and n = 2 and h = 3 and api = POSIX and key = False and
        avail = "\<lambda>_. True" and bs_size = "get_bs_size 192 40" and pid = 7, OF _ _ _ _ _] a
    by (auto simp: numeral_3_eq_3 numeral_2_eq_2)
qed


text \<open>
  A signal that arrives after the shared memory has been created and before the listener has been
  forked makes the barber exit without removing it, and no barber can start any more; neither can
  a client reach anybody.
\<close>

theorem barber_leaves_shop:
  assumes "length argv = 3" and "n = atoi (argv ! 1)" and "api = POSIX \<or> key" and "avail (bs_size n)"
    and "length argv' = 3"
  shows "\<exists>w. bw_run api key avail bs_size argv [Bw_Main 0, Bw_Main 0, Bw_Signal] (bw_init No_Object) = Some w \<and> bw_main w = BM_Gone 0 \<and>
    bw_named w = Shop (initialize_barber (nat n)) \<and>
    (\<exists>w'. bw_run api key avail bs_size argv' [Bw_Main 0, Bw_Main 0] (bw_init (bw_named w)) = Some w' \<and> bw_main w' = BM_Gone 1 \<and>
      bw_named w' = bw_named w)"
  using assms by (auto simp: bw_act_def main_step_def main_signal_def bw_init_def shm_create_def main_exit_def bs_cleanup_def Let_def)

end
