(* ===== verification/Message_Server.thy ===== *)
theory Message_Server
  imports C_Lib
begin

text \<open>
  The message-queue server and its client (\<open>cw06/zad1/src/server.c\<close>, \<open>client.c\<close>, \<open>config.h\<close>),
  built with System V queues, or with POSIX queues (\<open>POSIXQ\<close>, the build of \<open>cw06/zad2\<close>).
  A message's buffer is the characters before its NUL; the key or name of the queue in a
  handshake, which shares the buffer's bytes, is a field of its own.  What the shell prints for
  a command and whether a client's queue can be opened are parameters.
\<close>

datatype queue_api = SYSV | POSIXQ

abbreviation HANDSHAKE :: int where "HANDSHAKE \<equiv> 1"
abbreviation MIRROR :: int where "MIRROR \<equiv> 2"
abbreviation CALC :: int where "CALC \<equiv> 3"
abbreviation TIME :: int where "TIME \<equiv> 4"
abbreviation END :: int where "END \<equiv> 5"
abbreviation STOP :: int where "STOP \<equiv> 6"

abbreviation CLIENT_MAX :: nat where "CLIENT_MAX \<equiv> 256"
abbreviation MSG_BUF_SIZE :: nat where "MSG_BUF_SIZE \<equiv> 256"

record msg_t =
  m_type :: int
  m_client_id :: int
  m_from :: int
  m_buf :: string
  m_queue :: int

record mq_client =
  mq_pid :: int
  mq_id :: int
  mq_stopped :: bool
  mq_queue :: int

text \<open>
  \<open>mq_response\<close> is the memory of the loop's local \<open>response\<close>, which keeps what the last round
  left in it; \<open>mq_sent\<close> lists the messages that reached a client's queue.
\<close>

record mq_server =
  mq_clients :: "mq_client list"
  mq_end :: bool
  mq_response :: msg_t
  mq_sent :: "(int \<times> msg_t) list"

definition terminate_at_nl :: "string \<Rightarrow> string" where
  "terminate_at_nl c = takeWhile (\<lambda>x. x \<noteq> NL) c"

text \<open>\<open>mirror_text\<close>: the loop of \<open>to[dest++] = from[--len]\<close>, with \<open>to\<close> the part written so far.\<close>

fun mirror_loop :: "string \<Rightarrow> nat \<Rightarrow> string \<Rightarrow> string" where
  "mirror_loop from 0 to = to"
| "mirror_loop from (Suc len) to = mirror_loop from len (to @ [from ! len])"

definition mirror_text :: "string \<Rightarrow> string" where
  "mirror_text from = mirror_loop from (length from) []"

definition calc_command :: "string \<Rightarrow> string" where
  "calc_command expr = ''echo '' @ [CHR 0x27] @ expr @ [CHR 0x27] @ '' | bc 2>&1''"

text \<open>The first line of a command's output, as \<open>fgets\<close> and \<open>terminate_at_nl\<close> leave it in the buffer.\<close>

definition first_line :: "string \<Rightarrow> string" where
  "first_line out = (case fgets MSG_BUF_SIZE out of None \<Rightarrow> [] | Some (l, r) \<Rightarrow> terminate_at_nl (cstr l))"

text \<open>\<open>msgsnd\<close> refuses a message whose type is not positive.\<close>

definition send_to_client :: "queue_api \<Rightarrow> int \<Rightarrow> msg_t \<Rightarrow> mq_server \<Rightarrow> (int \<times> mq_server) outcome" where
  "send_to_client api cid msg sv =
     (if cid < 0 \<or> int CLIENT_MAX \<le> cid then Out_Of_Bounds
      else if api = SYSV \<and> m_type msg < 1 then Cont (-1, sv)
      else Cont (0, sv\<lparr>mq_sent := mq_sent sv @ [(mq_queue (mq_clients sv ! nat cid), msg)]\<rparr>))"

fun free_slot :: "nat \<Rightarrow> mq_client list \<Rightarrow> int" where
  "free_slot i [] = -1"
| "free_slot i (c # cs) = (if mq_stopped c then int i else free_slot (Suc i) cs)"

definition respond :: "queue_api \<Rightarrow> msg_t \<Rightarrow> mq_server \<Rightarrow> mq_server outcome" where
  "respond api response sv =
     (case send_to_client api (m_client_id response) response (sv\<lparr>mq_response := response\<rparr>) of
        Cont (r, sv') \<Rightarrow> Cont sv' | Exit i \<Rightarrow> Exit i | Out_Of_Bounds \<Rightarrow> Out_Of_Bounds)"

definition mq_handshake ::
    "queue_api \<Rightarrow> (int \<Rightarrow> int option) \<Rightarrow> int \<Rightarrow> msg_t \<Rightarrow> mq_server \<Rightarrow> mq_server outcome" where
  "mq_handshake api open_queue getpid msg sv =
     (let cid = free_slot 0 (mq_clients sv) in
      if cid = -1 then Cont sv
      else
        let client = (mq_clients sv ! nat cid)\<lparr>mq_pid := m_from msg, mq_id := cid, mq_stopped := False\<rparr>;
            sv1 = sv\<lparr>mq_clients := (mq_clients sv)[nat cid := client]\<rparr>
        in case open_queue (m_queue msg) of
             None \<Rightarrow> Cont sv1
           | Some q \<Rightarrow>
               respond api ((mq_response sv)\<lparr>m_type := cid, m_from := getpid, m_client_id := cid\<rparr>)
                 (sv1\<lparr>mq_clients := (mq_clients sv1)[nat cid := client\<lparr>mq_queue := q\<rparr>]\<rparr>))"

text \<open>One round of the server's loop, once a message is received.\<close>

definition mq_handle ::
    "queue_api \<Rightarrow> (int \<Rightarrow> int option) \<Rightarrow> (string \<Rightarrow> string) \<Rightarrow> int \<Rightarrow> msg_t \<Rightarrow> mq_server \<Rightarrow> mq_server outcome" where
  "mq_handle api open_queue shell getpid msg sv =
     (if m_type msg = HANDSHAKE then mq_handshake api open_queue getpid msg sv
      else if m_client_id msg < 0 \<or> int CLIENT_MAX \<le> m_client_id msg then Out_Of_Bounds
      else
        let cid = nat (m_client_id msg);
            answer = (\<lambda>text. (mq_response sv)\<lparr>m_type := m_client_id msg, m_client_id := m_client_id msg,
                        m_from := getpid, m_buf := text\<rparr>)
        in if mq_stopped (mq_clients sv ! cid) then Cont sv
           else if m_type msg = STOP then
             Cont (sv\<lparr>mq_clients := (mq_clients sv)[cid := (mq_clients sv ! cid)\<lparr>mq_stopped := True\<rparr>]\<rparr>)
           else if m_type msg = MIRROR then respond api (answer (mirror_text (m_buf msg))) sv
           else if m_type msg = CALC then respond api (answer (first_line (shell (calc_command (m_buf msg))))) sv
           else if m_type msg = TIME then respond api (answer (first_line (shell ''date''))) sv
           else if m_type msg = END then Cont (sv\<lparr>mq_end := True\<rparr>)
           else respond api (mq_response sv) sv)"

text \<open>
  The loop over the messages in the queue: after \<open>END\<close> the queue is emptied without waiting and
  the server exits; before it, an empty queue is waited on, which is where the function ends.
\<close>

fun mq_serve ::
    "queue_api \<Rightarrow> (int \<Rightarrow> int option) \<Rightarrow> (string \<Rightarrow> string) \<Rightarrow> int \<Rightarrow> msg_t list \<Rightarrow> mq_server \<Rightarrow> mq_server outcome" where
  "mq_serve api oq shell getpid [] sv = (if mq_end sv then Exit 0 else Cont sv)"
| "mq_serve api oq shell getpid (m # ms) sv =
     (case mq_handle api oq shell getpid m sv of
        Cont sv' \<Rightarrow> mq_serve api oq shell getpid ms sv' | Exit i \<Rightarrow> Exit i | Out_Of_Bounds \<Rightarrow> Out_Of_Bounds)"

definition mq_init :: "mq_client \<Rightarrow> msg_t \<Rightarrow> mq_server" where
  "mq_init c0 response = \<lparr>mq_clients = replicate CLIENT_MAX (c0\<lparr>mq_stopped := True\<rparr>), mq_end = False,
     mq_response = response, mq_sent = []\<rparr>"

subsection \<open>client.c\<close>

datatype mq_action = Send_Wait msg_t | Send_Exit msg_t | Unrecognized string

text \<open>
  One round of the client's loop on the line \<open>buf\<close> that \<open>fgets\<close> read: the command ends at the
  first space, if there is one, and the newline is cut from the text behind it.
\<close>

definition client_line :: "int \<Rightarrow> int \<Rightarrow> msg_t \<Rightarrow> string \<Rightarrow> mq_action outcome" where
  "client_line client_id getpid msg0 buf =
     (let command = takeWhile (\<lambda>c. c \<noteq> CHR '' '') buf;
          text = terminate_at_nl (drop 1 (dropWhile (\<lambda>c. c \<noteq> CHR '' '') buf));
          msg = (\<lambda>t. msg0\<lparr>m_client_id := client_id, m_from := getpid, m_type := t\<rparr>);
          send = (\<lambda>t. if MSG_BUF_SIZE \<le> length text then Out_Of_Bounds else Cont (Send_Wait ((msg t)\<lparr>m_buf := text\<rparr>)))
      in if command = ''mirror'' then send MIRROR
         else if command = ''calc'' then send CALC
         else if command = ''time'' then send TIME
         else if command = ''end'' then Cont (Send_Exit (msg END))
         else Cont (Unrecognized command))"

subsection \<open>Lemmas\<close>

lemma mirror_loop_rev: "n \<le> length s \<Longrightarrow> mirror_loop s n to = to @ rev (take n s)"
  by (induction n arbitrary: to) (auto simp: take_Suc_conv_app_nth)

lemma mirror_text_rev [simp]: "mirror_text s = rev s"
  by (simp add: mirror_text_def mirror_loop_rev)

lemma calc_command_fits: "length (calc_command expr) + 1 = length expr + 18"
  by (simp add: calc_command_def)

lemma free_slot_some: "free_slot i cs \<noteq> -1 \<Longrightarrow>
    \<exists>k < length cs. free_slot i cs = int (i + k) \<and> mq_stopped (cs ! k) \<and> (\<forall>j < k. \<not> mq_stopped (cs ! j))"
proof (induction cs arbitrary: i)
  case (Cons c cs)
  show ?case
  proof (cases "mq_stopped c")
    case False
    with Cons obtain k where k: "k < length cs" "free_slot (Suc i) cs = int (Suc i + k)" "mq_stopped (cs ! k)"
      "\<forall>j < k. \<not> mq_stopped (cs ! j)" by fastforce
    with False show ?thesis by (intro exI [of _ "Suc k"]) (auto simp: less_Suc_eq_0_disj)
  qed auto
qed simp

text \<open>Active slots carry their index as the client's id.\<close>

definition mq_ok :: "mq_server \<Rightarrow> bool" where
  "mq_ok sv \<longleftrightarrow> length (mq_clients sv) = CLIENT_MAX \<and>
     (\<forall>i < CLIENT_MAX. \<not> mq_stopped (mq_clients sv ! i) \<longrightarrow> mq_id (mq_clients sv ! i) = int i)"

lemma mq_ok_update:
  assumes "mq_ok sv" and "\<not> mq_stopped c \<Longrightarrow> mq_id c = int k"
  shows "mq_ok (sv\<lparr>mq_clients := (mq_clients sv)[k := c]\<rparr>)"
  unfolding mq_ok_def
proof (intro conjI allI impI)
  show "length (mq_clients (sv\<lparr>mq_clients := (mq_clients sv)[k := c]\<rparr>)) = CLIENT_MAX"
    using assms(1) by (simp add: mq_ok_def)
  fix i assume "i < CLIENT_MAX" and "\<not> mq_stopped (mq_clients (sv\<lparr>mq_clients := (mq_clients sv)[k := c]\<rparr>) ! i)"
  then show "mq_id (mq_clients (sv\<lparr>mq_clients := (mq_clients sv)[k := c]\<rparr>) ! i) = int i"
    using assms by (cases "i = k") (auto simp: mq_ok_def)
qed

lemma respond_effect:
  assumes "respond api r sv = Cont sv'"
  shows "0 \<le> m_client_id r" and "m_client_id r < int CLIENT_MAX" and "mq_clients sv' = mq_clients sv"
    and "mq_sent sv' = mq_sent sv @ (if api = SYSV \<and> m_type r < 1 then []
      else [(mq_queue (mq_clients sv ! nat (m_client_id r)), r)])"
  using assms by (auto simp: respond_def send_to_client_def split: if_splits)

lemma respond_ok: "respond api r sv = Cont sv' \<Longrightarrow> mq_ok sv \<Longrightarrow> mq_ok sv'"
  using respond_effect(3) [of api r sv sv'] by (simp add: mq_ok_def)

lemma mq_handshake_effect:
  assumes "mq_handshake api oq getpid msg sv = Cont sv'" and "mq_ok sv"
  shows "mq_ok sv' \<and> (mq_sent sv' = mq_sent sv \<or> (\<exists>k r. k < CLIENT_MAX \<and> mq_stopped (mq_clients sv ! k) \<and>
    \<not> mq_stopped (mq_clients sv' ! k) \<and> m_client_id r = int k \<and>
    mq_sent sv' = mq_sent sv @ [(mq_queue (mq_clients sv' ! k), r)]))"
proof (cases "free_slot 0 (mq_clients sv) = -1")
  case True
  then show ?thesis using assms by (simp add: mq_handshake_def)
next
  case False
  have len: "length (mq_clients sv) = CLIENT_MAX" using assms(2) by (simp add: mq_ok_def)
  obtain k where k: "k < CLIENT_MAX" "free_slot 0 (mq_clients sv) = int k" "mq_stopped (mq_clients sv ! k)"
    using free_slot_some [OF False] len by auto
  let ?c = "(mq_clients sv ! k)\<lparr>mq_pid := m_from msg, mq_id := int k, mq_stopped := False\<rparr>"
  have ok: "mq_ok (sv\<lparr>mq_clients := (mq_clients sv)[k := c]\<rparr>)" if "c = ?c \<or> (\<exists>q. c = ?c\<lparr>mq_queue := q\<rparr>)" for c
    using that by (intro mq_ok_update [OF assms(2)]) auto
  show ?thesis
  proof (cases "oq (m_queue msg)")
    case None
    then have "sv' = sv\<lparr>mq_clients := (mq_clients sv)[k := ?c]\<rparr>"
      using assms(1) k(2) False by (simp add: mq_handshake_def Let_def)
    then show ?thesis using ok [of ?c] by simp
  next
    case (Some q)
    let ?d = "?c\<lparr>mq_queue := q\<rparr>"
    let ?sv = "sv\<lparr>mq_clients := (mq_clients sv)[k := ?d]\<rparr>"
    let ?r = "(mq_response sv)\<lparr>m_type := int k, m_from := getpid, m_client_id := int k\<rparr>"
    have "respond api ?r ?sv = Cont sv'"
      using assms(1) k(2) False Some by (simp add: mq_handshake_def Let_def)
    note E = respond_effect [OF this] and okr = respond_ok [OF this ok]
    have "mq_clients sv' ! k = ?d" using E(3) k(1) len by simp
    moreover have "mq_ok sv'" by (rule okr) auto
    ultimately show ?thesis using E(4) k len by (auto split: if_splits)
  qed
qed

lemma mq_handle_effect:
  assumes "mq_handle api oq shell getpid msg sv = Cont sv'" and "mq_ok sv" and "1 \<le> m_type msg" and "m_type msg \<le> 6"
  shows "mq_ok sv' \<and> (mq_sent sv' = mq_sent sv \<or> (\<exists>k r. k < CLIENT_MAX \<and> \<not> mq_stopped (mq_clients sv' ! k) \<and>
    m_client_id r = int k \<and> mq_sent sv' = mq_sent sv @ [(mq_queue (mq_clients sv' ! k), r)]))"
proof (cases "m_type msg = HANDSHAKE")
  case True
  then show ?thesis using assms(1) mq_handshake_effect [of api oq getpid msg sv sv'] assms(2)
    by (simp add: mq_handle_def) blast
next
  case False
  let ?k = "nat (m_client_id msg)"
  have k: "0 \<le> m_client_id msg" "?k < CLIENT_MAX" "m_client_id msg < int CLIENT_MAX"
    using assms(1) False by (auto simp: mq_handle_def split: if_splits)
  let ?answer = "\<lambda>text. (mq_response sv)\<lparr>m_type := m_client_id msg, m_client_id := m_client_id msg,
    m_from := getpid, m_buf := text\<rparr>"
  have t: "m_type msg = 2 \<or> m_type msg = 3 \<or> m_type msg = 4 \<or> m_type msg = 5 \<or> m_type msg = 6"
    using assms(3,4) False by linarith
  have "sv' = sv \<or> sv' = sv\<lparr>mq_clients := (mq_clients sv)[?k := (mq_clients sv ! ?k)\<lparr>mq_stopped := True\<rparr>]\<rparr> \<or>
    sv' = sv\<lparr>mq_end := True\<rparr> \<or> (\<exists>t. respond api (?answer t) sv = Cont sv' \<and> \<not> mq_stopped (mq_clients sv ! ?k))"
  proof (cases "mq_stopped (mq_clients sv ! ?k)")
    case True
    then show ?thesis using assms(1) False k by (simp add: mq_handle_def Let_def)
  next
    case act: False
    show ?thesis using t
      by (elim disjE) (use assms(1) act k in \<open>simp_all add: mq_handle_def Let_def\<close>, blast+)
  qed
  then consider "sv' = sv" | "sv' = sv\<lparr>mq_clients := (mq_clients sv)[?k := (mq_clients sv ! ?k)\<lparr>mq_stopped := True\<rparr>]\<rparr>"
    | "sv' = sv\<lparr>mq_end := True\<rparr>" | t where "respond api (?answer t) sv = Cont sv'" "\<not> mq_stopped (mq_clients sv ! ?k)"
    by (elim disjE exE conjE)
  then show ?thesis
  proof cases
    case 2
    then show ?thesis using mq_ok_update [OF assms(2), of "(mq_clients sv ! ?k)\<lparr>mq_stopped := True\<rparr>" ?k] by simp
  next
    case 3
    then show ?thesis using assms(2) by (simp add: mq_ok_def)
  next
    case (4 t)
    note E = respond_effect [OF 4(1)]
    have "mq_sent sv' = mq_sent sv \<or> mq_sent sv' = mq_sent sv @ [(mq_queue (mq_clients sv' ! ?k), ?answer t)]"
      using E(3,4) by simp
    moreover have "m_client_id (?answer t) = int ?k" using k by simp
    ultimately show ?thesis using respond_ok [OF 4(1) assms(2)] 4(2) E(3) k(2) by metis
  qed (use assms(2) in simp)
qed

subsection \<open>Properties\<close>

text \<open>
  Mirroring, end to end: an active client typing \<open>mirror\<close> and a text of at most 255
  characters gets the text reversed, in its own queue, provided that its id is positive or the
  queues are POSIX queues; the client table does not change.
\<close>

theorem mq_mirror_end_to_end:
  assumes "mq_ok sv" and "0 \<le> cid" and "cid < int CLIENT_MAX" and "\<not> mq_stopped (mq_clients sv ! nat cid)"
    and "NL \<notin> set str" and "length str < MSG_BUF_SIZE" and "api = POSIXQ \<or> 0 < cid"
  shows "\<exists>msg sv' r. client_line cid pid msg0 (''mirror '' @ str @ [NL]) = Cont (Send_Wait msg) \<and>
    mq_handle api oq shell spid msg sv = Cont sv' \<and> mq_clients sv' = mq_clients sv \<and>
    mq_sent sv' = mq_sent sv @ [(mq_queue (mq_clients sv ! nat cid), r)] \<and> m_buf r = rev str \<and> m_client_id r = cid"
proof -
  have t: "terminate_at_nl (str @ [NL]) = str" using assms(5) by (induction str) (auto simp: terminate_at_nl_def)
  let ?msg = "msg0\<lparr>m_client_id := cid, m_from := pid, m_type := MIRROR, m_buf := str\<rparr>"
  let ?r = "(mq_response sv)\<lparr>m_type := cid, m_client_id := cid, m_from := spid, m_buf := rev str\<rparr>"
  have "client_line cid pid msg0 (''mirror '' @ str @ [NL]) = Cont (Send_Wait ?msg)"
    using assms(6) t by (simp add: client_line_def Let_def)
  moreover have "mq_handle api oq shell spid ?msg sv =
      Cont (sv\<lparr>mq_response := ?r, mq_sent := mq_sent sv @ [(mq_queue (mq_clients sv ! nat cid), ?r)]\<rparr>)"
    using assms(2-4,7) by (auto simp: mq_handle_def respond_def send_to_client_def Let_def)
  ultimately show ?thesis by auto
qed

definition mq_one :: mq_server where
  "mq_one = \<lparr>mq_clients = \<lparr>mq_pid = 7, mq_id = 0, mq_stopped = False, mq_queue = 5\<rparr> #
      replicate 255 \<lparr>mq_pid = 0, mq_id = 0, mq_stopped = True, mq_queue = 0\<rparr>, mq_end = False,
     mq_response = \<lparr>m_type = 0, m_client_id = 0, m_from = 0, m_buf = [], m_queue = 0\<rparr>, mq_sent = []\<rparr>"

lemma mq_one_ok: "mq_ok mq_one"
  by (auto simp: mq_ok_def mq_one_def nth_Cons' split: if_splits)

theorem mq_mirror_end_to_end_witness:
  "\<exists>msg sv' r. client_line 0 7 (mq_response mq_one) (''mirror '' @ ''ab'' @ [NL]) = Cont (Send_Wait msg) \<and>
    mq_handle POSIXQ Some (\<lambda>_. []) 1 msg mq_one = Cont sv' \<and> mq_sent sv' = [(5, r)] \<and> m_buf r = ''ba''"
  using mq_mirror_end_to_end [OF mq_one_ok, of 0 "''ab''" POSIXQ 7 "mq_response mq_one" Some "\<lambda>_. []" 1]
  by (auto simp: mq_one_def)



text \<open>
  With System V queues the first client is never answered: its id is 0, the id is the type of
  the answer, and a message of type 0 cannot be sent.  The slot is taken all the same.
\<close>

theorem mq_first_client_unanswered:
  assumes "oq (m_queue msg) = Some q" and "m_type msg = HANDSHAKE"
  shows "\<exists>sv'. mq_handle SYSV oq shell getpid msg (mq_init c0 response) = Cont sv' \<and>
    mq_sent sv' = [] \<and> \<not> mq_stopped (mq_clients sv' ! 0) \<and> mq_queue (mq_clients sv' ! 0) = q"
proof -
  have "replicate CLIENT_MAX c = c # replicate 255 c" for c :: mq_client
    using replicate_Suc [of 255 c] by simp
  then show ?thesis
    using assms by (simp add: mq_handle_def mq_handshake_def mq_init_def respond_def send_to_client_def Let_def)
qed

theorem mq_first_client_unanswered_witness:
  "\<exists>sv'. mq_handle SYSV Some (\<lambda>_. []) 1 \<lparr>m_type = HANDSHAKE, m_client_id = 0, m_from = 7, m_buf = [], m_queue = 5\<rparr>
      (mq_init \<lparr>mq_pid = 0, mq_id = 0, mq_stopped = True, mq_queue = 0\<rparr> (mq_response mq_one)) = Cont sv' \<and> mq_sent sv' = []"
  using mq_first_client_unanswered [of Some "\<lparr>m_type = HANDSHAKE, m_client_id = 0, m_from = 7, m_buf = [], m_queue = 5\<rparr>" 5
      "\<lambda>_. []" 1 "\<lparr>mq_pid = 0, mq_id = 0, mq_stopped = True, mq_queue = 0\<rparr>" "mq_response mq_one"]
  by auto

text \<open>
  The client does not understand its own commands without an argument: in a line without a
  space the newline stays in the command, so \<open>time\<close> and \<open>end\<close> are unrecognized unless a space
  follows them.
\<close>

theorem mq_command_needs_space:
  assumes "CHR '' '' \<notin> set cmd"
  shows "client_line cid pid msg0 (cmd @ [NL]) = Cont (Unrecognized (cmd @ [NL])) \<and>
   client_line cid pid msg0 (''end '' @ [NL]) = Cont (Send_Exit (msg0\<lparr>m_client_id := cid, m_from := pid, m_type := END\<rparr>))"
proof -
  have "takeWhile (\<lambda>c. c \<noteq> CHR '' '') (cmd @ [NL]) = cmd @ [NL]"
    using assms by (auto simp: takeWhile_eq_all_conv)
  moreover have "last (cmd @ [NL]) = NL" by simp
  then have "cmd @ [NL] \<notin> {''mirror'', ''calc'', ''time'', ''end''}" by fastforce
  ultimately show ?thesis by (simp add: client_line_def Let_def)
qed

theorem mq_command_needs_space_witness:
  "client_line 3 7 (mq_response mq_one) (''time'' @ [NL]) = Cont (Unrecognized (''time'' @ [NL]))"
  using mq_command_needs_space [of "''time''" 3 7 "mq_response mq_one"] by simp

end
