(* ===== verification/Message_Net.thy ===== *)
theory Message_Net
  imports Message_Server Transition
begin

text \<open>
  The server of \<open>cw06\<close> together with its clients, built with POSIX queues: every client shakes
  hands, sends the commands of its input one by one, waits for each answer, and sends \<open>STOP\<close> when
  its input ends.  The server's queue holds ten messages; a client that finds it full waits.

  A client's process id and the name of its queue are its number.  \<open>junk\<close> is what is in a
  message that is not filled in.  The date the server prints may change from call to call.
\<close>

datatype mq_pc = Q_Hello | Q_Await_Id | Q_Loop | Q_Await msg_t | Q_Bye | Q_End | Q_Crash

text \<open>\<open>q_box\<close> is the client's queue, \<open>q_input\<close> what is left of its input, \<open>q_out\<close> the answers printed.\<close>

record mq_proc =
  q_pc :: mq_pc
  q_id :: int
  q_box :: "msg_t list"
  q_input :: string
  q_out :: "string list"

record mq_net =
  net_sv :: mq_server
  net_up :: bool
  net_queue :: "msg_t list"
  net_procs :: "mq_proc list"

abbreviation MQ_MAXMSG :: nat where "MQ_MAXMSG \<equiv> 10"

subsection \<open>client.c\<close>

definition hello_msg :: "msg_t \<Rightarrow> int \<Rightarrow> msg_t" where
  "hello_msg junk i = junk\<lparr>m_from := i, m_type := HANDSHAKE, m_queue := i\<rparr>"

definition stop_msg :: "msg_t \<Rightarrow> int \<Rightarrow> int \<Rightarrow> msg_t" where
  "stop_msg junk i client_id = junk\<lparr>m_client_id := client_id, m_from := i, m_type := STOP\<rparr>"

text \<open>
  Where the commands come from.  The mode \<open>fopen\<close> is given is \<open>O_RDONLY\<close>, a null pointer, so only
  the standard input can be read.
\<close>

definition client_input :: "string list \<Rightarrow> string \<Rightarrow> string outcome" where
  "client_input argv stdin =
     (if 2 < length argv then Exit (-1)
      else
        let path = (if length argv \<noteq> 2 then ''-'' else argv ! 1)
        in if path = ''-'' then Cont stdin else Out_Of_Bounds)"

lemma client_input_stdin: "client_input argv stdin = Cont input \<Longrightarrow> input = stdin \<and> (length argv = 2 \<longrightarrow> argv ! 1 = ''-'')"
  by (auto simp: client_input_def Let_def split: if_splits)

text \<open>
  A step of client \<open>i\<close>: the message it sends, if it sends one, and its new state.  Nothing happens
  while it waits for a message that is not there.
\<close>

definition mq_proc_step :: "msg_t \<Rightarrow> int \<Rightarrow> mq_proc \<Rightarrow> (msg_t option \<times> mq_proc) option" where
  "mq_proc_step junk i p =
     (case q_pc p of
        Q_Hello \<Rightarrow> Some (Some (hello_msg junk i), p\<lparr>q_pc := Q_Await_Id\<rparr>)
      | Q_Await_Id \<Rightarrow>
          (case q_box p of
             [] \<Rightarrow> None
           | m # ms \<Rightarrow> Some (None, p\<lparr>q_pc := Q_Loop, q_id := m_client_id m, q_box := ms\<rparr>))
      | Q_Loop \<Rightarrow>
          (case fgets 1024 (q_input p) of
             None \<Rightarrow> Some (None, p\<lparr>q_pc := Q_Bye\<rparr>)
           | Some (l, r) \<Rightarrow>
               (case client_line (q_id p) i junk (cstr l) of
                  Cont (Send_Wait m) \<Rightarrow> Some (Some m, p\<lparr>q_pc := Q_Await m, q_input := r\<rparr>)
                | Cont (Send_Exit m) \<Rightarrow> Some (Some m, p\<lparr>q_pc := Q_End, q_input := r\<rparr>)
                | Cont (Unrecognized _) \<Rightarrow> Some (None, p\<lparr>q_input := r\<rparr>)
                | _ \<Rightarrow> Some (None, p\<lparr>q_pc := Q_Crash, q_input := r\<rparr>)))
      | Q_Await m \<Rightarrow>
          (case q_box p of
             [] \<Rightarrow> None
           | r # ms \<Rightarrow> Some (None, p\<lparr>q_pc := Q_Loop, q_box := ms, q_out := q_out p @ [m_buf r]\<rparr>))
      | Q_Bye \<Rightarrow> Some (Some (stop_msg junk i (q_id p)), p\<lparr>q_pc := Q_End\<rparr>)
      | Q_End \<Rightarrow> None
      | Q_Crash \<Rightarrow> None)"

subsection \<open>The network\<close>

definition open_name :: "nat \<Rightarrow> int \<Rightarrow> int option" where
  "open_name n q = (if 0 \<le> q \<and> q < int n then Some q else None)"

fun deliver :: "(int \<times> msg_t) list \<Rightarrow> mq_proc list \<Rightarrow> mq_proc list" where
  "deliver [] ps = ps"
| "deliver ((q, m) # sent) ps = deliver sent (ps[nat q := (ps ! nat q)\<lparr>q_box := q_box (ps ! nat q) @ [m]\<rparr>])"

definition shell_at :: "(string \<Rightarrow> string) \<Rightarrow> string \<Rightarrow> string \<Rightarrow> string" where
  "shell_at sh date cmd = (if cmd = ''date'' then date else sh cmd)"

text \<open>The server handles the next message, or exits when it has been told to end and there is none.\<close>

definition serve :: "(string \<Rightarrow> string) \<Rightarrow> int \<Rightarrow> string \<Rightarrow> mq_net \<Rightarrow> mq_net option" where
  "serve sh spid date s =
     (if \<not> net_up s then None
      else
        case net_queue s of
          [] \<Rightarrow> if mq_end (net_sv s) then Some (s\<lparr>net_up := False\<rparr>) else None
        | m # ms \<Rightarrow>
            (case mq_handle POSIXQ (open_name (length (net_procs s))) (shell_at sh date) spid m (net_sv s\<lparr>mq_sent := []\<rparr>) of
               Cont sv \<Rightarrow> Some (s\<lparr>net_sv := sv, net_queue := ms, net_procs := deliver (mq_sent sv) (net_procs s)\<rparr>)
             | _ \<Rightarrow> Some (s\<lparr>net_up := False, net_queue := ms\<rparr>)))"

datatype net_event = Serve string | Client nat

definition net_act :: "msg_t \<Rightarrow> (string \<Rightarrow> string) \<Rightarrow> int \<Rightarrow> net_event \<Rightarrow> mq_net \<Rightarrow> mq_net option" where
  "net_act junk sh spid a s =
     (case a of
        Serve date \<Rightarrow> serve sh spid date s
      | Client i \<Rightarrow>
          if i < length (net_procs s) then
            (case mq_proc_step junk (int i) (net_procs s ! i) of
               None \<Rightarrow> None
             | Some (None, p) \<Rightarrow> Some (s\<lparr>net_procs := (net_procs s)[i := p]\<rparr>)
             | Some (Some m, p) \<Rightarrow>
                 if length (net_queue s) < MQ_MAXMSG
                 then Some (s\<lparr>net_procs := (net_procs s)[i := p], net_queue := net_queue s @ [m]\<rparr>) else None)
          else None)"

definition net_step :: "msg_t \<Rightarrow> (string \<Rightarrow> string) \<Rightarrow> int \<Rightarrow> mq_net \<Rightarrow> mq_net \<Rightarrow> bool" where
  "net_step junk sh spid s t = (\<exists>a. net_act junk sh spid a s = Some t)"

definition net_init :: "mq_client \<Rightarrow> msg_t \<Rightarrow> string list \<Rightarrow> mq_net" where
  "net_init c0 response inputs =
     \<lparr>net_sv = mq_init c0 response, net_up = True, net_queue = [],
      net_procs = map (\<lambda>x. \<lparr>q_pc = Q_Hello, q_id = 0, q_box = [], q_input = x, q_out = []\<rparr>) inputs\<rparr>"

fun net_run :: "msg_t \<Rightarrow> (string \<Rightarrow> string) \<Rightarrow> int \<Rightarrow> net_event list \<Rightarrow> mq_net \<Rightarrow> mq_net option" where
  "net_run junk sh spid [] s = Some s"
| "net_run junk sh spid (a # as) s = (case net_act junk sh spid a s of None \<Rightarrow> None | Some t \<Rightarrow> net_run junk sh spid as t)"

subsection \<open>What a session should give\<close>

text \<open>
  The commands of an input, and how the input ends: at its end, with the command \<open>end\<close>, or with a
  line that overruns the message.
\<close>

datatype ending = At_Eof | At_End | At_Overrun

function session :: "string \<Rightarrow> (int \<times> string) list \<times> ending" where
  "session input =
     (case fgets 1024 input of
        None \<Rightarrow> ([], At_Eof)
      | Some (l, r) \<Rightarrow>
          (let line = cstr l;
               command = takeWhile (\<lambda>c. c \<noteq> CHR '' '') line;
               text = takeWhile (\<lambda>c. c \<noteq> NL) (drop 1 (dropWhile (\<lambda>c. c \<noteq> CHR '' '') line));
               ask = (\<lambda>t. if MSG_BUF_SIZE \<le> length text then ([], At_Overrun)
                          else case session r of (cs, e) \<Rightarrow> ((t, text) # cs, e))
           in if command = ''mirror'' then ask MIRROR
              else if command = ''calc'' then ask CALC
              else if command = ''time'' then ask TIME
              else if command = ''end'' then ([], At_End)
              else session r))"
  by pat_completeness auto
termination by (relation "measure length") (auto dest: fgets_decreases)

declare session.simps [simp del]

text \<open>A text is answered reversed, an expression by the calculator, and \<open>time\<close> by some date.\<close>

fun answers :: "(string \<Rightarrow> string) \<Rightarrow> int \<times> string \<Rightarrow> string \<Rightarrow> bool" where
  "answers sh (t, x) y =
     (if t = MIRROR then y = rev x
      else if t = CALC then y = first_line (sh (calc_command x))
      else t = TIME \<and> (\<exists>date. y = first_line date))"

subsection \<open>Invariant\<close>

text \<open>
  \<open>slot_is cs i k\<close>: slot \<open>k\<close> of the table is taken by client \<open>i\<close>.  \<open>slot_of\<close> is the id a client has been
  given, or will find in its queue.
\<close>

definition slot_is :: "mq_client list \<Rightarrow> nat \<Rightarrow> int \<Rightarrow> bool" where
  "slot_is cs i k \<longleftrightarrow> 0 \<le> k \<and> k < int CLIENT_MAX \<and> \<not> mq_stopped (cs ! nat k) \<and> mq_queue (cs ! nat k) = int i"

definition slot_of :: "mq_proc \<Rightarrow> int option" where
  "slot_of p =
     (case q_pc p of
        Q_Hello \<Rightarrow> None
      | Q_Await_Id \<Rightarrow> (case q_box p of [] \<Rightarrow> None | m # _ \<Rightarrow> Some (m_client_id m))
      | _ \<Rightarrow> Some (q_id p))"

definition mail :: "nat \<Rightarrow> msg_t list \<Rightarrow> msg_t list" where
  "mail i q = filter (\<lambda>m. m_from m = int i) q"

text \<open>Where client \<open>i\<close>'s one message or answer is; \<open>ml\<close> is what it has in the server's queue.\<close>

definition proc_ok :: "(string \<Rightarrow> string) \<Rightarrow> mq_client list \<Rightarrow> msg_t list \<Rightarrow> nat \<Rightarrow> mq_proc \<Rightarrow> bool" where
  "proc_ok sh cs ml i p \<longleftrightarrow>
     (case q_pc p of
        Q_Hello \<Rightarrow> ml = [] \<and> q_box p = []
      | Q_Await_Id \<Rightarrow>
          (q_box p = [] \<and> (\<exists>m. ml = [m] \<and> m_type m = HANDSHAKE \<and> m_queue m = int i)) \<or>
          (ml = [] \<and> (\<exists>r. q_box p = [r] \<and> slot_is cs i (m_client_id r)))
      | Q_Loop \<Rightarrow> ml = [] \<and> q_box p = [] \<and> slot_is cs i (q_id p)
      | Q_Await m \<Rightarrow>
          slot_is cs i (q_id p) \<and> m_client_id m = q_id p \<and> m_type m \<in> {MIRROR, CALC, TIME} \<and>
          ((ml = [m] \<and> q_box p = []) \<or> (ml = [] \<and> (\<exists>r. q_box p = [r] \<and> answers sh (m_type m, m_buf m) (m_buf r))))
      | Q_Bye \<Rightarrow> ml = [] \<and> q_box p = [] \<and> slot_is cs i (q_id p)
      | Q_End \<Rightarrow>
          q_box p = [] \<and>
          (ml = [] \<or> (\<exists>m. ml = [m] \<and> m_type m \<in> {END, STOP} \<and> m_client_id m = q_id p \<and> slot_is cs i (q_id p)))
      | Q_Crash \<Rightarrow> ml = [] \<and> q_box p = [])"

text \<open>What client has been told so far, against the session its input describes.\<close>

definition told :: "(string \<Rightarrow> string) \<Rightarrow> string \<Rightarrow> mq_proc \<Rightarrow> bool" where
  "told sh input p \<longleftrightarrow>
     (case q_pc p of
        Q_End \<Rightarrow> list_all2 (answers sh) (fst (session input)) (q_out p)
      | Q_Crash \<Rightarrow> list_all2 (answers sh) (fst (session input)) (q_out p) \<and> snd (session input) = At_Overrun
      | Q_Bye \<Rightarrow> list_all2 (answers sh) (fst (session input)) (q_out p)
      | Q_Await m \<Rightarrow>
          (\<exists>asked. session input = (asked @ (m_type m, m_buf m) # fst (session (q_input p)), snd (session (q_input p))) \<and>
             list_all2 (answers sh) asked (q_out p))
      | _ \<Rightarrow>
          (\<exists>asked. session input = (asked @ fst (session (q_input p)), snd (session (q_input p))) \<and>
             list_all2 (answers sh) asked (q_out p)))"

definition net_inv :: "(string \<Rightarrow> string) \<Rightarrow> string list \<Rightarrow> mq_net \<Rightarrow> bool" where
  "net_inv sh inputs s \<longleftrightarrow>
     length (net_procs s) = length inputs \<and> length inputs \<le> CLIENT_MAX \<and>
     length (mq_clients (net_sv s)) = CLIENT_MAX \<and>
     (\<forall>i < length inputs. proc_ok sh (mq_clients (net_sv s)) (mail i (net_queue s)) i (net_procs s ! i) \<and>
        told sh (inputs ! i) (net_procs s ! i)) \<and>
     (\<forall>k < CLIENT_MAX. \<not> mq_stopped (mq_clients (net_sv s) ! k) \<longrightarrow>
        (\<exists>i < length inputs. mq_queue (mq_clients (net_sv s) ! k) = int i \<and> slot_of (net_procs s ! i) = Some (int k))) \<and>
     (\<forall>m \<in> set (net_queue s). \<exists>i < length inputs. m_from m = int i) \<and>
     (mq_end (net_sv s) \<or> (\<exists>m \<in> set (net_queue s). m_type m = END) \<longrightarrow> (\<exists>x \<in> set inputs. snd (session x) = At_End)) \<and>
     (net_up s \<or> mq_end (net_sv s))"

lemma mail_simps [simp]:
  "mail i [] = []" "mail i (m # q) = (if m_from m = int i then m # mail i q else mail i q)"
  "mail i (q @ r) = mail i q @ mail i r"
  by (auto simp: mail_def)

subsection \<open>Steps of a client\<close>

lemma client_line_sends:
  "client_line c i junk l = Cont (Send_Wait m) \<Longrightarrow> m_client_id m = c \<and> m_from m = i \<and> m_type m \<in> {MIRROR, CALC, TIME}"
  "client_line c i junk l = Cont (Send_Exit m) \<Longrightarrow> m_client_id m = c \<and> m_from m = i \<and> m_type m = END"
  by (auto simp: client_line_def Let_def split: if_splits)

lemma session_line:
  assumes "fgets 1024 input = Some (l, r)"
  shows "session input =
     (case client_line c i junk (cstr l) of
        Cont (Send_Wait m) \<Rightarrow> ((m_type m, m_buf m) # fst (session r), snd (session r))
      | Cont (Send_Exit m) \<Rightarrow> ([], At_End)
      | Cont (Unrecognized _) \<Rightarrow> session r
      | _ \<Rightarrow> ([], At_Overrun))"
  using assms
  by (subst session.simps) (auto simp: client_line_def terminate_at_nl_def Let_def split: prod.splits)

lemma session_eof: "fgets 1024 input = None \<Longrightarrow> session input = ([], At_Eof)"
  by (subst session.simps) simp

lemma proc_step_ok:
  assumes "proc_ok sh cs ml i p" and "told sh input p" and "mq_proc_step junk (int i) p = Some (mo, p')"
  shows "proc_ok sh cs (ml @ (case mo of None \<Rightarrow> [] | Some m \<Rightarrow> [m])) i p' \<and> told sh input p' \<and> slot_of p' = slot_of p \<and>
    (\<forall>m. mo = Some m \<longrightarrow> m_from m = int i \<and> (m_type m = END \<longrightarrow> snd (session input) = At_End))"
proof (cases "q_pc p = Q_Loop")
  case True
  then have p: "ml = []" "q_box p = []" "slot_is cs i (q_id p)" using assms(1) by (auto simp: proc_ok_def)
  obtain asked where a: "session input = (asked @ fst (session (q_input p)), snd (session (q_input p)))"
      "list_all2 (answers sh) asked (q_out p)" using assms(2) True by (auto simp: told_def)
  show ?thesis
  proof (cases "fgets 1024 (q_input p)")
    case None
    then show ?thesis
      using assms(3) True p a session_eof [OF None]
      by (auto simp: mq_proc_step_def proc_ok_def told_def slot_of_def)
  next
    case (Some lr)
    then obtain l r where lr: "fgets 1024 (q_input p) = Some (l, r)" by (cases lr) auto
    note S = session_line [OF lr, of "q_id p" "int i" junk]
    show ?thesis
      using assms(3) True p a S client_line_sends [of "q_id p" "int i" junk "cstr l"]
      by (auto simp: mq_proc_step_def proc_ok_def told_def slot_of_def lr split: outcome.splits mq_action.splits)
  qed
next
  case False
  note D = mq_proc_step_def proc_ok_def told_def slot_of_def
  show ?thesis
  proof (cases "q_pc p")
    case (Q_Await m)
    with assms(1,3) obtain r where r: "q_box p = [r]" "ml = []" "answers sh (m_type m, m_buf m) (m_buf r)" "slot_is cs i (q_id p)"
      "mo = None" "p' = p\<lparr>q_pc := Q_Loop, q_box := [], q_out := q_out p @ [m_buf r]\<rparr>"
      by (auto simp: D split: list.splits)
    obtain asked where "session input = ((asked @ [(m_type m, m_buf m)]) @ fst (session (q_input p)), snd (session (q_input p)))"
      "list_all2 (answers sh) (asked @ [(m_type m, m_buf m)]) (q_out p @ [m_buf r])"
      using assms(2) Q_Await r(3) by (auto simp: told_def list_all2_appendI simp del: answers.simps)
    then show ?thesis using r Q_Await by (auto simp: D simp del: append_assoc)
  next
    case Q_Hello
    then show ?thesis using assms by (auto simp: D hello_msg_def)
  next
    case Q_Await_Id
    then show ?thesis using assms by (auto simp: D split: list.splits)
  next
    case Q_Bye
    then show ?thesis using assms by (auto simp: D stop_msg_def)
  qed (use assms(3) False in \<open>simp_all add: mq_proc_step_def\<close>)
qed

lemma net_inv_proc:
  assumes "net_inv sh inputs s" and "i < length inputs"
  shows "proc_ok sh (mq_clients (net_sv s)) (mail i (net_queue s)) i (net_procs s ! i)"
    and "told sh (inputs ! i) (net_procs s ! i)"
  using assms by (auto simp: net_inv_def)

lemma net_inv_len:
  assumes "net_inv sh inputs s"
  shows "length (net_procs s) = length inputs" and "length inputs \<le> CLIENT_MAX" and "length (mq_clients (net_sv s)) = CLIENT_MAX"
  using assms by (simp_all add: net_inv_def)

lemma net_inv_slot:
  assumes "net_inv sh inputs s" and "k < CLIENT_MAX" and "\<not> mq_stopped (mq_clients (net_sv s) ! k)"
  obtains i where "i < length inputs" and "mq_queue (mq_clients (net_sv s) ! k) = int i"
    and "slot_of (net_procs s ! i) = Some (int k)"
  using assms unfolding net_inv_def by blast

lemma net_inv_rest:
  assumes "net_inv sh inputs s"
  shows "\<forall>m \<in> set (net_queue s). \<exists>i < length inputs. m_from m = int i"
    and "mq_end (net_sv s) \<or> (\<exists>m \<in> set (net_queue s). m_type m = END) \<longrightarrow> (\<exists>x \<in> set inputs. snd (session x) = At_End)"
    and "net_up s \<or> mq_end (net_sv s)"
  using assms by (simp_all add: net_inv_def)

text \<open>Replacing one client, when the table stays as it is and its slot is the same.\<close>

lemma net_inv_client:
  assumes inv: "net_inv sh inputs s" and i: "i < length inputs"
    and st: "mq_proc_step junk (int i) (net_procs s ! i) = Some (mo, p)"
    and s': "s' = s\<lparr>net_procs := (net_procs s)[i := p], net_queue := net_queue s @ (case mo of None \<Rightarrow> [] | Some m \<Rightarrow> [m])\<rparr>"
  shows "net_inv sh inputs s'"
proof -
  let ?cs = "mq_clients (net_sv s)" and ?new = "case mo of None \<Rightarrow> [] | Some m \<Rightarrow> [m]"
  note P = proc_step_ok [OF net_inv_proc [OF inv i] st] and len = net_inv_len [OF inv] and rest = net_inv_rest [OF inv]
  have from_i: "m_from m = int i" if "m \<in> set ?new" for m using P that by (cases mo) auto
  have mail_i: "mail i ?new = ?new" using from_i by (cases mo) auto
  have mail_j: "mail j ?new = []" if "j \<noteq> i" for j using from_i that by (cases mo) auto
  have "proc_ok sh ?cs (mail j (net_queue s @ ?new)) j ((net_procs s)[i := p] ! j) \<and>
      told sh (inputs ! j) ((net_procs s)[i := p] ! j)" if "j < length inputs" for j
    using that P mail_i mail_j [of j] net_inv_proc [OF inv that] len(1) i by (cases "j = i") simp_all
  moreover have "\<exists>j < length inputs. mq_queue (?cs ! k) = int j \<and> slot_of ((net_procs s)[i := p] ! j) = Some (int k)"
    if k: "k < CLIENT_MAX" "\<not> mq_stopped (?cs ! k)" for k
  proof -
    obtain j where "j < length inputs" "mq_queue (?cs ! k) = int j" "slot_of (net_procs s ! j) = Some (int k)"
      by (rule net_inv_slot [OF inv k])
    then show ?thesis using P len(1) i by (intro exI [of _ j]) (cases "j = i"; simp)
  qed
  moreover have "\<exists>j < length inputs. m_from m = int j" if "m \<in> set (net_queue s @ ?new)" for m
    using that rest(1) from_i i by auto
  moreover have "\<exists>x \<in> set inputs. snd (session x) = At_End"
    if "mq_end (net_sv s) \<or> (\<exists>m \<in> set (net_queue s @ ?new). m_type m = END)"
  proof (cases "\<exists>m \<in> set ?new. m_type m = END")
    case True
    then have "snd (session (inputs ! i)) = At_End" using P by (cases mo) auto
    then show ?thesis using i by (meson nth_mem)
  next
    case False
    then show ?thesis using that rest(2) by auto
  qed
  ultimately show ?thesis using len rest(3) unfolding net_inv_def s' by simp
qed

subsection \<open>Steps of the server\<close>

text \<open>The first message in the queue and the client it is from.\<close>

lemma proc_ok_head:
  assumes "proc_ok sh cs (m # ml) i p"
  obtains (hello) "ml = []" "q_pc p = Q_Await_Id" "q_box p = []" "m_type m = HANDSHAKE" "m_queue m = int i"
  | (ask) "ml = []" "q_pc p = Q_Await m" "q_box p = []" "slot_is cs i (q_id p)" "m_client_id m = q_id p"
      "m_type m \<in> {MIRROR, CALC, TIME}"
  | (bye) "ml = []" "q_pc p = Q_End" "q_box p = []" "slot_is cs i (q_id p)" "m_client_id m = q_id p" "m_type m \<in> {END, STOP}"
  using assms by (cases "q_pc p") (auto simp: proc_ok_def)

text \<open>A table that leaves the slots of the others alone leaves them well.\<close>

lemma proc_ok_table:
  assumes "proc_ok sh cs ml j p" and "\<And>k. slot_is cs j k \<Longrightarrow> slot_is cs' j k"
  shows "proc_ok sh cs' ml j p"
  using assms by (cases "q_pc p") (auto simp: proc_ok_def)

lemma net_inv_free_slot:
  assumes "net_inv sh inputs s" and "i < length inputs" and "slot_of (net_procs s ! i) = None"
  shows "free_slot 0 (mq_clients (net_sv s)) \<noteq> -1"
proof
  let ?cs = "mq_clients (net_sv s)"
  assume none: "free_slot 0 ?cs = -1"
  have "free_slot n cs = -1 \<Longrightarrow> k < length cs \<Longrightarrow> \<not> mq_stopped (cs ! k)" for n cs k
    by (induction n cs arbitrary: k rule: free_slot.induct) (auto simp: nth_Cons' split: if_splits)
  with none have "\<forall>k < CLIENT_MAX. \<not> mq_stopped (?cs ! k)" using net_inv_len(3) [OF assms(1)] by auto
  then have "\<forall>k < CLIENT_MAX. \<exists>j < length inputs. slot_of (net_procs s ! j) = Some (int k)"
    using net_inv_slot [OF assms(1)] by metis
  then obtain f where f: "\<forall>k < CLIENT_MAX. f k < length inputs \<and> slot_of (net_procs s ! f k) = Some (int k)" by metis
  then have "inj_on f {..<CLIENT_MAX}" by (intro inj_onI) (metis lessThan_iff of_nat_eq_iff option.inject)
  moreover have "f ` {..<CLIENT_MAX} \<subseteq> {..<length inputs} - {i}" using f assms(3) by fastforce
  ultimately have "CLIENT_MAX \<le> card ({..<length inputs} - {i})"
    using card_inj_on_le [of f "{..<CLIENT_MAX}" "{..<length inputs} - {i}"] by simp
  then show False using net_inv_len(2) [OF assms(1)] assms(2) by simp
qed

text \<open>What the server has to do for a message of client \<open>i\<close>, and what follows for the network.\<close>

lemma net_inv_server:
  assumes inv: "net_inv sh inputs s" and q: "net_queue s = m # ms" and i: "i < length inputs" "m_from m = int i"
    and none: "mail i ms = []"
    and s': "s' = s\<lparr>net_sv := sv, net_queue := ms, net_procs := (net_procs s)[i := p]\<rparr>"
    and tbl: "length (mq_clients sv) = CLIENT_MAX"
    and others: "\<And>j k. j \<noteq> i \<Longrightarrow> slot_is (mq_clients (net_sv s)) j k \<Longrightarrow> slot_is (mq_clients sv) j k"
    and p: "proc_ok sh (mq_clients sv) [] i p" "told sh (inputs ! i) p"
    and slots: "\<And>k. k < CLIENT_MAX \<Longrightarrow> \<not> mq_stopped (mq_clients sv ! k) \<Longrightarrow>
      (mq_queue (mq_clients sv ! k) = int i \<and> slot_of p = Some (int k)) \<or>
      (mq_clients sv ! k = mq_clients (net_sv s) ! k \<and> slot_of (net_procs s ! i) \<in> {None, slot_of p})"
    and fin: "mq_end sv \<Longrightarrow> mq_end (net_sv s) \<or> m_type m = END" "mq_end (net_sv s) \<Longrightarrow> mq_end sv"
  shows "net_inv sh inputs s'"
proof -
  note len = net_inv_len [OF inv] and rest = net_inv_rest [OF inv]
  have "proc_ok sh (mq_clients sv) (mail j ms) j ((net_procs s)[i := p] ! j) \<and>
      told sh (inputs ! j) ((net_procs s)[i := p] ! j)" if j: "j < length inputs" for j
  proof (cases "j = i")
    case True
    then show ?thesis using p i len none by simp
  next
    case False
    note P = net_inv_proc [OF inv j]
    have "mail j (net_queue s) = mail j ms" using q i False by simp
    then have "proc_ok sh (mq_clients sv) (mail j ms) j (net_procs s ! j)"
      using proc_ok_table [OF P(1)] others [OF False] by simp
    then show ?thesis using P(2) False by simp
  qed
  moreover have "\<exists>j < length inputs. mq_queue (mq_clients sv ! k) = int j \<and> slot_of ((net_procs s)[i := p] ! j) = Some (int k)"
    if k: "k < CLIENT_MAX" "\<not> mq_stopped (mq_clients sv ! k)" for k
  proof (cases "mq_queue (mq_clients sv ! k) = int i \<and> slot_of p = Some (int k)")
    case True
    then show ?thesis using i len by auto
  next
    case False
    then have same: "mq_clients sv ! k = mq_clients (net_sv s) ! k" "slot_of (net_procs s ! i) \<in> {None, slot_of p}"
      using slots [OF k] by auto
    obtain j where j: "j < length inputs" "mq_queue (mq_clients (net_sv s) ! k) = int j" "slot_of (net_procs s ! j) = Some (int k)"
      by (rule net_inv_slot [OF inv k(1)]) (use k(2) same in auto)
    then have "j \<noteq> i" using same False by auto
    then show ?thesis using j same(1) by auto
  qed
  moreover have "\<exists>x \<in> set inputs. snd (session x) = At_End" if "mq_end sv \<or> (\<exists>m \<in> set ms. m_type m = END)"
  proof -
    have "mq_end (net_sv s) \<or> (\<exists>m \<in> set (net_queue s). m_type m = END)" using that fin(1) unfolding q by auto
    then show ?thesis using rest(2) by blast
  qed
  moreover have "\<forall>m \<in> set ms. \<exists>j < length inputs. m_from m = int j" using rest(1) q by simp
  moreover have "net_up s \<or> mq_end sv" using rest(3) fin(2) by blast
  ultimately show ?thesis using len tbl unfolding net_inv_def s' by simp
qed

lemma first_line_calc: "shell_at sh date (calc_command x) = sh (calc_command x)"
  by (simp add: shell_at_def calc_command_def)

lemma slot_is_update:
  assumes "slot_is cs j k" and "length cs = CLIENT_MAX" and "int k' \<noteq> k"
  shows "slot_is (cs[k' := c]) j k"
proof -
  have "nat k \<noteq> k'" using assms(1,3) by (auto simp: slot_is_def)
  then show ?thesis using assms(1) by (simp add: slot_is_def)
qed

lemma slot_is_unique: "slot_is cs i k \<Longrightarrow> slot_is cs j k \<Longrightarrow> i = j"
  by (simp add: slot_is_def)

lemma serve_hello:
  assumes inv: "net_inv sh inputs s" and q: "net_queue s = m # ms" and i: "i < length inputs" "m_from m = int i" and up: "net_up s"
    and p: "mail i ms = []" "q_pc (net_procs s ! i) = Q_Await_Id" "q_box (net_procs s ! i) = []" "m_type m = HANDSHAKE"
      "m_queue m = int i"
  obtains s' where "serve sh spid date s = Some s'" and "net_inv sh inputs s'" and "net_queue s' = ms"
proof -
  let ?cs = "mq_clients (net_sv s)" and ?p = "net_procs s ! i"
  note len = net_inv_len [OF inv]
  have so: "slot_of ?p = None" using p by (simp add: slot_of_def)
  obtain k where k: "k < CLIENT_MAX" "free_slot 0 ?cs = int k" "mq_stopped (?cs ! k)"
    using free_slot_some [OF net_inv_free_slot [OF inv i(1) so]] len(3) by auto
  define r where "r = (mq_response (net_sv s))\<lparr>m_type := int k, m_from := spid, m_client_id := int k\<rparr>"
  define c where "c = (?cs ! k)\<lparr>mq_pid := m_from m, mq_id := int k, mq_stopped := False, mq_queue := int i\<rparr>"
  define sv where "sv = (net_sv s)\<lparr>mq_clients := ?cs[k := c], mq_response := r, mq_sent := [(int i, r)]\<rparr>"
  define s' where "s' = s\<lparr>net_sv := sv, net_queue := ms, net_procs := (net_procs s)[i := ?p\<lparr>q_box := [r]\<rparr>]\<rparr>"
  have "mq_handle POSIXQ (open_name (length (net_procs s))) (shell_at sh date) spid m (net_sv s\<lparr>mq_sent := []\<rparr>) = Cont sv"
    using p(4,5) k i(1) len
    by (simp add: mq_handle_def mq_handshake_def open_name_def respond_def send_to_client_def Let_def sv_def c_def r_def)
  then have "serve sh spid date s = Some s'"
    using q up p(3) by (simp add: serve_def s'_def sv_def)
  moreover have "net_inv sh inputs s'"
  proof (rule net_inv_server [OF inv q i p(1) s'_def])
    show "slot_is (mq_clients sv) j k'" if "slot_is ?cs j k'" for j k'
    proof -
      have "int k \<noteq> k'" using that k(3) by (auto simp: slot_is_def)
      then show ?thesis using slot_is_update [OF that len(3)] by (simp add: sv_def)
    qed
    show "proc_ok sh (mq_clients sv) [] i (?p\<lparr>q_box := [r]\<rparr>)"
      using p k len by (simp add: proc_ok_def slot_is_def sv_def c_def r_def)
    show "told sh (inputs ! i) (?p\<lparr>q_box := [r]\<rparr>)" using net_inv_proc(2) [OF inv i(1)] p by (simp add: told_def)
    show "(mq_queue (mq_clients sv ! k') = int i \<and> slot_of (?p\<lparr>q_box := [r]\<rparr>) = Some (int k')) \<or>
      (mq_clients sv ! k' = ?cs ! k' \<and> slot_of ?p \<in> {None, slot_of (?p\<lparr>q_box := [r]\<rparr>)})" if "k' < CLIENT_MAX" for k'
      using so p(2) k(1) len by (cases "k' = k") (simp_all add: sv_def c_def slot_of_def r_def)
  qed (use len in \<open>simp_all add: sv_def\<close>)
  moreover have "net_queue s' = ms" by (simp add: s'_def)
  ultimately show ?thesis by (rule that)
qed

lemma serve_ask:
  assumes inv: "net_inv sh inputs s" and q: "net_queue s = m # ms" and i: "i < length inputs" "m_from m = int i" and up: "net_up s"
    and p: "mail i ms = []" "q_pc (net_procs s ! i) = Q_Await m" "q_box (net_procs s ! i) = []"
      "slot_is (mq_clients (net_sv s)) i (q_id (net_procs s ! i))" "m_client_id m = q_id (net_procs s ! i)"
      "m_type m \<in> {MIRROR, CALC, TIME}"
  obtains s' where "serve sh spid date s = Some s'" and "net_inv sh inputs s'" and "net_queue s' = ms"
proof -
  let ?p = "net_procs s ! i"
  note len = net_inv_len [OF inv]
  define t where "t = (if m_type m = MIRROR then mirror_text (m_buf m)
    else if m_type m = CALC then first_line (sh (calc_command (m_buf m))) else first_line date)"
  define r where "r = (mq_response (net_sv s))\<lparr>m_type := q_id ?p, m_client_id := q_id ?p, m_from := spid, m_buf := t\<rparr>"
  define sv where "sv = (net_sv s)\<lparr>mq_response := r, mq_sent := [(int i, r)]\<rparr>"
  define s' where "s' = s\<lparr>net_sv := sv, net_queue := ms, net_procs := (net_procs s)[i := ?p\<lparr>q_box := [r]\<rparr>]\<rparr>"
  have "shell_at sh date ''date'' = date" by (simp add: shell_at_def)
  then have "mq_handle POSIXQ (open_name (length (net_procs s))) (shell_at sh date) spid m (net_sv s\<lparr>mq_sent := []\<rparr>) = Cont sv"
    using p(4-6) by (auto simp: mq_handle_def respond_def send_to_client_def Let_def sv_def r_def t_def slot_is_def first_line_calc)
  then have "serve sh spid date s = Some s'"
    using q up p(3) by (simp add: serve_def s'_def sv_def)
  moreover have "net_inv sh inputs s'"
  proof (rule net_inv_server [OF inv q i p(1) s'_def])
    have "answers sh (m_type m, m_buf m) t" using p(6) by (auto simp: t_def)
    then show "proc_ok sh (mq_clients sv) [] i (?p\<lparr>q_box := [r]\<rparr>)"
      using p by (simp add: proc_ok_def sv_def r_def del: answers.simps)
    show "told sh (inputs ! i) (?p\<lparr>q_box := [r]\<rparr>)" using net_inv_proc(2) [OF inv i(1)] p by (simp add: told_def)
  qed (use len p(2) in \<open>simp_all add: sv_def slot_of_def\<close>)
  moreover have "net_queue s' = ms" by (simp add: s'_def)
  ultimately show ?thesis by (rule that)
qed

lemma serve_bye:
  assumes inv: "net_inv sh inputs s" and q: "net_queue s = m # ms" and i: "i < length inputs" "m_from m = int i" and up: "net_up s"
    and p: "mail i ms = []" "q_pc (net_procs s ! i) = Q_End" "q_box (net_procs s ! i) = []"
      "slot_is (mq_clients (net_sv s)) i (q_id (net_procs s ! i))" "m_client_id m = q_id (net_procs s ! i)"
      "m_type m \<in> {END, STOP}"
  obtains s' where "serve sh spid date s = Some s'" and "net_inv sh inputs s'" and "net_queue s' = ms"
proof -
  let ?cs = "mq_clients (net_sv s)" and ?p = "net_procs s ! i"
  note len = net_inv_len [OF inv]
  define k where "k = nat (q_id ?p)"
  have k: "q_id ?p = int k" "k < CLIENT_MAX" using p(4) by (auto simp: slot_is_def k_def)
  define sv where "sv = (if m_type m = END then (net_sv s)\<lparr>mq_end := True, mq_sent := []\<rparr>
    else (net_sv s)\<lparr>mq_clients := ?cs[k := (?cs ! k)\<lparr>mq_stopped := True\<rparr>], mq_sent := []\<rparr>)"
  define s' where "s' = s\<lparr>net_sv := sv, net_queue := ms, net_procs := (net_procs s)[i := ?p]\<rparr>"
  have "mq_handle POSIXQ (open_name (length (net_procs s))) (shell_at sh date) spid m (net_sv s\<lparr>mq_sent := []\<rparr>) = Cont sv"
    using p(4-6) k by (auto simp: mq_handle_def Let_def sv_def slot_is_def)
  moreover have "mq_sent sv = []" by (simp add: sv_def)
  ultimately have "serve sh spid date s = Some s'"
    using q up by (simp add: serve_def s'_def)
  moreover have "net_inv sh inputs s'"
  proof (rule net_inv_server [OF inv q i p(1) s'_def])
    show "slot_is (mq_clients sv) j k'" if "j \<noteq> i" "slot_is ?cs j k'" for j k'
    proof -
      have "int k \<noteq> k'" using slot_is_unique [OF p(4)] that k(1) by auto
      then show ?thesis using slot_is_update [OF that(2) len(3)] that(2) by (simp add: sv_def)
    qed
    show "proc_ok sh (mq_clients sv) [] i ?p" using p by (simp add: proc_ok_def)
    show "told sh (inputs ! i) ?p" by (rule net_inv_proc(2) [OF inv i(1)])
    show "(mq_queue (mq_clients sv ! k') = int i \<and> slot_of ?p = Some (int k')) \<or>
      (mq_clients sv ! k' = ?cs ! k' \<and> slot_of ?p \<in> {None, slot_of ?p})"
      if "k' < CLIENT_MAX" "\<not> mq_stopped (mq_clients sv ! k')" for k'
      using that k len by (cases "k' = k") (auto simp: sv_def split: if_splits)
  qed (use len in \<open>auto simp: sv_def split: if_splits\<close>)
  moreover have "net_queue s' = ms" by (simp add: s'_def)
  ultimately show ?thesis by (rule that)
qed

lemma serve_inv:
  assumes inv: "net_inv sh inputs s" and q: "net_queue s = m # ms" and up: "net_up s"
  obtains s' where "serve sh spid date s = Some s'" and "net_inv sh inputs s'" and "net_queue s' = ms"
proof -
  obtain i where i: "i < length inputs" "m_from m = int i" using net_inv_rest(1) [OF inv] q by auto
  have "proc_ok sh (mq_clients (net_sv s)) (m # mail i ms) i (net_procs s ! i)"
    using net_inv_proc(1) [OF inv i(1)] q i by simp
  then show ?thesis
  proof (cases rule: proc_ok_head)
    case hello
    from serve_hello [OF inv q i up this] that show ?thesis by blast
  next
    case ask
    from serve_ask [OF inv q i up this] that show ?thesis by blast
  next
    case bye
    from serve_bye [OF inv q i up this] that show ?thesis by blast
  qed
qed

lemma net_inv_act:
  assumes inv: "net_inv sh inputs s" and st: "net_act junk sh spid a s = Some s'"
  shows "net_inv sh inputs s'"
proof (cases a)
  case (Serve date)
  show ?thesis
  proof (cases "net_queue s")
    case Nil
    then show ?thesis using st Serve inv by (auto simp: net_act_def serve_def net_inv_def split: if_splits)
  next
    case (Cons m ms)
    have "net_up s" using st Serve by (auto simp: net_act_def serve_def split: if_splits)
    from serve_inv [OF inv Cons this, of spid date] show ?thesis using st Serve by (auto simp: net_act_def)
  qed
next
  case (Client i)
  then have i: "i < length inputs" using st net_inv_len [OF inv] by (auto simp: net_act_def split: if_splits)
  obtain mo p where p: "mq_proc_step junk (int i) (net_procs s ! i) = Some (mo, p)"
    using st Client by (auto simp: net_act_def split: if_splits option.splits)
  have "s' = s\<lparr>net_procs := (net_procs s)[i := p], net_queue := net_queue s @ (case mo of None \<Rightarrow> [] | Some m \<Rightarrow> [m])\<rparr>"
    using st Client p by (cases mo) (auto simp: net_act_def split: if_splits)
  then show ?thesis by (rule net_inv_client [OF inv i p])
qed

lemma net_inv_init:
  assumes "length inputs \<le> CLIENT_MAX"
  shows "net_inv sh inputs (net_init c0 response inputs)"
  using assms by (simp add: net_inv_def net_init_def mq_init_def proc_ok_def told_def)

subsection \<open>Runs are finite\<close>

text \<open>A message in the server's queue counts two, one in a client's queue one.\<close>

definition proc_left :: "mq_proc \<Rightarrow> nat" where
  "proc_left p = length (q_box p) + 4 * length (q_input p) +
     (case q_pc p of Q_Hello \<Rightarrow> 7 | Q_Await_Id \<Rightarrow> 4 | Q_Loop \<Rightarrow> 4 | Q_Await _ \<Rightarrow> 4 | Q_Bye \<Rightarrow> 3 | Q_End \<Rightarrow> 0 | Q_Crash \<Rightarrow> 0)"

definition net_left :: "mq_net \<Rightarrow> nat" where
  "net_left s = total proc_left (net_procs s) + 2 * length (net_queue s) + (if net_up s then 1 else 0)"

lemma proc_left_step:
  assumes "mq_proc_step junk i p = Some (mo, p')"
  shows "proc_left p' + (case mo of None \<Rightarrow> 0 | Some _ \<Rightarrow> 2) < proc_left p"
proof (cases "fgets 1024 (q_input p)")
  case None
  then show ?thesis
    using assms by (cases "q_pc p") (auto simp: mq_proc_step_def proc_left_def split: list.splits)
next
  case (Some lr)
  obtain l r where lr: "lr = (l, r)" by (cases lr)
  have "length r < length (q_input p)" using fgets_decreases Some lr by simp
  then show ?thesis
    using assms Some lr
    by (cases "q_pc p") (auto simp: mq_proc_step_def proc_left_def split: list.splits outcome.splits mq_action.splits)
qed

lemma mq_handle_sends_one:
  assumes "mq_handle api oq shell spid m sv = Cont sv'"
  shows "length (mq_sent sv') \<le> length (mq_sent sv) + 1"
proof -
  have r: "length (mq_sent t) \<le> length (mq_sent u) + 1" if "respond api x u = Cont t" for t u x
    using respond_effect(4) [OF that] by simp
  show ?thesis
  proof (cases "m_type m = HANDSHAKE")
    case True
    then show ?thesis using assms r by (fastforce simp: mq_handle_def mq_handshake_def Let_def split: if_splits option.splits)
  next
    case False
    then show ?thesis using assms r by (fastforce simp: mq_handle_def Let_def split: if_splits)
  qed
qed

lemma deliver_left: "total proc_left (deliver sent ps) \<le> total proc_left ps + length sent"
proof (induction sent ps rule: deliver.induct)
  case (2 q m sent ps)
  let ?p = "(ps ! nat q)\<lparr>q_box := q_box (ps ! nat q) @ [m]\<rparr>"
  have "total proc_left (ps[nat q := ?p]) \<le> total proc_left ps + 1"
  proof (cases "nat q < length ps")
    case True
    then show ?thesis using total_update [OF True, of proc_left ?p] by (simp add: proc_left_def)
  qed (simp add: list_update_beyond)
  then show ?case using 2 by simp
qed simp

lemma net_left_act:
  assumes "net_act junk sh spid a s = Some s'"
  shows "net_left s' < net_left s"
proof (cases a)
  case (Serve date)
  show ?thesis
  proof (cases "net_queue s")
    case Nil
    then show ?thesis using assms Serve by (auto simp: net_act_def serve_def net_left_def split: if_splits)
  next
    case (Cons m ms)
    show ?thesis
    proof (cases "mq_handle POSIXQ (open_name (length (net_procs s))) (shell_at sh date) spid m (net_sv s\<lparr>mq_sent := []\<rparr>)")
      case (Cont sv)
      then have "s' = s\<lparr>net_sv := sv, net_queue := ms, net_procs := deliver (mq_sent sv) (net_procs s)\<rparr>"
        using assms Serve Cons by (simp add: net_act_def serve_def split: if_splits)
      then show ?thesis
        using mq_handle_sends_one [OF Cont] deliver_left [of "mq_sent sv" "net_procs s"] Cons by (simp add: net_left_def)
    qed (use assms Serve Cons in \<open>auto simp: net_act_def serve_def net_left_def split: if_splits\<close>)
  qed
next
  case (Client i)
  then have i: "i < length (net_procs s)" using assms by (auto simp: net_act_def split: if_splits)
  obtain mo p where p: "mq_proc_step junk (int i) (net_procs s ! i) = Some (mo, p)"
    using assms Client by (auto simp: net_act_def split: if_splits option.splits)
  show ?thesis
    using assms Client p i total_update [OF i, of proc_left p] proc_left_step [OF p]
    by (cases mo) (auto simp: net_act_def net_left_def split: if_splits)
qed

interpretation net: terminating_system "net_step junk sh spid" "net_inv sh inputs" net_left for junk sh spid inputs
  by unfold_locales (auto simp: net_step_def intro: net_inv_act net_left_act)

lemma proc_stuck:
  assumes "mq_proc_step junk i p = None"
  shows "q_pc p \<in> {Q_End, Q_Crash} \<or> (q_box p = [] \<and> q_pc p \<in> insert Q_Await_Id (range Q_Await))"
  using assms
  by (cases "q_pc p") (auto simp: mq_proc_step_def split: list.splits option.splits outcome.splits mq_action.splits)

text \<open>When nothing can move, every client has ended and the server's queue is empty or the server is gone.\<close>

lemma net_end:
  assumes inv: "net_inv sh inputs s" and no: "\<forall>t. \<not> net_step junk sh spid s t"
    and eof: "\<forall>x \<in> set inputs. snd (session x) = At_Eof" and i: "i < length inputs"
  shows "q_pc (net_procs s ! i) = Q_End" and "net_queue s = []"
proof -
  note len = net_inv_len [OF inv]
  have act: "net_act junk sh spid a s = None" for a using no by (metis net_step_def not_Some_eq)
  have up: "net_up s" using net_inv_rest(2,3) [OF inv] eof by force
  show q: "net_queue s = []"
  proof (cases "net_queue s")
    case (Cons m ms)
    from serve_inv [OF inv Cons up, of spid "[]"] act [of "Serve []"] show ?thesis by (auto simp: net_act_def)
  qed
  have stuck: "mq_proc_step junk (int i) (net_procs s ! i) = None"
    using act [of "Client i"] i len(1) q by (auto simp: net_act_def split: option.splits if_splits)
  have "told sh (inputs ! i) (net_procs s ! i)" "proc_ok sh (mq_clients (net_sv s)) [] i (net_procs s ! i)"
    using net_inv_proc [OF inv i] q by simp_all
  moreover have "snd (session (inputs ! i)) = At_Eof" using eof i by simp
  ultimately show "q_pc (net_procs s ! i) = Q_End"
    using proc_stuck [OF stuck] by (auto simp: proc_ok_def told_def)
qed

lemma told_prefix:
  assumes "told sh x p"
  shows "length (q_out p) \<le> length (fst (session x)) \<and> list_all2 (answers sh) (take (length (q_out p)) (fst (session x))) (q_out p)"
proof -
  have "\<exists>asked rest. fst (session x) = asked @ rest \<and> list_all2 (answers sh) asked (q_out p)"
    using assms by (cases "q_pc p", auto simp: told_def intro: exI [of _ "[]"]) blast+
  then obtain asked rest where "fst (session x) = asked @ rest" "list_all2 (answers sh) asked (q_out p)" by blast
  moreover from this have "length asked = length (q_out p)" by (auto dest: list_all2_lengthD)
  ultimately show ?thesis by simp
qed

lemma net_init_left: "net_left (net_init c0 response inputs) = 1 + sum_list (map (\<lambda>x. 4 * length x + 7) inputs)"
  by (simp add: net_left_def net_init_def total_def proc_left_def comp_def)

lemma net_run_reachable: "net_run junk sh spid as s = Some t \<Longrightarrow> (net_step junk sh spid)\<^sup>*\<^sup>* s t"
proof (induction junk sh spid as s rule: net_run.induct)
  case (2 junk sh spid a as s)
  then obtain r where "net_act junk sh spid a s = Some r" "net_run junk sh spid as r = Some t" by (auto split: option.splits)
  then show ?case using 2 by (auto simp: net_step_def intro: converse_rtranclp_into_rtranclp)
qed simp

subsection \<open>Properties\<close>

text \<open>
  C23: Up to 256 clients of one server, however they interleave, each get the answers to their own
  commands, in order: at any time what a client has printed answers the first commands of its
  input.  When no client types \<open>end\<close> or a line too long for a message, every run is finite, with at
  most seven steps per client and four per character, and ends with every client having printed all
  its answers and having left.
\<close>

theorem mq_sessions_complete:
  assumes "length inputs \<le> CLIENT_MAX" and "i < length inputs"
    and "(net_step junk sh spid ^^ n) (net_init c0 response inputs) s"
  shows "list_all2 (answers sh) (take (length (q_out (net_procs s ! i))) (fst (session (inputs ! i)))) (q_out (net_procs s ! i)) \<and>
    n \<le> 1 + sum_list (map (\<lambda>x. 4 * length x + 7) inputs) \<and>
    ((\<forall>x \<in> set inputs. snd (session x) = At_Eof) \<and> (\<forall>t. \<not> net_step junk sh spid s t) \<longrightarrow>
       q_pc (net_procs s ! i) = Q_End \<and> list_all2 (answers sh) (fst (session (inputs ! i))) (q_out (net_procs s ! i)))"
proof (intro conjI impI)
  note init = net_inv_init [OF assms(1), of sh c0 response]
  have inv: "net_inv sh inputs s" by (rule net.relpow_inv [OF assms(3) init])
  have told: "told sh (inputs ! i) (net_procs s ! i)" by (rule net_inv_proc(2) [OF inv assms(2)])
  then show "list_all2 (answers sh) (take (length (q_out (net_procs s ! i))) (fst (session (inputs ! i)))) (q_out (net_procs s ! i))"
    using told_prefix by blast
  show "n \<le> 1 + sum_list (map (\<lambda>x. 4 * length x + 7) inputs)"
    using net.run_bound [OF init assms(3)] by (simp add: net_init_left)
  assume fin: "(\<forall>x \<in> set inputs. snd (session x) = At_Eof) \<and> (\<forall>t. \<not> net_step junk sh spid s t)"
  show "q_pc (net_procs s ! i) = Q_End" using net_end(1) [OF inv _ _ assms(2)] fin by blast
  then show "list_all2 (answers sh) (fst (session (inputs ! i))) (q_out (net_procs s ! i))" using told by (simp add: told_def)
qed

definition net_inputs :: "string list" where
  "net_inputs = [''mirror ab'' @ [NL] @ ''mirror c d'' @ [NL], ''what'' @ [NL] @ ''mirror xyz'' @ [NL]]"

definition net_junk :: msg_t where
  "net_junk = \<lparr>m_type = 0, m_client_id = 0, m_from = 0, m_buf = [], m_queue = 0\<rparr>"

lemma net_inputs_session:
  "session (net_inputs ! 0) = ([(MIRROR, ''ab''), (MIRROR, ''c d'')], At_Eof)"
  "session (net_inputs ! 1) = ([(MIRROR, ''xyz'')], At_Eof)"
  by code_simp+

theorem mq_sessions_complete_witness:
  "\<exists>n s. (net_step net_junk (\<lambda>_. []) 1 ^^ n) (net_init \<lparr>mq_pid = 0, mq_id = 0, mq_stopped = True, mq_queue = 0\<rparr> net_junk net_inputs) s \<and>
     n \<le> 163 \<and> q_out (net_procs s ! 0) = [''ba'', ''d c''] \<and> q_out (net_procs s ! 1) = [''zyx'']"
proof -
  let ?init = "net_init \<lparr>mq_pid = 0, mq_id = 0, mq_stopped = True, mq_queue = 0\<rparr> net_junk net_inputs"
  have len: "length net_inputs = 2" by (simp add: net_inputs_def)
  have eof: "\<forall>x \<in> set net_inputs. snd (session x) = At_Eof"
    using net_inputs_session by (simp add: net_inputs_def)
  have "length net_inputs \<le> CLIENT_MAX" using len by simp
  from net.reaches_end [OF net_inv_init [OF this, of "\<lambda>_. []"]]
  have "\<exists>s. (net_step net_junk (\<lambda>_. []) 1)\<^sup>*\<^sup>* ?init s \<and> (\<forall>t. \<not> net_step net_junk (\<lambda>_. []) 1 s t)" .
  then obtain s where s: "(net_step net_junk (\<lambda>_. []) 1)\<^sup>*\<^sup>* ?init s" "\<forall>t. \<not> net_step net_junk (\<lambda>_. []) 1 s t" by blast
  then obtain n where n: "(net_step net_junk (\<lambda>_. []) 1 ^^ n) ?init s" by (auto simp: rtranclp_power)
  have "n \<le> 1 + sum_list (map (\<lambda>x. 4 * length x + 7) net_inputs)" and
    0: "list_all2 (answers (\<lambda>_. [])) (fst (session (net_inputs ! 0))) (q_out (net_procs s ! 0))" and
    1: "list_all2 (answers (\<lambda>_. [])) (fst (session (net_inputs ! 1))) (q_out (net_procs s ! 1))"
    using mq_sessions_complete [OF _ _ n, of 0] mq_sessions_complete [OF _ _ n, of 1] len eof s(2) by simp_all
  moreover have "1 + sum_list (map (\<lambda>x. 4 * length x + 7) net_inputs) \<le> 163" by (simp add: net_inputs_def)
  ultimately show ?thesis using n by (intro exI [of _ n] exI [of _ s]) (auto simp: net_inputs_session(1) net_inputs_session(2) [unfolded One_nat_def] list_all2_Cons1)
qed

end
