(* ===== verification/Message_Life.thy ===== *)
theory Message_Life
  imports Message_Net
begin

text \<open>
  How the message-queue programs of \<open>cw06\<close> start and end (\<open>server.c\<close>, \<open>client.c\<close>): they create
  their queues, exclusively, and remove them when they exit, from a function registered with
  \<open>atexit\<close> and, on an interrupt, once more from the signal handler.

  The queues of the system have keys and identifiers.  A key is a POSIX name or a System V key;
  \<open>ftok\<close> gives the key of a number, of which it uses the low eight bits.  An identifier is never
  used again.  System V queues are removed by identifier and messages to a removed one fail; POSIX
  queues are removed by name and stay usable where they are open.
\<close>

datatype mq_key = Posix_Name string | Sysv_Key int

record mq_space =
  ns_next :: nat
  ns_tab :: "(mq_key \<times> nat) list"
  ns_msgs :: "nat \<Rightarrow> msg_t list"

definition mq_create :: "mq_key \<Rightarrow> mq_space \<Rightarrow> (nat \<times> mq_space) option" where
  "mq_create key ns =
     (if map_of (ns_tab ns) key \<noteq> None then None
      else Some (ns_next ns, ns\<lparr>ns_next := ns_next ns + 1, ns_tab := (key, ns_next ns) # ns_tab ns,
                   ns_msgs := (ns_msgs ns)(ns_next ns := [])\<rparr>))"

definition mq_unlink :: "mq_key \<Rightarrow> mq_space \<Rightarrow> mq_space" where
  "mq_unlink key ns = ns\<lparr>ns_tab := filter (\<lambda>e. fst e \<noteq> key) (ns_tab ns)\<rparr>"

definition mq_rmid :: "nat \<Rightarrow> mq_space \<Rightarrow> mq_space" where
  "mq_rmid q ns = ns\<lparr>ns_tab := filter (\<lambda>e. snd e \<noteq> q) (ns_tab ns)\<rparr>"

definition mq_put :: "queue_api \<Rightarrow> nat \<Rightarrow> msg_t \<Rightarrow> mq_space \<Rightarrow> int \<times> mq_space" where
  "mq_put api q m ns =
     (if api = SYSV \<and> q \<notin> snd ` set (ns_tab ns) then (-1, ns)
      else (0, ns\<lparr>ns_msgs := (ns_msgs ns)(q := ns_msgs ns q @ [m])\<rparr>))"

abbreviation QUEUE_PREFIX :: string where "QUEUE_PREFIX \<equiv> ''/oslab-''"

abbreviation QUEUE_NAME :: string where "QUEUE_NAME \<equiv> QUEUE_PREFIX @ ''server''"

subsection \<open>server.c\<close>

definition server_prepare :: "queue_api \<Rightarrow> (int \<Rightarrow> int option) \<Rightarrow> mq_space \<Rightarrow> (mq_key \<times> nat \<times> mq_space) outcome" where
  "server_prepare api ftok ns =
     (case (if api = POSIXQ then Some (Posix_Name QUEUE_NAME) else map_option Sysv_Key (ftok (take_bit 8 75))) of
        None \<Rightarrow> Exit 1
      | Some key \<Rightarrow> (case mq_create key ns of None \<Rightarrow> Exit 1 | Some (q, ns') \<Rightarrow> Cont (key, q, ns')))"

definition server_cleanup :: "queue_api \<Rightarrow> mq_key \<Rightarrow> nat \<Rightarrow> mq_space \<Rightarrow> mq_space" where
  "server_cleanup api key q ns = (if api = POSIXQ then mq_unlink key ns else mq_rmid q ns)"

text \<open>
  The server from its command line to its exit, for the messages it receives; the result is the
  queues it leaves and how it ended, or its state where it waits for more.
\<close>

definition mq_server_main ::
    "queue_api \<Rightarrow> (int \<Rightarrow> int option) \<Rightarrow> (int \<Rightarrow> int option) \<Rightarrow> (string \<Rightarrow> string) \<Rightarrow> int \<Rightarrow> mq_client \<Rightarrow> msg_t \<Rightarrow> string list \<Rightarrow>
      msg_t list \<Rightarrow> mq_space \<Rightarrow> mq_space \<times> mq_server outcome" where
  "mq_server_main api ftok open_queue shell getpid c0 junk argv msgs ns =
     (if length argv \<noteq> 1 then (ns, Exit (-1))
      else
        case server_prepare api ftok ns of
          Cont (key, q, ns1) \<Rightarrow>
            (case mq_serve api open_queue shell getpid msgs (mq_init c0 junk) of
               Exit i \<Rightarrow> (server_cleanup api key q ns1, Exit i)
             | r \<Rightarrow> (ns1, r))
        | Exit i \<Rightarrow> (ns, Exit i)
        | Out_Of_Bounds \<Rightarrow> (ns, Out_Of_Bounds))"

subsection \<open>client.c\<close>

text \<open>
  \<open>lf_server\<close> is the server's queue while it is open, \<open>lf_key\<close> and \<open>lf_queue\<close> are the client's own;
  \<open>lf_freed\<close> says that \<open>queue_name\<close> has been freed.  \<open>client_id\<close> is a global variable and starts as 0.
\<close>

record mq_life =
  lf_client_id :: int
  lf_nostop :: bool
  lf_server :: "nat option"
  lf_key :: mq_key
  lf_queue :: nat
  lf_freed :: bool

definition client_key :: "queue_api \<Rightarrow> (int \<Rightarrow> int option) \<Rightarrow> int \<Rightarrow> int \<Rightarrow> mq_key option" where
  "client_key api ftok rand getpid =
     (if api = POSIXQ then Some (Posix_Name (QUEUE_PREFIX @ print_d (xor rand getpid)))
      else map_option Sysv_Key (ftok (take_bit 8 (xor rand getpid))))"

text \<open>The key of the server's queue is not checked: where \<open>ftok\<close> fails it is -1.\<close>

definition server_key :: "queue_api \<Rightarrow> (int \<Rightarrow> int option) \<Rightarrow> mq_key" where
  "server_key api ftok =
     (if api = POSIXQ then Posix_Name QUEUE_NAME
      else Sysv_Key (case ftok (take_bit 8 75) of None \<Rightarrow> -1 | Some k \<Rightarrow> k))"

definition prepare_queues ::
    "queue_api \<Rightarrow> (int \<Rightarrow> int option) \<Rightarrow> int \<Rightarrow> int \<Rightarrow> mq_space \<Rightarrow> mq_space \<times> mq_life outcome" where
  "prepare_queues api ftok rand getpid ns =
     (case client_key api ftok rand getpid of
        None \<Rightarrow> (ns, Exit 1)
      | Some key \<Rightarrow>
          (case mq_create key ns of
             None \<Rightarrow> (ns, Exit 1)
           | Some (q, ns1) \<Rightarrow>
               (case map_of (ns_tab ns1) (server_key api ftok) of
                  None \<Rightarrow> (ns1, Exit 1)
                | Some sq \<Rightarrow>
                    (ns1, Cont \<lparr>lf_client_id = 0, lf_nostop = False, lf_server = Some sq, lf_key = key, lf_queue = q, lf_freed = False\<rparr>))))"

text \<open>With POSIX queues a second \<open>cleanup\<close> passes the freed name to \<open>mq_unlink\<close> and \<open>free\<close>.\<close>

definition mq_client_cleanup :: "queue_api \<Rightarrow> msg_t \<Rightarrow> int \<Rightarrow> mq_life \<times> mq_space \<Rightarrow> (mq_life \<times> mq_space) outcome" where
  "mq_client_cleanup api junk getpid s =
     (let (c, ns) = s;
          ns1 = (if lf_nostop c then ns
                 else case lf_server c of None \<Rightarrow> ns | Some q \<Rightarrow> snd (mq_put api q (stop_msg junk getpid (lf_client_id c)) ns))
      in if api = POSIXQ then
           (if lf_freed c then Out_Of_Bounds else Cont (c\<lparr>lf_server := None, lf_freed := True\<rparr>, mq_unlink (lf_key c) ns1))
         else Cont (c, mq_rmid (lf_queue c) ns1))"

text \<open>The handler cleans up and exits, and \<open>exit\<close> calls \<open>cleanup\<close> again.\<close>

definition mq_client_interrupt :: "queue_api \<Rightarrow> msg_t \<Rightarrow> int \<Rightarrow> mq_life \<times> mq_space \<Rightarrow> (mq_life \<times> mq_space) outcome" where
  "mq_client_interrupt api junk getpid s =
     (case mq_client_cleanup api junk getpid s of
        Cont s' \<Rightarrow> mq_client_cleanup api junk getpid s' | Exit i \<Rightarrow> Exit i | Out_Of_Bounds \<Rightarrow> Out_Of_Bounds)"

definition mq_server_interrupt :: "queue_api \<Rightarrow> mq_key \<Rightarrow> nat \<Rightarrow> mq_space \<Rightarrow> mq_space" where
  "mq_server_interrupt api key q ns = server_cleanup api key q (server_cleanup api key q ns)"

subsection \<open>Tables of queues\<close>

definition space_ok :: "mq_space \<Rightarrow> bool" where
  "space_ok ns \<longleftrightarrow> distinct (map fst (ns_tab ns)) \<and> distinct (map snd (ns_tab ns)) \<and> (\<forall>e \<in> set (ns_tab ns). snd e < ns_next ns)"

lemma mq_create_ok:
  assumes "space_ok ns" and "mq_create key ns = Some (q, ns')"
  shows "space_ok ns' \<and> q = ns_next ns \<and> map_of (ns_tab ns) key = None \<and> ns_tab ns' = (key, q) # ns_tab ns"
  using assms by (fastforce simp: space_ok_def mq_create_def map_of_eq_None_iff split: if_splits)

lemma mq_put_tab: "ns_tab (snd (mq_put api q m ns)) = ns_tab ns"
  by (simp add: mq_put_def)

lemma map_of_filter_fst: "map_of (filter (\<lambda>e. fst e \<noteq> key) xs) = (map_of xs)(key := None)"
  by (induction xs) (auto simp: fun_eq_iff)

lemma map_of_filter_snd:
  assumes "distinct (map fst xs)" and "distinct (map snd xs)" and "(key, q) \<in> set xs"
  shows "filter (\<lambda>e. snd e \<noteq> q) xs = filter (\<lambda>e. fst e \<noteq> key) xs"
proof (rule filter_cong [OF refl])
  fix e assume "e \<in> set xs"
  then show "snd e \<noteq> q \<longleftrightarrow> fst e \<noteq> key"
    using assms by (metis distinct_map fst_conv inj_onD snd_conv)
qed

lemma mq_removed:
  assumes "space_ok ns" and "map_of (ns_tab ns) key = Some q"
  shows "map_of (ns_tab (if api = POSIXQ then mq_unlink key ns else mq_rmid q ns)) = (map_of (ns_tab ns))(key := None)"
  using assms map_of_filter_snd [of "ns_tab ns" key q] map_of_SomeD [OF assms(2)]
  by (simp add: mq_unlink_def mq_rmid_def map_of_filter_fst space_ok_def)

subsection \<open>Two messages at an interrupt\<close>

lemma mq_interrupt_sends_two:
  assumes "\<not> lf_nostop c" and "lf_server c = Some q" and "q \<in> snd ` set (ns_tab ns)" and "lf_queue c \<noteq> q"
  shows "\<exists>c' ns'. mq_client_interrupt SYSV junk pid (c, ns) = Cont (c', ns') \<and>
    ns_msgs ns' q = ns_msgs ns q @ [stop_msg junk pid (lf_client_id c), stop_msg junk pid (lf_client_id c)]"
proof -
  have "q \<in> snd ` {e \<in> set (ns_tab ns). snd e \<noteq> lf_queue c}" using assms(3,4) by auto
  then show ?thesis using assms(1-3) by (simp add: mq_client_interrupt_def mq_client_cleanup_def mq_put_def mq_rmid_def)
qed

lemma free_slot_first:
  assumes "length cs > k" and "mq_stopped (cs ! k)" and "\<And>j. j < k \<Longrightarrow> \<not> mq_stopped (cs ! j)"
  shows "free_slot i cs = int (i + k)"
  using assms
proof (induction cs arbitrary: i k)
  case (Cons c cs)
  show ?case
  proof (cases k)
    case (Suc n)
    have "\<not> mq_stopped c" using Cons.prems(3) [of 0] Suc by simp
    moreover have "\<not> mq_stopped (cs ! j)" if "j < n" for j using Cons.prems(3) [of "Suc j"] Suc that by simp
    then have "free_slot (Suc i) cs = int (Suc i + n)" using Cons.prems(1,2) Suc by (intro Cons.IH) simp_all
    ultimately show ?thesis using Suc by simp
  qed (use Cons in auto)
qed simp

lemma mq_stop_handled:
  assumes "k < CLIENT_MAX" and "\<not> mq_stopped (mq_clients sv ! k)"
  shows "mq_handle api oq shell spid (stop_msg junk pid (int k)) sv =
    Cont (sv\<lparr>mq_clients := (mq_clients sv)[k := (mq_clients sv ! k)\<lparr>mq_stopped := True\<rparr>]\<rparr>)"
  using assms by (simp add: mq_handle_def stop_msg_def)

lemma mq_stopped_ignored:
  assumes "k < CLIENT_MAX" and "mq_stopped (mq_clients sv ! k)" and "m_client_id m = int k" and "m_type m \<noteq> HANDSHAKE"
  shows "mq_handle api oq shell spid m sv = Cont sv"
  using assms by (simp add: mq_handle_def)

subsection \<open>Properties\<close>

text \<open>
  C26: A client that can open the server's queue has created its own under an unused key, and when it
  exits the server is told once and exactly its own queue is gone, whatever the other
  programs did meanwhile.  A client that cannot open the server's queue changes nothing or leaves
  its own queue behind.
\<close>

theorem mq_client_leaves:
  assumes "space_ok ns" and "prepare_queues api ftok rand pid ns = (ns1, r)"
  shows "case r of
      Cont c \<Rightarrow>
        map_of (ns_tab ns) (lf_key c) = None \<and> map_of (ns_tab ns1) = (map_of (ns_tab ns))(lf_key c \<mapsto> lf_queue c) \<and>
        (\<forall>ns2 i junk. space_ok ns2 \<and> map_of (ns_tab ns2) (lf_key c) = Some (lf_queue c) \<and> the (lf_server c) \<in> snd ` set (ns_tab ns2) \<longrightarrow>
          (\<exists>c' ns3. mq_client_cleanup api junk pid (c\<lparr>lf_client_id := i\<rparr>, ns2) = Cont (c', ns3) \<and>
            map_of (ns_tab ns3) = (map_of (ns_tab ns2))(lf_key c := None) \<and>
            ns_msgs ns3 = (ns_msgs ns2)(the (lf_server c) := ns_msgs ns2 (the (lf_server c)) @ [stop_msg junk pid i])))
    | Exit i \<Rightarrow> i = 1 \<and> (ns1 = ns \<or> map_of (ns_tab ns) (server_key api ftok) = None \<and>
        (\<exists>key. client_key api ftok rand pid = Some key \<and> ns_tab ns1 = (key, ns_next ns) # ns_tab ns))
    | Out_Of_Bounds \<Rightarrow> False"
proof (cases r)
  case (Cont c)
  obtain key q sq where key: "client_key api ftok rand pid = Some key" "mq_create key ns = Some (q, ns1)"
    and c: "c = \<lparr>lf_client_id = 0, lf_nostop = False, lf_server = Some sq, lf_key = key, lf_queue = q, lf_freed = False\<rparr>"
    using assms(2) Cont by (auto simp: prepare_queues_def split: option.splits)
  note cr = mq_create_ok [OF assms(1) key(2)]
  have "\<exists>c' ns3. mq_client_cleanup api junk pid (c\<lparr>lf_client_id := i\<rparr>, ns2) = Cont (c', ns3) \<and>
      map_of (ns_tab ns3) = (map_of (ns_tab ns2))(key := None) \<and> ns_msgs ns3 = (ns_msgs ns2)(sq := ns_msgs ns2 sq @ [stop_msg junk pid i])"
    if ok: "space_ok ns2" and own: "map_of (ns_tab ns2) key = Some q" and sv: "sq \<in> snd ` set (ns_tab ns2)" for ns2 i junk
  proof -
    let ?n = "snd (mq_put api sq (stop_msg junk pid i) ns2)"
    have n: "?n = ns2\<lparr>ns_msgs := (ns_msgs ns2)(sq := ns_msgs ns2 sq @ [stop_msg junk pid i])\<rparr>" using sv by (simp add: mq_put_def)
    have "space_ok ?n" "map_of (ns_tab ?n) key = Some q" using ok own by (simp_all add: n space_ok_def)
    note rem = mq_removed [OF this, of api]
    show ?thesis
    proof (cases api)
      case SYSV
      then show ?thesis using rem n by (simp add: mq_client_cleanup_def c mq_rmid_def)
    next
      case POSIXQ
      then show ?thesis using rem n by (simp add: mq_client_cleanup_def c mq_unlink_def)
    qed
  qed
  then show ?thesis using Cont cr c by simp
next
  case (Exit i)
  show ?thesis
  proof (cases "client_key api ftok rand pid")
    case (Some key)
    show ?thesis
    proof (cases "mq_create key ns")
      case c: (Some qn)
      obtain q n where qn: "qn = (q, n)" by (cases qn)
      note cr = mq_create_ok [OF assms(1) c [unfolded qn]]
      show ?thesis using assms(2) Exit Some c qn cr by (auto simp: prepare_queues_def split: option.splits if_splits)
    qed (use assms(2) Exit Some in \<open>auto simp: prepare_queues_def\<close>)
  qed (use assms(2) Exit in \<open>auto simp: prepare_queues_def\<close>)
next
  case Out_Of_Bounds
  then show ?thesis using assms(2) by (auto simp: prepare_queues_def split: option.splits)
qed


text \<open>
  A client that is interrupted before its handshake is answered has the id 0, so it takes the slot
  of the first client.
\<close>

theorem mq_interrupt_before_id:
  assumes "space_ok ns" and "map_of (ns_tab ns) (server_key SYSV ftok) = Some q"
    and "prepare_queues SYSV ftok rand pid ns = (ns1, Cont c)" and "\<not> mq_stopped (mq_clients sv ! 0)"
  shows "\<exists>stop c' ns'. mq_client_interrupt SYSV junk pid (c, ns1) = Cont (c', ns') \<and> ns_msgs ns' q = ns_msgs ns1 q @ [stop, stop] \<and>
    mq_handle SYSV oq shell spid stop sv = Cont (sv\<lparr>mq_clients := (mq_clients sv)[0 := (mq_clients sv ! 0)\<lparr>mq_stopped := True\<rparr>]\<rparr>)"
proof -
  obtain key n where key: "mq_create key ns = Some (n, ns1)"
    and c: "c = \<lparr>lf_client_id = 0, lf_nostop = False, lf_server = map_of (ns_tab ns1) (server_key SYSV ftok), lf_key = key, lf_queue = n, lf_freed = False\<rparr>"
    using assms(3) by (auto simp: prepare_queues_def split: option.splits)
  note cr = mq_create_ok [OF assms(1) key]
  have q: "(server_key SYSV ftok, q) \<in> set (ns_tab ns)" using assms(2) by (rule map_of_SomeD)
  then have "q < ns_next ns" using assms(1) by (auto simp: space_ok_def)
  moreover have "lf_server c = Some q" using c cr assms(2) by auto
  moreover have "q \<in> snd ` set (ns_tab ns1)" using q cr by force
  ultimately obtain c' ns' where "mq_client_interrupt SYSV junk pid (c, ns1) = Cont (c', ns')"
    "ns_msgs ns' q = ns_msgs ns1 q @ [stop_msg junk pid 0, stop_msg junk pid 0]"
    using mq_interrupt_sends_two [of c q ns1 junk pid] c cr by auto
  moreover have "mq_handle SYSV oq shell spid (stop_msg junk pid 0) sv =
      Cont (sv\<lparr>mq_clients := (mq_clients sv)[0 := (mq_clients sv ! 0)\<lparr>mq_stopped := True\<rparr>]\<rparr>)"
    using mq_stop_handled [of 0 sv SYSV oq shell spid junk pid] assms(4) by simp
  ultimately show ?thesis by blast
qed

text \<open>
  A server that ends leaves the queues as they were; while a queue of the server exists no other
  server starts.
\<close>

theorem mq_server_exclusive:
  assumes "space_ok ns" and "mq_server_main api ftok oq shell pid c0 junk argv msgs ns = (ns', Exit i)"
  shows "map_of (ns_tab ns') = map_of (ns_tab ns)"
    and "length argv = 1 \<Longrightarrow> map_of (ns_tab ns) (server_key api ftok) \<noteq> None \<Longrightarrow> i = 1 \<and> ns' = ns"
proof -
  have "map_of (ns_tab ns') = map_of (ns_tab ns) \<and>
      (length argv = 1 \<longrightarrow> map_of (ns_tab ns) (server_key api ftok) \<noteq> None \<longrightarrow> i = 1 \<and> ns' = ns)"
  proof (cases "length argv \<noteq> 1 \<or> (\<forall>r. server_prepare api ftok ns \<noteq> Cont r)")
    case True
    then show ?thesis using assms(2) by (auto simp: mq_server_main_def server_prepare_def split: outcome.splits option.splits if_splits)
  next
    case False
    then obtain key q ns1 where p: "server_prepare api ftok ns = Cont (key, q, ns1)" and a: "length argv = 1" by auto
    then have cr: "mq_create key ns = Some (q, ns1)" and k: "key = server_key api ftok"
      by (auto simp: server_prepare_def server_key_def split: option.splits if_splits)
    note ok = mq_create_ok [OF assms(1) cr]
    have own: "map_of (ns_tab ns1) key = Some q" using ok by simp
    have e: "ns' = server_cleanup api key q ns1" using assms(2) p a by (auto simp: mq_server_main_def split: outcome.splits)
    have "map_of (ns_tab ns') = (map_of (ns_tab ns1))(key := None)"
      using mq_removed [OF conjunct1 [OF ok] own, of api] by (simp add: e server_cleanup_def)
    then show ?thesis using ok k by (auto simp: fun_eq_iff)
  qed
  then show "map_of (ns_tab ns') = map_of (ns_tab ns)"
    and "length argv = 1 \<Longrightarrow> map_of (ns_tab ns) (server_key api ftok) \<noteq> None \<Longrightarrow> i = 1 \<and> ns' = ns" by blast+
qed

text \<open>
  With POSIX queues an interrupted server removes the name twice.  A server that starts in between
  loses its queue: no client finds it, and another server can start beside it.
\<close>

theorem mq_server_removed_twice:
  assumes "space_ok ns" and "server_prepare POSIXQ ftok (server_cleanup POSIXQ key q ns) = Cont (key', q', ns1)" and "key = Posix_Name QUEUE_NAME"
  shows "map_of (ns_tab (server_cleanup POSIXQ key q ns1)) (server_key POSIXQ ftok) = None \<and>
    (\<forall>rand pid c. snd (prepare_queues POSIXQ ftok rand pid (server_cleanup POSIXQ key q ns1)) = Cont c \<longrightarrow> lf_server c = Some (lf_queue c))"
proof -
  let ?ns = "server_cleanup POSIXQ key q ns1"
  have n: "map_of (ns_tab ?ns) (server_key POSIXQ ftok) = None"
    by (simp add: server_cleanup_def mq_unlink_def assms(3) server_key_def map_of_filter_fst)
  have "lf_server c = Some (lf_queue c)" if pq: "snd (prepare_queues POSIXQ ftok rand pid ?ns) = Cont c" for rand pid c
  proof -
    obtain k i ns2 sq where k: "mq_create k ?ns = Some (i, ns2)" "map_of (ns_tab ns2) (server_key POSIXQ ftok) = Some sq"
      and c: "c = \<lparr>lf_client_id = 0, lf_nostop = False, lf_server = Some sq, lf_key = k, lf_queue = i, lf_freed = False\<rparr>"
      using pq by (auto simp: prepare_queues_def split: option.splits)
    then have "ns_tab ns2 = (k, i) # ns_tab ?ns" by (auto simp: mq_create_def split: if_splits)
    then show ?thesis using k n c by (auto split: if_splits)
  qed
  then show ?thesis using n by blast
qed

subsection \<open>An example\<close>

text \<open>Two clients of a server with System V queues; the second is interrupted while a third shakes hands.\<close>

definition life_space :: mq_space where
  "life_space = \<lparr>ns_next = 1, ns_tab = [(Sysv_Key 75, 0)], ns_msgs = (\<lambda>_. [])\<rparr>"

definition life_client :: mq_life where
  "life_client = \<lparr>lf_client_id = 0, lf_nostop = False, lf_server = Some 0, lf_key = Sysv_Key 3, lf_queue = 1, lf_freed = False\<rparr>"

definition life_started :: mq_space where
  "life_started = \<lparr>ns_next = 2, ns_tab = [(Sysv_Key 3, 1), (Sysv_Key 75, 0)], ns_msgs = (\<lambda>_. [])(1 := [])\<rparr>"

definition life_server :: mq_server where
  "life_server =
     (let c = (\<lambda>i. \<lparr>mq_pid = 10 + i, mq_id = i, mq_stopped = False, mq_queue = i + 1\<rparr>) in
      (mq_init ((c 0)\<lparr>mq_id := 0\<rparr>) \<lparr>m_type = 1, m_client_id = 1, m_from = 9, m_buf = [], m_queue = 0\<rparr>)
        \<lparr>mq_clients := c 0 # c 1 # replicate 254 ((c 0)\<lparr>mq_stopped := True\<rparr>)\<rparr>)"

lemma life_prepare: "prepare_queues SYSV Some 1 2 life_space = (life_started, Cont life_client)"
  by (simp add: prepare_queues_def client_key_def server_key_def mq_create_def life_space_def life_started_def life_client_def)

theorem mq_client_leaves_witness:
  "prepare_queues SYSV Some 1 2 life_space = (life_started, Cont life_client) \<and>
   (\<exists>c' ns3. mq_client_cleanup SYSV (mq_response life_server) 2 (life_client\<lparr>lf_client_id := 1\<rparr>, life_started) = Cont (c', ns3) \<and>
     map_of (ns_tab ns3) = [Sysv_Key 75 \<mapsto> 0])"
proof -
  have ok: "space_ok life_space" "space_ok life_started" by (simp_all add: space_ok_def life_space_def life_started_def)
  have l: "map_of (ns_tab life_started) (lf_key life_client) = Some (lf_queue life_client)"
    "the (lf_server life_client) \<in> snd ` set (ns_tab life_started)" by (simp_all add: life_started_def life_client_def)
  have t: "(map_of (ns_tab life_started))(lf_key life_client := None) = [Sysv_Key 75 \<mapsto> 0]"
    by (auto simp: life_started_def life_client_def)
  note w = mq_client_leaves [OF ok(1) life_prepare, unfolded outcome.case, THEN conjunct2, THEN conjunct2, rule_format]
  show ?thesis using life_prepare w [OF conjI [OF ok(2) conjI [OF l]], of "mq_response life_server" 1] t by auto
qed


end
