(* ===== verification/Interpreter.thy ===== *)
theory Interpreter
  imports C_Lib
begin

text \<open>
  The command interpreters (\<open>cw03/zad2\<close>, \<open>cw03/zad3\<close>, \<open>cw05/zad1\<close>).  All three split a line with
  the same \<open>interpret_line\<close>, which works in place on a buffer that lives across lines; an
  argument is a position in that buffer, its text the characters from there to the next NUL.
  They differ in how they run a command: one process, one process with limits, or a pipeline.
\<close>

abbreviation BUFFER_SIZE :: nat where "BUFFER_SIZE \<equiv> 8192"
abbreviation ARGS_MAX :: nat where "ARGS_MAX \<equiv> 256"
abbreviation QUOTE :: char where "QUOTE \<equiv> CHR 0x22"

definition is_eol :: "char \<Rightarrow> bool" where
  "is_eol ch = (ch = NL \<or> ch = NUL)"

text \<open>
  The three \<open>do ... while\<close> loops advance to the first character at or after a position with a
  property; \<open>None\<close> when there is none in the buffer and the code reads outside it.
\<close>

function scan :: "(char \<Rightarrow> bool) \<Rightarrow> char list \<Rightarrow> nat \<Rightarrow> nat option" where
  "scan P buf pos =
     (if pos < length buf then (if P (buf ! pos) then Some pos else scan P buf (Suc pos)) else None)"
  by pat_completeness auto
termination
  by (relation "measure (\<lambda>(P, buf, pos). length buf - pos)") auto

declare scan.simps [simp del]

lemma scan_bounds: "scan P buf pos = Some q \<Longrightarrow> pos \<le> q \<and> q < length buf \<and> P (buf ! q)"
proof (induction P buf pos rule: scan.induct)
  case (1 P buf pos)
  then show ?case by (subst (asm) (2) scan.simps) (auto split: if_splits)
qed

text \<open>Storing the next element of \<open>args\<close>; \<open>argc\<close> is the number stored.\<close>

definition push_arg :: "nat \<Rightarrow> nat list \<Rightarrow> nat list option" where
  "push_arg p args = (if length args < ARGS_MAX then Some (args @ [p]) else None)"

definition finish_args :: "char list \<Rightarrow> nat list \<Rightarrow> (int \<times> nat list \<times> char list) outcome" where
  "finish_args buf args = (if length args < ARGS_MAX then Cont (0, args, buf) else Out_Of_Bounds)"

text \<open>One round of the loop: an argument, or an error or the end of the line.\<close>

datatype line_step = Next "char list" nat "nat list" | Stop "(int \<times> nat list \<times> char list) outcome"

definition skip_spaces :: "char list \<Rightarrow> nat \<Rightarrow> nat list \<Rightarrow> line_step" where
  "skip_spaces buf pos args =
     (case scan (\<lambda>c. is_eol c \<or> \<not> isspace c) buf (pos + 1) of
        None \<Rightarrow> Stop Out_Of_Bounds
      | Some q \<Rightarrow> Next buf q args)"

definition parse_quoted :: "char list \<Rightarrow> nat \<Rightarrow> nat list \<Rightarrow> line_step" where
  "parse_quoted buf pos args =
     (case push_arg (pos + 1) args of
        None \<Rightarrow> Stop Out_Of_Bounds
      | Some args1 \<Rightarrow>
          (case scan (\<lambda>c. is_eol c \<or> c = QUOTE) buf (pos + 1) of
             None \<Rightarrow> Stop Out_Of_Bounds
           | Some q \<Rightarrow>
               if is_eol (buf ! q) then Stop (Cont (-1, args1, buf))
               else
                 let buf1 = buf[q := NUL] in
                 if length buf1 \<le> q + 1 then Stop Out_Of_Bounds
                 else if is_eol (buf1 ! (q + 1)) then Stop (finish_args buf1 args1)
                 else if \<not> isspace (buf1 ! (q + 1)) then Stop (Cont (-1, args1, buf1))
                 else skip_spaces buf1 (q + 1) args1))"

definition parse_word :: "char list \<Rightarrow> nat \<Rightarrow> nat list \<Rightarrow> line_step" where
  "parse_word buf pos args =
     (case push_arg pos args of
        None \<Rightarrow> Stop Out_Of_Bounds
      | Some args1 \<Rightarrow>
          (case scan (\<lambda>c. is_eol c \<or> isspace c) buf (pos + 1) of
             None \<Rightarrow> Stop Out_Of_Bounds
           | Some q \<Rightarrow> skip_spaces (buf[q := NUL]) q args1))"

definition line_round :: "char list \<Rightarrow> nat \<Rightarrow> nat list \<Rightarrow> line_step" where
  "line_round buf pos args =
     (if length buf \<le> pos then Stop Out_Of_Bounds
      else if is_eol (buf ! pos) then Stop (finish_args buf args)
      else if buf ! pos = QUOTE then parse_quoted buf pos args
      else if \<not> isspace (buf ! pos) then parse_word buf pos args
      else skip_spaces buf pos args)"

lemma skip_spaces_Next: "skip_spaces buf pos args = Next buf' pos' args' \<Longrightarrow> pos < pos' \<and> buf' = buf \<and> pos' < length buf"
  by (auto simp: skip_spaces_def dest!: scan_bounds split: option.splits)

lemma line_round_Next:
  assumes "line_round buf pos args = Next buf' pos' args'"
  shows "pos < pos' \<and> length buf' = length buf \<and> pos' < length buf"
proof -
  consider "parse_quoted buf pos args = Next buf' pos' args'" | "parse_word buf pos args = Next buf' pos' args'"
    | "skip_spaces buf pos args = Next buf' pos' args'"
    using assms by (auto simp: line_round_def split: if_splits)
  then show ?thesis
  proof cases
    case 1
    then obtain q b a where "scan (\<lambda>c. is_eol c \<or> c = QUOTE) buf (pos + 1) = Some q"
      "skip_spaces b (q + 1) a = Next buf' pos' args'" "length b = length buf"
      by (auto simp: parse_quoted_def Let_def split: option.splits if_splits)
    then show ?thesis using scan_bounds skip_spaces_Next by fastforce
  next
    case 2
    then obtain q b a where "scan (\<lambda>c. is_eol c \<or> isspace c) buf (pos + 1) = Some q"
      "skip_spaces b q a = Next buf' pos' args'" "length b = length buf"
      by (auto simp: parse_word_def split: option.splits)
    then show ?thesis using scan_bounds skip_spaces_Next by fastforce
  next
    case 3
    then show ?thesis using skip_spaces_Next by blast
  qed
qed

function line_loop :: "char list \<Rightarrow> nat \<Rightarrow> nat list \<Rightarrow> (int \<times> nat list \<times> char list) outcome" where
  "line_loop buf pos args =
     (case line_round buf pos args of Stop r \<Rightarrow> r | Next buf' pos' args' \<Rightarrow> line_loop buf' pos' args')"
  by pat_completeness auto
termination
  by (relation "measure (\<lambda>(buf, pos, args). length buf - pos)") (auto dest!: line_round_Next)

declare line_loop.simps [simp del]

definition interpret_line :: "char list \<Rightarrow> (int \<times> nat list \<times> char list) outcome" where
  "interpret_line buf = line_loop buf 0 []"

definition arg_text :: "char list \<Rightarrow> nat \<Rightarrow> string" where
  "arg_text buf p = cstr (drop p buf)"

subsection \<open>The loop over the lines\<close>

text \<open>
  \<open>fgets\<close> overwrites the front of the buffer with the line and a NUL.  What running a command
  does to the world \<open>'w\<close> is a parameter: \<open>None\<close> when the process could not be created or
  waited for, otherwise its exit status.  The result is the return value, the number of the
  line and the world.
\<close>

definition fill_buf :: "string \<Rightarrow> char list \<Rightarrow> char list" where
  "fill_buf l buf = l @ NUL # drop (length l + 1) buf"

function interpret_file :: "(string list \<Rightarrow> 'w \<Rightarrow> int option \<times> 'w) \<Rightarrow> char list \<Rightarrow> string \<Rightarrow> nat \<Rightarrow> 'w \<Rightarrow>
    (int \<times> nat \<times> 'w) outcome" where
  "interpret_file run buf input line w =
     (case fgets BUFFER_SIZE input of
        None \<Rightarrow> Cont (0, line, w)
      | Some (l, rest) \<Rightarrow>
          (case interpret_line (fill_buf l buf) of
             Out_Of_Bounds \<Rightarrow> Out_Of_Bounds
           | Exit i \<Rightarrow> Exit i
           | Cont (r, args, buf1) \<Rightarrow>
               if r < 0 then Cont (-1, line, w)
               else if args = [] then interpret_file run buf1 rest (line + 1) w
               else (case run (map (arg_text buf1) args) w of
                   (None, w1) \<Rightarrow> Cont (0, line, w1)
                 | (Some status, w1) \<Rightarrow>
                     if status \<noteq> 0 then Cont (-1, line, w1) else interpret_file run buf1 rest (line + 1) w1)))"
  by pat_completeness auto
termination
  by (relation "measure (\<lambda>(run, buf, input, line, w). length input)") (auto simp: fgets_decreases)

declare interpret_file.simps [simp del]

text \<open>
  \<open>cw03/zad3\<close> runs every command under a limit of processor time and address space.  The number of
  bytes is computed in \<open>int\<close>; \<open>None\<close> where that overflows.
\<close>

definition set_limits :: "int \<Rightarrow> int \<Rightarrow> (size_t \<times> size_t) option" where
  "set_limits secs megabytes =
     (let bytes = megabytes * 1024 * 1024
      in if INT_MIN \<le> bytes \<and> bytes \<le> INT_MAX then Some (to_size_t secs, to_size_t bytes) else None)"

definition interpret_file_limited ::
    "((size_t \<times> size_t) option \<Rightarrow> string list \<Rightarrow> 'w \<Rightarrow> int option \<times> 'w) \<Rightarrow> int \<Rightarrow> int \<Rightarrow> char list \<Rightarrow> string \<Rightarrow>
     'w \<Rightarrow> (int \<times> nat \<times> 'w) outcome" where
  "interpret_file_limited run secs megabytes buf input w = interpret_file (run (set_limits secs megabytes)) buf input 1 w"

text \<open>\<open>tvtos\<close>: the microseconds are divided as integers; the sum is exact.\<close>

record timeval =
  tv_sec :: int
  tv_usec :: int

definition tvtos :: "timeval \<Rightarrow> timeval \<Rightarrow> int" where
  "tvtos from to = (tv_sec to - tv_sec from) + (tv_usec to - tv_usec from) sdiv 1000000"

subsection \<open>Pipelines\<close>

text \<open>
  \<open>cw05/zad1\<close>: the processes \<open>exec_command\<close> starts, with where their standard input and output go.
  The shell itself takes the reading end of each pipe as its own standard input.
\<close>

datatype source = Stdin | Pipe nat

record stage =
  st_argv :: "string list"
  st_in :: source
  st_out :: "nat option"

function exec_command :: "string list \<Rightarrow> source \<Rightarrow> nat \<Rightarrow> stage list \<times> source \<times> nat" where
  "exec_command argv shell_in next_pipe =
     (if ''|'' \<in> set argv then
        (case exec_command (tl (dropWhile (\<lambda>a. a \<noteq> ''|'') argv)) (Pipe next_pipe) (next_pipe + 1) of
           (stages, shell_in', n) \<Rightarrow>
             (\<lparr>st_argv = takeWhile (\<lambda>a. a \<noteq> ''|'') argv, st_in = shell_in, st_out = Some next_pipe\<rparr> # stages, shell_in', n))
      else ([\<lparr>st_argv = argv, st_in = shell_in, st_out = None\<rparr>], shell_in, next_pipe))"
  by pat_completeness auto
termination
proof (relation "measure (\<lambda>(argv, i, n). length argv)", goal_cases)
  case (2 argv shell_in next_pipe)
  have "length (tl (dropWhile (\<lambda>a. a \<noteq> ''|'') argv)) \<le> length argv - 1"
    using length_dropWhile_le [of "\<lambda>a. a \<noteq> ''|''" argv] by simp
  moreover have "0 < length argv" using 2 by (cases argv) auto
  ultimately have "length (tl (dropWhile (\<lambda>a. a \<noteq> ''|'') argv)) < length argv" by linarith
  then show ?case by simp
qed simp

declare exec_command.simps [simp del]

text \<open>The wait loop over the exit statuses in the order in which the processes end.\<close>

fun wait_all :: "int list \<Rightarrow> int" where
  "wait_all [] = 0"
| "wait_all (status # rest) = (if status \<noteq> 0 then -1 else wait_all rest)"

definition run_pipeline ::
    "(stage list \<Rightarrow> 'w \<Rightarrow> int list \<times> 'w) \<Rightarrow> string list \<Rightarrow> source \<times> nat \<times> 'w \<Rightarrow> int option \<times> (source \<times> nat \<times> 'w)" where
  "run_pipeline world argv st =
     (case st of (shell_in, n, w) \<Rightarrow>
        (case exec_command argv shell_in n of
           (stages, shell_in', n') \<Rightarrow>
             (case world stages w of (statuses, w') \<Rightarrow>
                (if wait_all statuses = 0 then Some 0 else None, (shell_in', n', w')))))"

subsection \<open>Scanning\<close>

lemma scan_found:
  assumes "\<forall>x \<in> set xs. \<not> P x" and "P c"
  shows "scan P (pre @ xs @ c # rest) (length pre) = Some (length pre + length xs)"
  using assms(1)
proof (induction xs arbitrary: pre)
  case Nil
  then show ?case using assms(2) by (subst scan.simps) simp
next
  case (Cons x xs)
  have "scan P ((pre @ [x]) @ xs @ c # rest) (length (pre @ [x])) = Some (length (pre @ [x]) + length xs)"
    using Cons.prems by (intro Cons.IH) simp
  then show ?case using Cons.prems by (subst scan.simps) (simp add: nth_append)
qed

lemma scan_here: "P c \<Longrightarrow> scan P (pre @ c # rest) (length pre) = Some (length pre)"
  using scan_found [of "[]" P c pre rest] by simp


subsection \<open>Splitting a line back into its words\<close>

text \<open>
  A word is written as it is, or between quotes; words are separated by a space.
\<close>

datatype token = Word string | Quoted string

fun tok_text :: "token \<Rightarrow> string" where
  "tok_text (Word w) = w"
| "tok_text (Quoted w) = w"

fun tok_ok :: "token \<Rightarrow> bool" where
  "tok_ok (Word w) \<longleftrightarrow> w \<noteq> [] \<and> hd w \<noteq> QUOTE \<and> (\<forall>c \<in> set w. \<not> isspace c \<and> c \<noteq> NUL)"
| "tok_ok (Quoted w) \<longleftrightarrow> (\<forall>c \<in> set w. c \<noteq> QUOTE \<and> c \<noteq> NL \<and> c \<noteq> NUL)"

fun tok_print :: "token \<Rightarrow> string" where
  "tok_print (Word w) = w"
| "tok_print (Quoted w) = QUOTE # w @ [QUOTE]"

fun line_print :: "token list \<Rightarrow> string" where
  "line_print [] = []"
| "line_print [t] = tok_print t"
| "line_print (t # ts) = tok_print t @ CHR '' '' # line_print ts"

lemma char_classes [simp]: "\<not> isspace QUOTE" "is_eol NL" "is_eol NUL"
  "\<not> is_eol QUOTE" "\<not> is_eol (CHR '' '')"
  by (simp_all add: isspace_def is_eol_def)

lemma not_eol: "c \<noteq> NUL \<Longrightarrow> \<not> isspace c \<Longrightarrow> \<not> is_eol c"
  by (auto simp: is_eol_def)

lemma tok_print_hd:
  assumes "tok_ok t"
  obtains c s where "tok_print t = c # s" and "\<not> isspace c" and "\<not> is_eol c"
proof (cases t)
  case (Word w)
  then show ?thesis using assms that by (cases w) (auto simp: not_eol)
next
  case (Quoted w)
  then show ?thesis using that by simp
qed

lemma line_print_Cons: "line_print (t # ts) = tok_print t @ (if ts = [] then [] else CHR '' '' # line_print ts)"
  by (cases ts) auto

text \<open>What follows a token: the end of the line, or a space and the next token.\<close>

lemma after_space:
  assumes "ts \<noteq> []" and "\<forall>t \<in> set ts. tok_ok t"
  obtains c s where "line_print ts = c # s" and "\<not> isspace c" and "\<not> is_eol c"
proof -
  obtain t us where ts: "ts = t # us" using assms(1) by (cases ts) auto
  obtain c s where "tok_print t = c # s" "\<not> isspace c" "\<not> is_eol c" using assms(2) ts tok_print_hd [of t] by auto
  then show ?thesis using that by (simp add: ts line_print_Cons)
qed

lemma arg_text_here: "NUL \<notin> set w \<Longrightarrow> arg_text (pre @ w @ NUL # rest) (length pre) = w"
  by (induction w) (auto simp: arg_text_def cstr_def)

text \<open>One round on a token: it is stored, and a NUL put behind its text.\<close>

lemma skip_spaces_next:
  assumes "\<not> isspace c \<or> is_eol c"
  shows "skip_spaces (pre @ x # c # rest) (length pre) args = Next (pre @ x # c # rest) (length pre + 1) args"
  using scan_here [of "\<lambda>c. is_eol c \<or> \<not> isspace c" c "pre @ [x]" rest] assms by (auto simp: skip_spaces_def)

lemma word_round:
  assumes "tok_ok (Word w)" and "isspace sep \<or> is_eol sep" and "\<not> isspace c \<or> is_eol c" and "length args < ARGS_MAX"
  shows "line_round (pre @ w @ sep # c # rest) (length pre) args =
    Next (pre @ w @ NUL # c # rest) (length (pre @ w) + 1) (args @ [length pre])"
proof -
  obtain a v where w: "w = a # v" using assms(1) by (cases w) auto
  have a: "\<not> is_eol a" "a \<noteq> QUOTE" "\<not> isspace a" using assms(1) w not_eol by auto
  have v: "\<forall>x \<in> set v. \<not> (is_eol x \<or> isspace x)" using assms(1) w not_eol by auto
  have "scan (\<lambda>c. is_eol c \<or> isspace c) (pre @ w @ sep # c # rest) (length pre + 1) = Some (length (pre @ w))"
    using scan_found [OF v, of sep "pre @ [a]" "c # rest"] assms(2) w by auto
  moreover have "(pre @ w @ sep # c # rest)[length (pre @ w) := NUL] = (pre @ w) @ NUL # c # rest"
    using list_update_length [of "pre @ w" sep "c # rest" NUL] by simp
  ultimately have "parse_word (pre @ w @ sep # c # rest) (length pre) args =
      Next (pre @ w @ NUL # c # rest) (length (pre @ w) + 1) (args @ [length pre])"
    using skip_spaces_next [OF assms(3), of "pre @ w" NUL rest] assms(4)
    by (simp add: parse_word_def push_arg_def)
  then show ?thesis using a by (simp add: line_round_def nth_append w)
qed

lemma quoted_scan:
  assumes "tok_ok (Quoted w)"
  shows "scan (\<lambda>c. is_eol c \<or> c = QUOTE) (pre @ QUOTE # w @ QUOTE # rest) (length pre + 1) = Some (length pre + 1 + length w)"
    and "(pre @ QUOTE # w @ QUOTE # rest)[length pre + 1 + length w := NUL] = pre @ QUOTE # w @ NUL # rest"
    and "(pre @ QUOTE # w @ QUOTE # rest) ! (length pre + 1 + length w) = QUOTE"
proof -
  have "\<forall>x \<in> set w. \<not> (is_eol x \<or> x = QUOTE)" using assms by (auto simp: is_eol_def)
  from scan_found [OF this, of QUOTE "pre @ [QUOTE]" rest]
  show "scan (\<lambda>c. is_eol c \<or> c = QUOTE) (pre @ QUOTE # w @ QUOTE # rest) (length pre + 1) = Some (length pre + 1 + length w)"
    by simp
  show "(pre @ QUOTE # w @ QUOTE # rest)[length pre + 1 + length w := NUL] = pre @ QUOTE # w @ NUL # rest"
    using list_update_length [of "pre @ QUOTE # w" QUOTE rest NUL] by simp
  show "(pre @ QUOTE # w @ QUOTE # rest) ! (length pre + 1 + length w) = QUOTE"
    using nth_append_length [of "pre @ QUOTE # w" QUOTE rest] by simp
qed

lemma quoted_round:
  assumes "tok_ok (Quoted w)" and "\<not> isspace c \<and> \<not> is_eol c" and "length args < ARGS_MAX"
  shows "line_round (pre @ (QUOTE # w @ [QUOTE]) @ CHR '' '' # c # rest) (length pre) args =
    Next (pre @ QUOTE # w @ NUL # CHR '' '' # c # rest) (length pre + length w + 3) (args @ [length pre + 1])"
proof -
  note Q = quoted_scan [OF assms(1), of pre "CHR '' '' # c # rest"]
  let ?b = "pre @ QUOTE # w @ NUL # CHR '' '' # c # rest"
  have n: "?b ! (length pre + 1 + length w + 1) = CHR '' ''"
    using nth_append_length [of "pre @ QUOTE # w @ [NUL]" "CHR '' ''" "c # rest"] by (simp add: add.assoc)
  have "skip_spaces ?b (length pre + 1 + length w + 1) a = Next ?b (length pre + length w + 3) a" for a
    using skip_spaces_next [of c "pre @ QUOTE # w @ [NUL]" "CHR '' ''" rest a] assms(2)
    by (simp add: add.assoc numeral_3_eq_3)
  then have "parse_quoted (pre @ QUOTE # w @ QUOTE # CHR '' '' # c # rest) (length pre) args =
      Next ?b (length pre + length w + 3) (args @ [length pre + 1])"
    using Q n assms(3) by (simp add: parse_quoted_def push_arg_def Let_def)
  then show ?thesis by (simp add: line_round_def nth_append)
qed

lemma quoted_last:
  assumes "tok_ok (Quoted w)" and "is_eol e" and "length args < ARGS_MAX"
  shows "line_round (pre @ (QUOTE # w @ [QUOTE]) @ e # rest) (length pre) args =
    Stop (finish_args (pre @ QUOTE # w @ NUL # e # rest) (args @ [length pre + 1]))"
proof -
  note Q = quoted_scan [OF assms(1), of pre "e # rest"]
  have "(pre @ QUOTE # w @ NUL # e # rest) ! (length pre + 1 + length w + 1) = e"
    using nth_append_length [of "pre @ QUOTE # w @ [NUL]" e rest] by (simp add: add.assoc)
  then have "parse_quoted (pre @ QUOTE # w @ QUOTE # e # rest) (length pre) args =
      Stop (finish_args (pre @ QUOTE # w @ NUL # e # rest) (args @ [length pre + 1]))"
    using Q assms(2,3) by (simp add: parse_quoted_def push_arg_def Let_def)
  then show ?thesis by (simp add: line_round_def nth_append)
qed


lemma line_loop_eol: "is_eol e \<Longrightarrow> length args < ARGS_MAX \<Longrightarrow>
    line_loop (pre @ e # rest) (length pre) args = Cont (0, args, pre @ e # rest)"
  by (subst line_loop.simps) (simp add: line_round_def finish_args_def)

lemma line_loop_tokens:
  assumes "\<forall>t \<in> set ts. tok_ok t" and "length args + length ts < ARGS_MAX"
  shows "\<exists>args' out. line_loop (pre @ line_print ts @ NL # NUL # rest) (length pre) args = Cont (0, args @ args', pre @ out) \<and>
    map (arg_text (pre @ out)) args' = map tok_text ts"
  using assms
proof (induction ts arbitrary: pre args)
  case Nil
  then show ?case using line_loop_eol [of NL args pre "NUL # rest"] by simp
next
  case (Cons t ts)
  have t: "tok_ok t" and ts: "\<forall>t \<in> set ts. tok_ok t" and n: "length args < ARGS_MAX" "length (args @ [p]) + length ts < ARGS_MAX" for p
    using Cons.prems by simp_all
  show ?case
  proof (cases ts)
    case Nil
    show ?thesis
    proof (cases t)
      case (Word w)
      have "line_loop (pre @ w @ NL # NUL # rest) (length pre) args = Cont (0, args @ [length pre], (pre @ w @ [NUL]) @ NUL # rest)"
        using word_round [of w NL NUL args pre rest] line_loop_eol [of NUL "args @ [length pre]" "pre @ w @ [NUL]" rest]
          t Word n Nil by (subst line_loop.simps) simp
      then show ?thesis using arg_text_here [of w pre "NUL # rest"] t Word Nil
        by (intro exI [of _ "[length pre]"] exI [of _ "w @ NUL # NUL # rest"]) auto
    next
      case (Quoted w)
      have "line_loop (pre @ (QUOTE # w @ [QUOTE]) @ NL # NUL # rest) (length pre) args =
          Cont (0, args @ [length pre + 1], (pre @ [QUOTE]) @ w @ NUL # NL # NUL # rest)"
        using quoted_last [of w NL args pre "NUL # rest"] t Quoted n Nil by (subst line_loop.simps) (simp add: finish_args_def)
      then show ?thesis using arg_text_here [of w "pre @ [QUOTE]" "NL # NUL # rest"] t Quoted Nil
        by (intro exI [of _ "[length pre + 1]"] exI [of _ "QUOTE # w @ NUL # NL # NUL # rest"]) auto
    qed
  next
    case more: (Cons u us)
    obtain c s where cs: "line_print ts = c # s" "\<not> isspace c" "\<not> is_eol c" using after_space [of ts] more ts by auto
    show ?thesis
    proof (cases t)
      case (Word w)
      let ?pre = "pre @ w @ [NUL]"
      obtain args' out where IH: "line_loop (?pre @ line_print ts @ NL # NUL # rest) (length ?pre) (args @ [length pre]) =
          Cont (0, (args @ [length pre]) @ args', ?pre @ out)" "map (arg_text (?pre @ out)) args' = map tok_text ts"
        using Cons.IH [OF ts n(2)] by blast
      have "line_loop (pre @ line_print (t # ts) @ NL # NUL # rest) (length pre) args =
          Cont (0, args @ length pre # args', pre @ w @ NUL # out)"
        using word_round [of w "CHR '' ''" c args pre "s @ NL # NUL # rest"] t Word n(1) cs IH(1) more
        by (subst line_loop.simps) (simp add: line_print_Cons)
      then show ?thesis using arg_text_here [of w pre out] t Word IH(2)
        by (intro exI [of _ "length pre # args'"] exI [of _ "w @ NUL # out"]) auto
    next
      case (Quoted w)
      let ?pre = "pre @ QUOTE # w @ [NUL, CHR '' '']"
      obtain args' out where IH: "line_loop (?pre @ line_print ts @ NL # NUL # rest) (length ?pre) (args @ [length pre + 1]) =
          Cont (0, (args @ [length pre + 1]) @ args', ?pre @ out)" "map (arg_text (?pre @ out)) args' = map tok_text ts"
        using Cons.IH [OF ts n(2)] by blast
      have "line_loop (pre @ line_print (t # ts) @ NL # NUL # rest) (length pre) args =
          Cont (0, args @ (length pre + 1) # args', pre @ QUOTE # w @ NUL # CHR '' '' # out)"
        using quoted_round [of w c args pre "s @ NL # NUL # rest"] t Quoted n(1) cs IH(1) more
        by (subst line_loop.simps) (simp add: line_print_Cons numeral_3_eq_3)
      then show ?thesis using arg_text_here [of w "pre @ [QUOTE]" "CHR '' '' # out"] t Quoted IH(2)
        by (intro exI [of _ "(length pre + 1) # args'"] exI [of _ "QUOTE # w @ NUL # CHR '' '' # out"]) auto
    qed
  qed
qed

subsection \<open>Properties\<close>

text \<open>
  A line of words, plain or in quotes, ended by a newline is split back into exactly these
  words, whatever is behind it in the buffer, as long as there are at most 255.
\<close>

theorem interpret_line_roundtrip:
  assumes "\<forall>t \<in> set ts. tok_ok t" and "length ts < ARGS_MAX"
  shows "\<exists>args buf. interpret_line (line_print ts @ NL # NUL # rest) = Cont (0, args, buf) \<and>
    map (arg_text buf) args = map tok_text ts"
  using line_loop_tokens [OF assms(1), of "[]" "[]" rest] assms(2) by (auto simp: interpret_line_def)

theorem interpret_line_roundtrip_witness:
  "\<exists>args buf. interpret_line (''ls '' @ QUOTE # ''a b'' @ [QUOTE, NL, NUL, CHR ''x'']) = Cont (0, args, buf) \<and>
     map (arg_text buf) args = [''ls'', ''a b'']"
  using interpret_line_roundtrip [of "[Word ''ls'', Quoted ''a b'']" "''x''"] by (simp add: isspace_def)

text \<open>
  A word at the end of a line without a newline makes the interpreter read on behind the end:
  what an earlier, longer line left in the buffer becomes further arguments.
\<close>

theorem interpret_line_stale_arguments:
  assumes "tok_ok (Word w)" and "\<forall>t \<in> set stale. tok_ok t" and "stale \<noteq> []" and "Suc (length stale) < ARGS_MAX"
    and "length old = Suc (length w)"
  shows "\<exists>args buf. interpret_line (fill_buf w (old @ line_print stale @ NL # NUL # rest)) = Cont (0, args, buf) \<and>
    map (arg_text buf) args = w # map tok_text stale"
proof -
  obtain c s where cs: "line_print stale = c # s" "\<not> isspace c" "\<not> is_eol c" using after_space [of stale] assms(2,3) by auto
  have f: "fill_buf w (old @ line_print stale @ NL # NUL # rest) = w @ NUL # line_print stale @ NL # NUL # rest"
    using assms(5) by (simp add: fill_buf_def)
  let ?pre = "w @ [NUL]"
  obtain args' out where L: "line_loop (?pre @ line_print stale @ NL # NUL # rest) (length ?pre) [0] = Cont (0, [0] @ args', ?pre @ out)"
    "map (arg_text (?pre @ out)) args' = map tok_text stale"
    using line_loop_tokens [OF assms(2), of "[0]" ?pre rest] assms(4) by auto
  have "line_loop (w @ NUL # line_print stale @ NL # NUL # rest) 0 [] = Cont (0, 0 # args', w @ NUL # out)"
    using word_round [OF assms(1), of NUL c "[]" "[]" "s @ NL # NUL # rest"] cs L(1)
    by (subst line_loop.simps) simp
  moreover have "arg_text (w @ NUL # out) 0 = w" using arg_text_here [of w "[]" out] assms(1) by auto
  ultimately show ?thesis using L(2) by (auto simp: interpret_line_def f)
qed

theorem interpret_line_stale_arguments_witness:
  "\<exists>args buf. interpret_line (fill_buf ''ls'' (''cat'' @ ''f'' @ [NL, NUL])) = Cont (0, args, buf) \<and>
     map (arg_text buf) args = [''ls'', ''f'']"
  using interpret_line_stale_arguments [of "''ls''" "[Word ''f'']" "''cat''" "[]"] by (simp add: isspace_def)

lemma exec_command_chain:
  "exec_command argv src n = (stages, src', n') \<Longrightarrow>
    stages \<noteq> [] \<and> n' + 1 = n + length stages \<and>
    (\<forall>k < length stages. st_in (stages ! k) = (if k = 0 then src else Pipe (n + k - 1)) \<and>
       st_out (stages ! k) = (if k + 1 = length stages then None else Some (n + k))) \<and>
    src' = st_in (last stages) \<and> concat (map (\<lambda>s. ''|'' # st_argv s) stages) = ''|'' # argv \<and>
    (\<forall>s \<in> set stages. ''|'' \<notin> set (st_argv s))"
proof (induction argv src n arbitrary: stages src' n' rule: exec_command.induct)
  case (1 argv src n)
  show ?case
  proof (cases "''|'' \<in> set argv")
    case False
    then show ?thesis using "1.prems" by (subst (asm) exec_command.simps) auto
  next
    case True
    let ?rest = "tl (dropWhile (\<lambda>a. a \<noteq> ''|'') argv)"
    obtain st sr m where r: "exec_command ?rest (Pipe n) (n + 1) = (st, sr, m)" by (metis prod_cases3)
    note IH = "1.IH" [OF True r]
    have s: "stages = \<lparr>st_argv = takeWhile (\<lambda>a. a \<noteq> ''|'') argv, st_in = src, st_out = Some n\<rparr> # st" "src' = sr" "n' = m"
      using "1.prems" True r by (subst (asm) exec_command.simps; simp)+
    have "dropWhile (\<lambda>a. a \<noteq> ''|'') argv = ''|'' # ?rest"
      using True by (induction argv) auto
    then have "argv = takeWhile (\<lambda>a. a \<noteq> ''|'') argv @ ''|'' # ?rest"
      by (metis takeWhile_dropWhile_id)
    moreover have "''|'' \<notin> set (takeWhile (\<lambda>a. a \<noteq> ''|'') argv)" by (auto dest: set_takeWhileD)
    moreover have "length stages = Suc (length st)" "st_in (stages ! 0) = src" "st_out (stages ! 0) = Some n"
      "\<And>k. stages ! Suc k = st ! k" "length st \<noteq> 0"
      using s IH by simp_all
    moreover have "\<forall>k < length stages. st_in (stages ! k) = (if k = 0 then src else Pipe (n + k - 1)) \<and>
       st_out (stages ! k) = (if k + 1 = length stages then None else Some (n + k))"
    proof (intro allI impI)
      fix k assume k: "k < length stages"
      show "st_in (stages ! k) = (if k = 0 then src else Pipe (n + k - 1)) \<and>
         st_out (stages ! k) = (if k + 1 = length stages then None else Some (n + k))"
        using k IH s(1) by (cases k) auto
    qed
    ultimately show ?thesis using IH s by (simp add: last_ConsR)
  qed
qed

text \<open>
  C28: A pipeline is started as the words between the bars, each process reading from the pipe the
  one before it writes to; afterwards the shell's own standard input is the last pipe, no longer
  the script it was reading.
\<close>

theorem pipeline_chained:
  assumes "exec_command argv Stdin 0 = (stages, shell_in, n)"
  shows "concat (map (\<lambda>s. ''|'' # st_argv s) stages) = ''|'' # argv \<and> (\<forall>s \<in> set stages. ''|'' \<notin> set (st_argv s)) \<and>
    st_in (hd stages) = Stdin \<and> st_out (last stages) = None \<and>
    (\<forall>k. k + 1 < length stages \<longrightarrow> st_out (stages ! k) = Some k \<and> st_in (stages ! (k + 1)) = Pipe k) \<and>
    (1 < length stages \<longrightarrow> shell_in = Pipe (length stages - 2))"
proof -
  note C = exec_command_chain [OF assms]
  then have ne: "stages \<noteq> []" by blast
  have "st_in (stages ! 0) = Stdin" "st_out (stages ! (length stages - 1)) = None"
    "st_in (stages ! (length stages - 1)) = (if length stages - 1 = 0 then Stdin else Pipe (length stages - 2))"
    using C ne by (auto simp: numeral_2_eq_2)
  then show ?thesis using C ne by (auto simp: hd_conv_nth last_conv_nth)
qed

theorem pipeline_chained_witness:
  "\<exists>stages. exec_command [''a'', ''|'', ''b'', ''c''] Stdin 0 = (stages, Pipe 0, 1) \<and>
     concat (map (\<lambda>s. ''|'' # st_argv s) stages) = [''|'', ''a'', ''|'', ''b'', ''c'']"
proof -
  have "\<exists>stages. exec_command [''a'', ''|'', ''b'', ''c''] Stdin 0 = (stages, Pipe 0, 1)"
    by (subst exec_command.simps, subst exec_command.simps) simp
  then show ?thesis using pipeline_chained by blast
qed

end
