(* ===== verification/Shell_Main.thy ===== *)
theory Shell_Main
  imports Interpreter
begin

text \<open>
  The command interpreters as programs: \<open>run_command\<close> of \<open>cw03/zad2/src/command_runner.c\<close> and of
  \<open>cw03/zad3/src/command_runner.c\<close>, \<open>main\<close> of \<open>cw03/zad2/src/main.c\<close> and \<open>cw03/zad3/src/main.c\<close>, and what
  running a whole script comes to.  What a process does to the world \<open>'w\<close> is a parameter.
\<close>

unbundle bit_operations_syntax

subsection \<open>Running a command\<close>

text \<open>
  How starting and waiting for a process can go; the status is the word \<open>waitpid\<close> gives: the low
  seven bits are the signal that killed it, the second byte is what it exited with.
\<close>

datatype launch = No_Process | Not_Found | Not_Waited | Ended "32 word"

definition exit_status :: "32 word \<Rightarrow> 32 word" where
  "exit_status code = push_bit 8 (code AND 0xff)"

definition WEXITSTATUS :: "32 word \<Rightarrow> int" where
  "WEXITSTATUS status = uint (drop_bit 8 status AND 0xff)"

text \<open>\<open>cw03/zad2\<close>: a child whose \<open>execvp\<close> fails exits with 127.\<close>

definition run_command :: "(string list \<Rightarrow> 'w \<Rightarrow> launch \<times> 'w) \<Rightarrow> string list \<Rightarrow> 'w \<Rightarrow> int option \<times> 'w" where
  "run_command exec argv w =
     (case exec argv w of
        (No_Process, w') \<Rightarrow> (None, w')
      | (Not_Waited, w') \<Rightarrow> (None, w')
      | (Not_Found, w') \<Rightarrow> (Some (WEXITSTATUS (exit_status 127)), w')
      | (Ended status, w') \<Rightarrow> (Some (WEXITSTATUS status), w'))"

text \<open>
  \<open>cw03/zad3\<close>: the child sets its limits first, and exits with 127 when it cannot.  The processor
  time of all children before and after, \<open>None\<close> if it is not available, gives the printed usage.
  What the limits are after an overflow is left to the parameters.
\<close>

record rusage =
  ru_utime :: timeval
  ru_stime :: timeval

definition run_limited ::
    "((size_t \<times> size_t) option \<Rightarrow> bool) \<Rightarrow> ((size_t \<times> size_t) option \<Rightarrow> string list \<Rightarrow> 'w \<Rightarrow> launch \<times> 'w) \<Rightarrow> ('w \<Rightarrow> rusage option) \<Rightarrow>
     (size_t \<times> size_t) option \<Rightarrow> string list \<Rightarrow> 'w \<times> (int \<times> int) list \<Rightarrow> int option \<times> ('w \<times> (int \<times> int) list)" where
  "run_limited setrlimit exec getrusage limits argv st =
     (case st of (w, printed) \<Rightarrow>
        (let (r, w') = (if setrlimit limits then exec limits argv w else (Ended (exit_status 127), w));
             shown = (case (getrusage w, getrusage w') of
               (Some a, Some b) \<Rightarrow> [(tvtos (ru_utime a) (ru_utime b), tvtos (ru_stime a) (ru_stime b))]
             | _ \<Rightarrow> [])
         in case r of
              No_Process \<Rightarrow> (None, (w', printed))
            | Not_Waited \<Rightarrow> (None, (w', printed))
            | Not_Found \<Rightarrow> (Some (WEXITSTATUS (exit_status 127)), (w', printed @ shown))
            | Ended status \<Rightarrow> (Some (WEXITSTATUS status), (w', printed @ shown))))"

subsection \<open>main\<close>

text \<open>\<open>fopen\<close> gives the contents of a file that can be read.\<close>

definition ksh_main ::
    "(string list \<Rightarrow> 'w \<Rightarrow> int option \<times> 'w) \<Rightarrow> (string \<Rightarrow> string ptr) \<Rightarrow> string \<Rightarrow> char list \<Rightarrow> string list \<Rightarrow> 'w \<Rightarrow>
     (int \<times> nat \<times> 'w) outcome" where
  "ksh_main run fopen stdin buf argv w =
     (if length argv = 2 then
        (case fopen (argv ! 1) of NULL \<Rightarrow> Exit (-1) | Some fp \<Rightarrow> interpret_file run buf fp 1 w)
      else if length argv = 1 then interpret_file run buf stdin 1 w
      else Exit 1)"

definition limits_main ::
    "((size_t \<times> size_t) option \<Rightarrow> string list \<Rightarrow> 'w \<Rightarrow> int option \<times> 'w) \<Rightarrow> (string \<Rightarrow> string ptr) \<Rightarrow> string \<Rightarrow> char list \<Rightarrow>
     string list \<Rightarrow> 'w \<Rightarrow> (int \<times> nat \<times> 'w) outcome" where
  "limits_main run fopen stdin buf argv w =
     (if length argv = 4 then
        (case fopen (argv ! 1) of
           NULL \<Rightarrow> Exit (-1)
         | Some fp \<Rightarrow> interpret_file_limited run (atoi (argv ! 2)) (atoi (argv ! 3)) buf fp w)
      else if length argv = 3 then interpret_file_limited run (atoi (argv ! 1)) (atoi (argv ! 2)) buf stdin w
      else Exit 1)"

subsection \<open>Exit statuses\<close>

lemma byte_mask: "(0xff :: 32 word) = mask 8"
  by (simp add: mask_eq_exp_minus_1)

lemma WEXITSTATUS_exit [simp]: "WEXITSTATUS (exit_status code) = uint (code AND 0xff)"
proof -
  have "drop_bit 8 (push_bit 8 (code AND 0xff)) AND 0xff = (code AND 0xff)"
    unfolding byte_mask by (rule bit_word_eqI) (auto simp: bit_simps)
  then show ?thesis by (simp add: WEXITSTATUS_def exit_status_def)
qed

text \<open>The status of a process that was killed by a signal looks like success.\<close>

lemma WEXITSTATUS_signal: "signal < 256 \<Longrightarrow> WEXITSTATUS signal = 0"
proof -
  assume "signal < 256"
  then have "unat signal div 256 = 0" by (simp add: word_less_nat_alt)
  then have "drop_bit 8 signal = 0"
    by (simp add: word_unat_eq_iff drop_bit_eq_div unat_div)
  then show ?thesis by (simp add: WEXITSTATUS_def)
qed

subsection \<open>Scripts\<close>

text \<open>A script of one command on each line, and what running it means: the commands in order, up to
  the first that cannot be started or fails.\<close>

definition script :: "token list list \<Rightarrow> string" where
  "script lines = concat (map (\<lambda>ts. line_print ts @ [NL]) lines)"

fun script_runs :: "(string list \<Rightarrow> 'w \<Rightarrow> int option \<times> 'w) \<Rightarrow> token list list \<Rightarrow> nat \<Rightarrow> 'w \<Rightarrow> int \<times> nat \<times> 'w" where
  "script_runs run [] line w = (0, line, w)"
| "script_runs run (ts # rest) line w =
     (if ts = [] then script_runs run rest (line + 1) w
      else (case run (map tok_text ts) w of
          (None, w1) \<Rightarrow> (0, line, w1)
        | (Some status, w1) \<Rightarrow> if status \<noteq> 0 then (-1, line, w1) else script_runs run rest (line + 1) w1))"

definition line_ok :: "token list \<Rightarrow> bool" where
  "line_ok ts \<longleftrightarrow> (\<forall>t \<in> set ts. tok_ok t) \<and> length ts < ARGS_MAX \<and> length (line_print ts) < BUFFER_SIZE - 1"

lemma tok_print_no_NL: "tok_ok t \<Longrightarrow> NL \<notin> set (tok_print t)"
  using isspace_chars(1) by (cases t; fastforce)

lemma line_print_no_NL: "\<forall>t \<in> set ts. tok_ok t \<Longrightarrow> NL \<notin> set (line_print ts)"
  by (induction ts) (auto simp: line_print_Cons tok_print_no_NL)

lemma interpret_file_script:
  assumes "\<forall>ts \<in> set lines. line_ok ts"
  shows "interpret_file run buf (script lines) line w = Cont (script_runs run lines line w)"
  using assms
proof (induction lines arbitrary: buf line w)
  case Nil
  then show ?case by (subst interpret_file.simps) (simp add: script_def fgets_def)
next
  case (Cons ts lines)
  let ?l = "line_print ts @ [NL]"
  have ok: "\<forall>t \<in> set ts. tok_ok t" "length ts < ARGS_MAX" "length (line_print ts) < BUFFER_SIZE - 1"
    using Cons.prems by (simp_all add: line_ok_def)
  have "fgets BUFFER_SIZE (script (ts # lines)) = Some (?l, script lines)"
    using read_line_NL [OF line_print_no_NL [OF ok(1)] ok(3), of "script lines"] by (simp add: fgets_def script_def)
  moreover from line_loop_tokens [OF ok(1), of "[]" "[]" "drop (length ?l + 1) buf"] ok(2)
  obtain args buf1 where "interpret_line (fill_buf ?l buf) = Cont (0, args, buf1)" "map (arg_text buf1) args = map tok_text ts"
    by (auto simp: interpret_line_def fill_buf_def)
  moreover have "args = [] \<longleftrightarrow> ts = []" using calculation(3) by auto
  ultimately show ?case
    using Cons.IH Cons.prems by (subst interpret_file.simps) (auto split: option.split prod.split)
qed



end
