(* ===== verification/Pgm.thy ===== *)
theory Pgm
  imports C_Lib
begin

text \<open>
  Grey-scale images, \<open>cw08/zad1/src/pgm.c\<close>: an image is one block of memory holding the two
  dimensions and behind them one byte per pixel; images are read from and written to files in
  the plain PGM format.  The text of a file is the list of its characters.

  The allocator is a parameter: it gives the bytes of a block, or \<open>NULL\<close>.  The block may be
  longer than what was asked for.  \<open>scale m p\<close> is the value of \<open>p *= 255.f / m\<close> in single
  precision.
\<close>

record pgm_image =
  width :: size_t
  height :: size_t
  pix_data :: "byte list"

type_synonym allocator = "size_t \<Rightarrow> byte list ptr"

definition pgm_create :: "allocator \<Rightarrow> size_t \<Rightarrow> size_t \<Rightarrow> pgm_image ptr outcome" where
  "pgm_create malloc w h =
     (case malloc (16 + w * h) of
        NULL \<Rightarrow> Cont NULL
      | Some block \<Rightarrow>
          if length block < 16 then Out_Of_Bounds
          else Cont (Some \<lparr>width = w, height = h, pix_data = drop 16 block\<rparr>))"

text \<open>The index is computed in \<open>size_t\<close>; \<open>None\<close> is an access outside the block.\<close>

definition pix_index :: "pgm_image \<Rightarrow> int \<Rightarrow> int \<Rightarrow> nat" where
  "pix_index img x y = unat (to_size_t y * width img + to_size_t x)"

definition pgm_get_pixel :: "pgm_image \<Rightarrow> int \<Rightarrow> int \<Rightarrow> byte option" where
  "pgm_get_pixel img x y =
     (if pix_index img x y < length (pix_data img) then Some (pix_data img ! pix_index img x y) else None)"

definition pgm_set_pixel :: "pgm_image \<Rightarrow> int \<Rightarrow> int \<Rightarrow> byte \<Rightarrow> pgm_image option" where
  "pgm_set_pixel img x y pix =
     (if pix_index img x y < length (pix_data img)
      then Some (img\<lparr>pix_data := (pix_data img)[pix_index img x y := pix]\<rparr>) else None)"

subsection \<open>Writing\<close>

text \<open>
  The loops over the columns of a row from index \<open>d\<close> on, and over the rows.  The counter \<open>d\<close> is
  an \<open>int\<close>: running past \<open>INT_MAX\<close> counts as leaving the block.
\<close>

definition pix_cell :: "pgm_image \<Rightarrow> nat \<Rightarrow> bool" where
  "pix_cell img d = (d < length (pix_data img) \<and> int d < INT_MAX)"

fun save_cols :: "pgm_image \<Rightarrow> nat \<Rightarrow> nat \<Rightarrow> string outcome" where
  "save_cols img d 0 = Cont []"
| "save_cols img d (Suc n) =
     (if pix_cell img d then
        (case save_cols img (Suc d) n of
           Cont s \<Rightarrow> Cont (print_d (uint (pix_data img ! d)) @ CHR '' '' # s)
         | Exit i \<Rightarrow> Exit i
         | Out_Of_Bounds \<Rightarrow> Out_Of_Bounds)
      else Out_Of_Bounds)"

fun save_rows :: "pgm_image \<Rightarrow> nat \<Rightarrow> nat \<Rightarrow> string outcome" where
  "save_rows img d 0 = Cont []"
| "save_rows img d (Suc n) =
     (case save_cols img d (unat (width img)) of
        Cont s \<Rightarrow>
          (case save_rows img (d + unat (width img)) n of
             Cont t \<Rightarrow> Cont (s @ NL # t) | Exit i \<Rightarrow> Exit i | Out_Of_Bounds \<Rightarrow> Out_Of_Bounds)
      | Exit i \<Rightarrow> Exit i
      | Out_Of_Bounds \<Rightarrow> Out_Of_Bounds)"

text \<open>What is written to the file; opening it and writing to it succeed.\<close>

definition pgm_save :: "pgm_image \<Rightarrow> string outcome" where
  "pgm_save img =
     (case save_rows img 0 (unat (height img)) of
        Cont s \<Rightarrow>
          Cont (''P2'' @ NL # print_u (unat (width img)) @ CHR '' '' # print_u (unat (height img)) @
                NL # ''255'' @ NL # s)
      | Exit i \<Rightarrow> Exit i
      | Out_Of_Bounds \<Rightarrow> Out_Of_Bounds)"

subsection \<open>Reading\<close>

text \<open>The header \<open>P2 %zu %zu %zu\<close>: width, height, the largest value and what follows.\<close>

definition scan_header :: "string \<Rightarrow> (size_t \<times> size_t \<times> size_t \<times> string) option" where
  "scan_header s =
     (if take 2 s = ''P2'' then
        (case scan_zu (drop 2 s) of
           None \<Rightarrow> None
         | Some (w, s1) \<Rightarrow>
             (case scan_zu s1 of
                None \<Rightarrow> None
              | Some (h, s2) \<Rightarrow>
                  (case scan_zu s2 of
                     None \<Rightarrow> None
                   | Some (m, s3) \<Rightarrow> Some (w, h, m, dropWhile isspace s3))))
      else None)"

text \<open>
  A pixel is read with \<open>%d\<close> into its byte: the four bytes of an \<open>int\<close> are stored from there on,
  then the first of them is scaled.  The inner \<open>None\<close> is a failed conversion.
\<close>

definition load_pixel :: "(size_t \<Rightarrow> byte \<Rightarrow> byte) \<Rightarrow> size_t \<Rightarrow> nat \<Rightarrow> int \<Rightarrow> pgm_image \<Rightarrow> pgm_image option" where
  "load_pixel scale max_val d v img =
     (if pix_cell img d \<and> d + 4 \<le> length (pix_data img) then
        let bytes = take d (pix_data img) @ le_bytes 4 (nat (v mod 2 ^ 32)) @ drop (d + 4) (pix_data img)
        in Some (img\<lparr>pix_data := bytes[d := scale max_val (bytes ! d)]\<rparr>)
      else None)"

fun load_cols :: "(size_t \<Rightarrow> byte \<Rightarrow> byte) \<Rightarrow> size_t \<Rightarrow> nat \<Rightarrow> nat \<Rightarrow> string \<Rightarrow> pgm_image \<Rightarrow>
    (pgm_image \<times> string) option outcome" where
  "load_cols scale max_val d 0 s img = Cont (Some (img, s))"
| "load_cols scale max_val d (Suc n) s img =
     (case scan_d s of
        None \<Rightarrow> Cont None
      | Some (v, r) \<Rightarrow>
          (case load_pixel scale max_val d v img of
             None \<Rightarrow> Out_Of_Bounds
           | Some img' \<Rightarrow> load_cols scale max_val (Suc d) n (dropWhile isspace r) img'))"

fun load_rows :: "(size_t \<Rightarrow> byte \<Rightarrow> byte) \<Rightarrow> size_t \<Rightarrow> nat \<Rightarrow> nat \<Rightarrow> string \<Rightarrow> pgm_image \<Rightarrow>
    (pgm_image \<times> string) option outcome" where
  "load_rows scale max_val d 0 s img = Cont (Some (img, s))"
| "load_rows scale max_val d (Suc n) s img =
     (case load_cols scale max_val d (unat (width img)) s img of
        Cont (Some (img', r)) \<Rightarrow> load_rows scale max_val (d + unat (width img)) n r img'
      | r \<Rightarrow> r)"

definition pgm_load :: "allocator \<Rightarrow> (size_t \<Rightarrow> byte \<Rightarrow> byte) \<Rightarrow> string ptr \<Rightarrow> (int \<times> pgm_image ptr) outcome" where
  "pgm_load malloc scale fd =
     (case fd of
        NULL \<Rightarrow> Cont (-1, NULL)
      | Some s \<Rightarrow>
          (case scan_header s of
             None \<Rightarrow> Cont (-1, NULL)
           | Some (w, h, max_val, r) \<Rightarrow>
               (case pgm_create malloc w h of
                  Cont (Some img) \<Rightarrow>
                    (case load_rows scale max_val 0 (unat (height img)) r img of
                       Cont (Some (img', _)) \<Rightarrow> Cont (0, Some img')
                     | Cont None \<Rightarrow> Cont (-1, NULL)
                     | Exit i \<Rightarrow> Exit i
                     | Out_Of_Bounds \<Rightarrow> Out_Of_Bounds)
                | Cont NULL \<Rightarrow> Cont (-1, NULL)
                | Exit i \<Rightarrow> Exit i
                | Out_Of_Bounds \<Rightarrow> Out_Of_Bounds)))"

subsection \<open>What is printed is read back\<close>

lemma le_bytes_byte: "le_bytes 4 (nat (uint b mod 2 ^ 32)) ! 0 = b" for b :: byte
proof -
  have b: "uint b mod 2 ^ 32 = uint b" using uint_bounded [of b] by simp
  have "unat b < 256" using unsigned_less [of b, where ?'a = nat] by simp
  then have "word_of_nat (unat b mod 256) = b" by simp
  moreover have "(4::nat) = Suc 3" by simp
  ultimately show ?thesis unfolding b by (simp only: le_bytes.simps nth_Cons_0 flip: unat_eq_nat_uint)
qed

text \<open>\<open>same_upto img img' d\<close>: the same dimensions and size, and nothing changed before \<open>d\<close>.\<close>

definition same_upto :: "pgm_image \<Rightarrow> pgm_image \<Rightarrow> nat \<Rightarrow> bool" where
  "same_upto img img' d = (width img' = width img \<and> height img' = height img \<and>
     length (pix_data img') = length (pix_data img) \<and> (\<forall>k < d. pix_data img' ! k = pix_data img ! k))"

lemma same_upto_trans: "same_upto a b d \<Longrightarrow> same_upto b c e \<Longrightarrow> d \<le> e \<Longrightarrow> same_upto a c d"
  by (auto simp: same_upto_def)

lemma load_pixel_ok:
  assumes "d + 4 \<le> length (pix_data img)" and "int d < INT_MAX" and "\<And>p. scale m p = p"
  shows "\<exists>img'. load_pixel scale m d (uint b) img = Some img' \<and> same_upto img img' d \<and> pix_data img' ! d = b"
proof -
  define bytes where "bytes = take d (pix_data img) @ le_bytes 4 (nat (uint b mod 2 ^ 32)) @ drop (d + 4) (pix_data img)"
  have l: "length (take d (pix_data img)) = d" using assms(1) by simp
  have "bytes ! (length (take d (pix_data img)) + 0) = le_bytes 4 (nat (uint b mod 2 ^ 32)) ! 0"
    unfolding bytes_def nth_append_length_plus by (simp only: nth_append length_le_bytes) simp
  then have "bytes ! d = b" using le_bytes_byte [of b] l by simp
  moreover have "\<forall>k < d. bytes ! k = pix_data img ! k" using l by (simp add: bytes_def nth_append)
  moreover have "length bytes = length (pix_data img)" using assms(1) by (simp add: bytes_def)
  moreover have "load_pixel scale m d (uint b) img = Some (img\<lparr>pix_data := bytes\<rparr>)"
    unfolding load_pixel_def bytes_def [symmetric] Let_def using assms by (simp add: pix_cell_def)
  ultimately show ?thesis by (simp add: same_upto_def)
qed

lemma skip_none: "dropWhile isspace (print_d i @ s) = print_d i @ s"
proof -
  obtain c t where "print_d i = c # t" "isdigit c \<or> c = CHR ''-''" using print_d_chars [of i] by (cases "print_d i") auto
  then show ?thesis using isdigit_cases by (auto simp: isspace_def)
qed

lemma load_cols_saved:
  assumes "save_cols src d n = Cont s" and "d + n + 3 \<le> length (pix_data img)" and "\<And>p. scale m p = p"
  shows "\<exists>img'. load_cols scale m d n (dropWhile isspace (s @ r)) img = Cont (Some (img', dropWhile isspace r)) \<and>
    same_upto img img' d \<and> (\<forall>k. d \<le> k \<longrightarrow> k < d + n \<longrightarrow> pix_data img' ! k = pix_data src ! k)"
  using assms(1,2)
proof (induction n arbitrary: d s img)
  case 0
  then show ?case by (simp add: same_upto_def)
next
  case (Suc n)
  obtain t where t: "save_cols src (Suc d) n = Cont t" "s = print_d (uint (pix_data src ! d)) @ CHR '' '' # t" "pix_cell src d"
    using Suc.prems(1) by (auto split: if_splits outcome.splits)
  obtain i1 where i1: "load_pixel scale m d (uint (pix_data src ! d)) img = Some i1" "same_upto img i1 d" "pix_data i1 ! d = pix_data src ! d"
    using load_pixel_ok [of d img scale m] Suc.prems(2) t(3) assms(3) by (auto simp: pix_cell_def)
  obtain i2 where i2: "load_cols scale m (Suc d) n (dropWhile isspace (t @ r)) i1 = Cont (Some (i2, dropWhile isspace r))"
    "same_upto i1 i2 (Suc d)" "\<forall>k. Suc d \<le> k \<longrightarrow> k < Suc d + n \<longrightarrow> pix_data i2 ! k = pix_data src ! k"
    using Suc.IH [OF t(1), of i1] Suc.prems(2) i1(2) by (auto simp: same_upto_def)
  have "scan_d (dropWhile isspace (s @ r)) = Some (uint (pix_data src ! d), CHR '' '' # t @ r)"
    using scan_d_byte [of "CHR '' '' # t @ r" "pix_data src ! d"] by (simp add: t(2) skip_none isdigit_def)
  moreover have "pix_data i2 ! k = pix_data src ! k" if "d \<le> k" "k < d + Suc n" for k
    using that i2(2,3) i1(3) by (cases "k = d") (auto simp: same_upto_def)
  moreover have "same_upto img i2 d" using same_upto_trans [OF i1(2) i2(2)] by simp
  ultimately show ?case using i1(1) i2(1) by (intro exI [of _ i2]) simp
qed

lemma load_rows_saved:
  assumes "save_rows src d n = Cont s" and "d + n * unat (width src) + 3 \<le> length (pix_data img)" and "\<And>p. scale m p = p"
    and "width img = width src"
  shows "\<exists>img'. load_rows scale m d n (dropWhile isspace (s @ r)) img = Cont (Some (img', dropWhile isspace r)) \<and>
    same_upto img img' d \<and> (\<forall>k. d \<le> k \<longrightarrow> k < d + n * unat (width src) \<longrightarrow> pix_data img' ! k = pix_data src ! k)"
  using assms(1,2,4)
proof (induction n arbitrary: d s img)
  case 0
  then show ?case by (simp add: same_upto_def)
next
  case (Suc n)
  let ?w = "unat (width src)"
  obtain a b where ab: "save_cols src d ?w = Cont a" "save_rows src (d + ?w) n = Cont b" "s = a @ NL # b"
    using Suc.prems(1) by (auto split: outcome.splits)
  obtain i1 where i1: "load_cols scale m d ?w (dropWhile isspace (a @ (NL # b @ r))) img = Cont (Some (i1, dropWhile isspace (NL # b @ r)))"
    "same_upto img i1 d" "\<forall>k. d \<le> k \<longrightarrow> k < d + ?w \<longrightarrow> pix_data i1 ! k = pix_data src ! k"
    using load_cols_saved [OF ab(1), of img scale m "NL # b @ r"] Suc.prems(2) assms(3) by auto
  obtain i2 where i2: "load_rows scale m (d + ?w) n (dropWhile isspace (b @ r)) i1 = Cont (Some (i2, dropWhile isspace r))"
    "same_upto i1 i2 (d + ?w)" "\<forall>k. d + ?w \<le> k \<longrightarrow> k < d + ?w + n * ?w \<longrightarrow> pix_data i2 ! k = pix_data src ! k"
    using Suc.IH [OF ab(2), of i1] Suc.prems(2,3) i1(2) by (auto simp: same_upto_def algebra_simps)
  have "pix_data i2 ! k = pix_data src ! k" if "d \<le> k" "k < d + Suc n * ?w" for k
    using that i1(3) i2(2,3) by (cases "k < d + ?w") (auto simp: same_upto_def)
  moreover have "same_upto img i2 d" using same_upto_trans [OF i1(2) i2(2)] by simp
  ultimately show ?case using i1(1) i2(1) Suc.prems(3) by (intro exI [of _ i2]) (simp add: ab(3))
qed


text \<open>With less than three bytes behind the pixels the last ones do not fit.\<close>

lemma load_cols_overrun:
  assumes "save_cols src d n = Cont s" and "0 < n" and "length (pix_data img) < d + n + 3" and "\<And>p. scale m p = p"
  shows "load_cols scale m d n (dropWhile isspace (s @ r)) img = Out_Of_Bounds"
  using assms(1-3)
proof (induction n arbitrary: d s img)
  case (Suc n)
  obtain t where t: "save_cols src (Suc d) n = Cont t" "s = print_d (uint (pix_data src ! d)) @ CHR '' '' # t" "pix_cell src d"
    using Suc.prems(1) by (auto split: if_splits outcome.splits)
  have sc: "scan_d (dropWhile isspace (s @ r)) = Some (uint (pix_data src ! d), CHR '' '' # t @ r)"
    using scan_d_byte [of "CHR '' '' # t @ r" "pix_data src ! d"] by (simp add: t(2) skip_none isdigit_def)
  show ?case
  proof (cases "d + 4 \<le> length (pix_data img)")
    case True
    then obtain i1 where "load_pixel scale m d (uint (pix_data src ! d)) img = Some i1" "same_upto img i1 d"
      using load_pixel_ok [of d img scale m] t(3) assms(4) by (auto simp: pix_cell_def)
    moreover have "load_cols scale m (Suc d) n (dropWhile isspace (t @ r)) i1 = Out_Of_Bounds"
      using Suc.IH [OF t(1), of i1] True Suc.prems(3) \<open>same_upto img i1 d\<close> by (simp add: same_upto_def)
    ultimately show ?thesis using sc by simp
  next
    case False
    then show ?thesis using sc by (simp add: load_pixel_def)
  qed
qed simp

lemma load_rows_overrun:
  assumes "save_rows src d n = Cont s" and "0 < n" and "0 < unat (width src)"
    and "length (pix_data img) < d + n * unat (width src) + 3" and "\<And>p. scale m p = p" and "width img = width src"
  shows "load_rows scale m d n (dropWhile isspace (s @ r)) img = Out_Of_Bounds"
  using assms(1,2,4,6)
proof (induction n arbitrary: d s img)
  case (Suc n)
  let ?w = "unat (width src)"
  obtain a b where ab: "save_cols src d ?w = Cont a" "save_rows src (d + ?w) n = Cont b" "s = a @ NL # b"
    using Suc.prems(1) by (auto split: outcome.splits)
  show ?case
  proof (cases "length (pix_data img) < d + ?w + 3")
    case True
    then show ?thesis using load_cols_overrun [OF ab(1) assms(3) True, of scale m "NL # b @ r"] assms(5) Suc.prems(4)
      by (simp add: ab(3))
  next
    case False
    then obtain i1 where i1: "load_cols scale m d ?w (dropWhile isspace (a @ (NL # b @ r))) img = Cont (Some (i1, dropWhile isspace (NL # b @ r)))"
      "same_upto img i1 d"
      using load_cols_saved [OF ab(1), of img scale m "NL # b @ r"] assms(5) by auto
    have "0 < n" using False Suc.prems(3) by (cases n) auto
    then have "load_rows scale m (d + ?w) n (dropWhile isspace (b @ r)) i1 = Out_Of_Bounds"
      using Suc.IH [OF ab(2), of i1] Suc.prems(3,4) i1(2) by (simp add: same_upto_def algebra_simps)
    then show ?thesis using i1(1) Suc.prems(4) by (simp add: ab(3))
  qed
qed simp

text \<open>Writing stays inside the block when there is a byte for every pixel.\<close>

lemma save_cols_ok:
  "d + n \<le> length (pix_data img) \<Longrightarrow> d + n < 2 ^ 31 \<Longrightarrow> \<exists>s. save_cols img d n = Cont s"
proof (induction n arbitrary: d)
  case (Suc n)
  have "pix_cell img d" using Suc.prems by (simp add: pix_cell_def)
  then show ?case using Suc.IH [of "Suc d"] Suc.prems by (auto simp: algebra_simps)
qed simp

lemma save_rows_ok:
  "d + n * unat (width img) \<le> length (pix_data img) \<Longrightarrow> d + n * unat (width img) < 2 ^ 31 \<Longrightarrow>
    \<exists>s. save_rows img d n = Cont s"
proof (induction n arbitrary: d)
  case (Suc n)
  have "\<exists>s. save_cols img d (unat (width img)) = Cont s"
    using Suc.prems by (intro save_cols_ok) (simp_all add: algebra_simps)
  moreover have "\<exists>s. save_rows img (d + unat (width img)) n = Cont s"
    using Suc.prems by (intro Suc.IH) (simp_all add: algebra_simps)
  ultimately show ?case by auto
qed simp

text \<open>An image with room for its pixels, of a size the counters can hold.\<close>

definition pgm_ok :: "pgm_image \<Rightarrow> bool" where
  "pgm_ok img = (unat (height img) * unat (width img) \<le> length (pix_data img) \<and>
     unat (height img) * unat (width img) < 2 ^ 31)"

lemma print_u_255: "print_u 255 = ''255''"
  by code_simp

lemma scan_header_saved:
  "scan_header (''P2'' @ NL # print_u (unat w) @ CHR '' '' # print_u (unat h) @ NL # ''255'' @ NL # s) =
     Some (w, h, 255, dropWhile isspace s)"
proof -
  have 1: "scan_zu (NL # print_u (unat w) @ CHR '' '' # t) = Some (w, CHR '' '' # t)" for t
    using scan_zu_digits [of "[NL]" "CHR '' '' # t" w] by simp
  have 2: "scan_zu (CHR '' '' # print_u (unat h) @ NL # t) = Some (h, NL # t)" for t
    using scan_zu_digits [of "'' ''" "NL # t" h] by simp
  have 3: "scan_zu (NL # ''255'' @ NL # t) = Some (255, NL # t)" for t
    using scan_zu_digits [of "[NL]" "NL # t" 255] by (simp add: print_u_255)
  show ?thesis using 1 2 3 by (simp add: scan_header_def)
qed

text \<open>What is written depends on the pixels of the image only, not on the rest of its block.\<close>

lemma save_cols_cong:
  assumes "\<forall>k. d \<le> k \<and> k < d + n \<longrightarrow> pix_data img' ! k = pix_data img ! k"
    and "d + n \<le> length (pix_data img)" and "d + n \<le> length (pix_data img')"
  shows "save_cols img' d n = save_cols img d n"
  using assms
proof (induction n arbitrary: d)
  case (Suc n)
  have "save_cols img' (Suc d) n = save_cols img (Suc d) n" by (rule Suc.IH) (use Suc.prems in auto)
  moreover have "pix_data img' ! d = pix_data img ! d" using Suc.prems(1) by auto
  ultimately show ?case using Suc.prems(2,3) by (simp add: pix_cell_def split: outcome.split)
qed simp

lemma save_rows_cong:
  assumes "\<forall>k. d \<le> k \<and> k < d + n * unat (width img) \<longrightarrow> pix_data img' ! k = pix_data img ! k"
    and "d + n * unat (width img) \<le> length (pix_data img)" and "d + n * unat (width img) \<le> length (pix_data img')"
    and "width img' = width img"
  shows "save_rows img' d n = save_rows img d n"
  using assms
proof (induction n arbitrary: d)
  case (Suc n)
  have "save_cols img' d (unat (width img)) = save_cols img d (unat (width img))"
    by (rule save_cols_cong) (use Suc.prems in auto)
  moreover have "save_rows img' (d + unat (width img)) n = save_rows img (d + unat (width img)) n"
    by (rule Suc.IH) (use Suc.prems in \<open>auto simp: algebra_simps\<close>)
  ultimately show ?case using Suc.prems(4) by (simp split: outcome.split)
qed simp

lemma pgm_save_cong:
  assumes "width img' = width img" and "height img' = height img"
    and "unat (height img) * unat (width img) \<le> length (pix_data img)"
    and "unat (height img) * unat (width img) \<le> length (pix_data img')"
    and "\<And>k. k < unat (height img) * unat (width img) \<Longrightarrow> pix_data img' ! k = pix_data img ! k"
  shows "pgm_save img' = pgm_save img"
  using save_rows_cong [of 0 "unat (height img)" img img'] assms by (simp add: pgm_save_def split: outcome.split)

lemma pgm_load_saved:
  assumes "pgm_ok img" and "malloc (16 + width img * height img) = Some block"
    and "unat (height img) * unat (width img) + 19 \<le> length block" and "\<And>p. scale 255 p = p"
  shows "\<exists>s img'. pgm_save img = Cont s \<and> pgm_load malloc scale (Some s) = Cont (0, Some img') \<and>
    width img' = width img \<and> height img' = height img \<and> pgm_ok img' \<and>
    (\<forall>k < unat (height img) * unat (width img). pix_data img' ! k = pix_data img ! k)"
proof -
  obtain t where t: "save_rows img 0 (unat (height img)) = Cont t"
    using save_rows_ok [of 0 "unat (height img)" img] assms(1) by (auto simp: pgm_ok_def)
  define i0 where "i0 = \<lparr>width = width img, height = height img, pix_data = drop 16 block\<rparr>"
  have l: "unat (height img) * unat (width img) + 3 \<le> length block - 16" using assms(3) by linarith
  obtain i1 where i1: "load_rows scale 255 0 (unat (height img)) (dropWhile isspace t) i0 = Cont (Some (i1, []))"
    "same_upto i0 i1 0" "\<forall>k. k < unat (height img) * unat (width img) \<longrightarrow> pix_data i1 ! k = pix_data img ! k"
    using load_rows_saved [OF t, of i0 scale 255 "[]"] l assms(4) by (auto simp: i0_def)
  show ?thesis using i1 assms(1-3) scan_header_saved [of "width img" "height img" t]
    by (auto simp: pgm_save_def t pgm_load_def pgm_create_def same_upto_def pgm_ok_def simp flip: i0_def) (auto simp: i0_def pgm_ok_def)
qed

subsection \<open>Properties\<close>

text \<open>
  C30: An image that is written and read again is the same image, when the allocator hands out at
  least three bytes more than asked for: reading the last pixels stores a whole \<open>int\<close> each.
\<close>

theorem pgm_save_load:
  assumes "pgm_ok img" and "malloc (16 + width img * height img) = Some block"
    and "unat (height img) * unat (width img) + 19 \<le> length block" and "\<And>p. scale 255 p = p"
  shows "\<exists>s img'. pgm_save img = Cont s \<and> pgm_load malloc scale (Some s) = Cont (0, Some img') \<and>
    width img' = width img \<and> height img' = height img \<and>
    (\<forall>k < unat (height img) * unat (width img). pix_data img' ! k = pix_data img ! k)"
  using pgm_load_saved [of img malloc block scale] assms by blast

theorem pgm_save_load_witness:
  "let img = \<lparr>width = 2, height = 1, pix_data = [7, 200]\<rparr> in
   \<exists>s img'. pgm_save img = Cont s \<and> pgm_load (\<lambda>n. Some (replicate (unat n + 3) 0)) (\<lambda>m p. p) (Some s) = Cont (0, Some img') \<and>
    width img' = 2 \<and> height img' = 1 \<and> (\<forall>k < 2. pix_data img' ! k = [7, 200] ! k)"
  using pgm_save_load [of "\<lparr>width = 2, height = 1, pix_data = [7, 200]\<rparr>" "\<lambda>n. Some (replicate (unat n + 3) 0)"
    "replicate 21 0" "\<lambda>m p. p"] by (simp add: pgm_ok_def)


text \<open>
  C31: When the allocator hands out exactly the bytes asked for, reading back any image with at
  least one pixel stores outside the block.
\<close>

theorem pgm_load_overrun:
  assumes "pgm_ok img" and "0 < unat (height img)" and "0 < unat (width img)"
    and "malloc (16 + width img * height img) = Some block"
    and "length block = unat (16 + width img * height img)" and "\<And>p. scale 255 p = p"
  shows "\<exists>s. pgm_save img = Cont s \<and> pgm_load malloc scale (Some s) = Out_Of_Bounds"
proof -
  let ?n = "unat (height img) * unat (width img)"
  obtain t where t: "save_rows img 0 (unat (height img)) = Cont t"
    using save_rows_ok [of 0 "unat (height img)" img] assms(1) by (auto simp: pgm_ok_def)
  define i0 where "i0 = \<lparr>width = width img, height = height img, pix_data = drop 16 block\<rparr>"
  have "unat (16 + width img * height img) = 16 + ?n"
    using assms(1) by (simp add: pgm_ok_def unat_word_ariths mult.commute)
  then have l: "length block = 16 + ?n" using assms(5) by simp
  then have "load_rows scale 255 0 (unat (height img)) (dropWhile isspace t) i0 = Out_Of_Bounds"
    using load_rows_overrun [OF t assms(2,3), of i0 scale 255 "[]"] assms(6) by (simp add: i0_def)
  moreover have "height i0 = height img" by (simp add: i0_def)
  ultimately show ?thesis using assms(4) l scan_header_saved [of "width img" "height img" t]
    by (simp add: pgm_save_def t pgm_load_def pgm_create_def flip: i0_def)
qed

theorem pgm_load_overrun_witness:
  "let img = \<lparr>width = 2, height = 1, pix_data = [7, 200]\<rparr> in
   \<exists>s. pgm_save img = Cont s \<and> pgm_load (\<lambda>n. Some (replicate (unat n) 0)) (\<lambda>m p. p) (Some s) = Out_Of_Bounds"
  using pgm_load_overrun [of "\<lparr>width = 2, height = 1, pix_data = [7, 200]\<rparr>" "\<lambda>n. Some (replicate (unat n) 0)"
    "replicate 18 0" "\<lambda>m p. p"] by (simp add: pgm_ok_def)

end
