(* ===== verification/Image_Filter.thy ===== *)
theory Image_Filter
  imports Pgm Transition
begin

text \<open>
  The image filter, \<open>cw08/zad1/src/filter.c\<close> and \<open>main.c\<close>: every thread computes the pixels
  whose number is its own modulo the number of threads, and adds its share to a progress
  counter guarded by a semaphore it only tries to take.

  The floating-point operations are a parameter: \<open>'f\<close> is \<open>float\<close>, \<open>'d\<close> is \<open>double\<close>.
\<close>

record ('f, 'd) float_ops =
  f_zero :: 'd
  f_add :: "'d \<Rightarrow> 'd \<Rightarrow> 'd"
  f_mul :: "byte \<Rightarrow> 'f \<Rightarrow> 'd"
  f_round :: "'d \<Rightarrow> byte"

record 'f filter_t =
  f_size :: size_t
  f_data :: "'f list"

subsection \<open>filter.c\<close>

text \<open>
  The window is centred by subtracting half the size; \<open>ceil\<close> is applied to a quotient of
  integers and does nothing.  Coordinates outside the image are moved to its edge.
\<close>

definition clamp :: "size_t \<Rightarrow> int \<Rightarrow> int" where
  "clamp dim p = min (uint (dim - 1)) (max 0 p)"

definition filter_term :: "('f, 'd) float_ops \<Rightarrow> 'f filter_t \<Rightarrow> pgm_image \<Rightarrow> int \<Rightarrow> int \<Rightarrow> nat \<Rightarrow> nat \<Rightarrow> 'd option" where
  "filter_term ops f from center_x center_y i j =
     (case pgm_get_pixel from (clamp (width from) (center_x + int i)) (clamp (height from) (center_y + int j)) of
        None \<Rightarrow> None
      | Some pix \<Rightarrow>
          (let k = unat (word_of_nat j * f_size f + word_of_nat i) in
           if k < length (f_data f) then Some (f_mul ops pix (f_data f ! k)) else None))"

fun sum_up :: "('d \<Rightarrow> 'd \<Rightarrow> 'd) \<Rightarrow> 'd \<Rightarrow> 'd option list \<Rightarrow> 'd option" where
  "sum_up add acc [] = Some acc"
| "sum_up add acc (None # xs) = None"
| "sum_up add acc (Some x # xs) = sum_up add (add acc x) xs"

definition apply_filter :: "('f, 'd) float_ops \<Rightarrow> 'f filter_t \<Rightarrow> pgm_image \<Rightarrow> int \<Rightarrow> int \<Rightarrow> byte option" where
  "apply_filter ops f from x y =
     (let c = f_size f;
          center_x = x - uint (c div 2);
          center_y = y - uint (c div 2)
      in map_option (f_round ops)
           (sum_up (f_add ops) (f_zero ops)
              (map (\<lambda>i. sum_up (f_add ops) (f_zero ops) (map (filter_term ops f from center_x center_y i) [0..<unat c]))
                 [0..<unat c])))"

subsection \<open>main.c\<close>

text \<open>
  A thread between two steps: computing a pixel, trying the semaphore, adding to the counter,
  posting the semaphore.  \<open>T_Crash\<close> is an access outside an image or the filter.
\<close>

datatype thread_pc = T_Loop | T_Try | T_Add | T_Post | T_Done | T_Crash

record thread =
  t_pc :: thread_pc
  t_pixel :: nat
  t_processed :: nat

record filter_sys =
  out_image :: pgm_image
  pp_sem :: nat
  pixels_processed :: int
  threads :: "thread list"

text \<open>\<open>pixel_count\<close> is a \<open>long\<close>; the coordinates are \<open>int\<close>.\<close>

definition pixel_count :: "pgm_image \<Rightarrow> int" where
  "pixel_count in_image = sint (height in_image * width in_image)"

definition pixel_x :: "pgm_image \<Rightarrow> nat \<Rightarrow> int" where
  "pixel_x in_image pixel = to_int (int (pixel mod unat (width in_image)))"

definition pixel_y :: "pgm_image \<Rightarrow> nat \<Rightarrow> int" where
  "pixel_y in_image pixel = to_int (int (pixel div unat (width in_image)))"

definition process_pixel :: "('f, 'd) float_ops \<Rightarrow> 'f filter_t \<Rightarrow> pgm_image \<Rightarrow> nat \<Rightarrow> pgm_image \<Rightarrow> pgm_image option" where
  "process_pixel ops f in_image pixel out =
     (case apply_filter ops f in_image (pixel_x in_image pixel) (pixel_y in_image pixel) of
        None \<Rightarrow> None
      | Some pix \<Rightarrow> pgm_set_pixel out (pixel_x in_image pixel) (pixel_y in_image pixel) pix)"

definition thread_run :: "('f, 'd) float_ops \<Rightarrow> 'f filter_t \<Rightarrow> pgm_image \<Rightarrow> nat \<Rightarrow> thread \<Rightarrow> filter_sys \<Rightarrow>
    (thread \<times> filter_sys) option" where
  "thread_run ops f in_image cnt t s =
     (case t_pc t of
        T_Loop \<Rightarrow>
          Some (if int (t_pixel t) < pixel_count in_image then
                  (case process_pixel ops f in_image (t_pixel t) (out_image s) of
                     None \<Rightarrow> (t\<lparr>t_pc := T_Crash\<rparr>, s)
                   | Some out \<Rightarrow>
                       (if cnt + 5 < t_processed t + 1
                        then t\<lparr>t_processed := t_processed t + 1, t_pc := T_Try\<rparr>
                        else t\<lparr>t_processed := t_processed t + 1, t_pixel := t_pixel t + cnt\<rparr>,
                        s\<lparr>out_image := out\<rparr>))
                else (t\<lparr>t_pc := T_Done\<rparr>, s))
      | T_Try \<Rightarrow>
          Some (if 0 < pp_sem s then (t\<lparr>t_pc := T_Add\<rparr>, s\<lparr>pp_sem := pp_sem s - 1\<rparr>)
                else (t\<lparr>t_pc := T_Loop, t_pixel := t_pixel t + cnt\<rparr>, s))
      | T_Add \<Rightarrow>
          Some (t\<lparr>t_pc := T_Post, t_processed := 0\<rparr>,
                s\<lparr>pixels_processed := to_int (pixels_processed s + int (t_processed t))\<rparr>)
      | T_Post \<Rightarrow> Some (t\<lparr>t_pc := T_Loop, t_pixel := t_pixel t + cnt\<rparr>, s\<lparr>pp_sem := pp_sem s + 1\<rparr>)
      | T_Done \<Rightarrow> None
      | T_Crash \<Rightarrow> None)"

text \<open>\<open>main\<close> starts the threads on an output image of the same dimensions; then they interleave.\<close>

definition filter_init :: "pgm_image \<Rightarrow> nat \<Rightarrow> filter_sys" where
  "filter_init out cnt =
     \<lparr>out_image = out, pp_sem = 1, pixels_processed = 0,
      threads = map (\<lambda>i. \<lparr>t_pc = T_Loop, t_pixel = i, t_processed = 0\<rparr>) [0..<cnt]\<rparr>"

definition filter_move :: "('f, 'd) float_ops \<Rightarrow> 'f filter_t \<Rightarrow> pgm_image \<Rightarrow> nat \<Rightarrow> nat \<Rightarrow> filter_sys \<Rightarrow> filter_sys option" where
  "filter_move ops f in_image cnt i s =
     (if i < length (threads s) then
        (case thread_run ops f in_image cnt (threads s ! i) s of
           None \<Rightarrow> None
         | Some (t, s') \<Rightarrow> Some (s'\<lparr>threads := (threads s)[i := t]\<rparr>))
      else None)"

inductive filter_step :: "('f, 'd) float_ops \<Rightarrow> 'f filter_t \<Rightarrow> pgm_image \<Rightarrow> nat \<Rightarrow> filter_sys \<Rightarrow> filter_sys \<Rightarrow> bool"
  for ops f in_image cnt where
  move: "filter_move ops f in_image cnt i s = Some s' \<Longrightarrow> filter_step ops f in_image cnt s s'"


subsection \<open>Every access is inside\<close>

definition filter_ok :: "'f filter_t \<Rightarrow> bool" where
  "filter_ok f = (unat (f_size f) * unat (f_size f) \<le> length (f_data f) \<and> unat (f_size f) * unat (f_size f) < 2 ^ 64)"

abbreviation pixels :: "pgm_image \<Rightarrow> nat" where
  "pixels img \<equiv> unat (height img) * unat (width img)"

lemma clamp_range:
  assumes "0 < unat dim"
  shows "0 \<le> clamp dim p \<and> nat (clamp dim p) < unat dim"
proof -
  have "dim \<noteq> 0" using assms by auto
  then have "unat (dim - 1) = unat dim - 1" by (rule unat_minus_one)
  then have "uint (dim - 1) = int (unat dim - 1)" by (simp only: uint_nat)
  then have "clamp dim p = min (int (unat dim - 1)) (max 0 p)" by (simp only: clamp_def)
  moreover have "0 \<le> min (int (n - 1)) (max 0 p) \<and> nat (min (int (n - 1)) (max 0 p)) < n" if "0 < n" for n
    using that by linarith
  ultimately show ?thesis using assms by (simp only:)
qed

lemma pix_index_eq:
  assumes "x < unat (width img)" and "y < unat (height img)" and "pixels img < 2 ^ 64"
  shows "pix_index img (int x) (int y) = y * unat (width img) + x \<and> y * unat (width img) + x < pixels img"
proof -
  have "Suc y * unat (width img) \<le> pixels img" using assms(2) by (intro mult_le_mono1) simp
  then have lt: "y * unat (width img) + x < pixels img" using assms(1) by simp
  have "x < 2 ^ 64" "y < 2 ^ 64" using assms(1,2) unsigned_less [of "width img", where ?'a = nat] unsigned_less [of "height img", where ?'a = nat]
    by simp_all
  then have "unat (to_size_t (int y)) = y" "unat (to_size_t (int x)) = x" by (simp_all add: unat_to_size_t)
  then have "pix_index img (int x) (int y) = (y * unat (width img) + x) mod 2 ^ 64"
    by (simp add: pix_index_def unat_word_ariths mod_add_left_eq)
  then show ?thesis using lt assms(3) by simp
qed

lemma sum_up_some: "(\<forall>x \<in> set xs. x \<noteq> None) \<Longrightarrow> \<exists>r. sum_up add acc xs = Some r"
proof (induction xs arbitrary: acc)
  case (Cons x xs)
  then show ?case by (cases x) auto
qed simp

lemma pgm_get_pixel_clamped:
  assumes "pgm_ok img" and "0 < pixels img"
  shows "pgm_get_pixel img (clamp (width img) x) (clamp (height img) y) \<noteq> None"
proof -
  have w: "0 < unat (width img)" "0 < unat (height img)" using assms(2) by simp_all
  define i j where "i = nat (clamp (width img) x)" and "j = nat (clamp (height img) y)"
  have "clamp (width img) x = int i" "clamp (height img) y = int j" "i < unat (width img)" "j < unat (height img)"
    using clamp_range [OF w(1), of x] clamp_range [OF w(2), of y] by (simp_all add: i_def j_def)
  then show ?thesis using pix_index_eq [of i img j] assms(1) by (simp add: pgm_get_pixel_def pgm_ok_def)
qed

lemma cell_offset:
  fixes c :: size_t
  assumes "unat c * unat c < 2 ^ 64" and "i < unat c" and "j < unat c"
  shows "unat (word_of_nat j * c + word_of_nat i) = j * unat c + i" and "j * unat c + i < unat c * unat c"
proof -
  have "Suc j * unat c \<le> unat c * unat c" using assms(3) by (intro mult_le_mono1) simp
  then show lt: "j * unat c + i < unat c * unat c" using assms(2) by simp
  have "i < 2 ^ 64" "j < 2 ^ 64" using assms(2,3) unsigned_less [of c, where ?'a = nat] by simp_all
  then have "unat (word_of_nat i :: size_t) = i" "unat (word_of_nat j :: size_t) = j" by (simp_all add: unat_of_nat)
  then have "unat (word_of_nat j * c + word_of_nat i) = (j * unat c + i) mod 2 ^ 64"
    by (simp add: unat_word_ariths mod_add_left_eq)
  then show "unat (word_of_nat j * c + word_of_nat i) = j * unat c + i" using lt assms(1) by simp
qed

lemma filter_index:
  assumes "filter_ok f" and "i < unat (f_size f)" and "j < unat (f_size f)"
  shows "unat (word_of_nat j * f_size f + word_of_nat i) < length (f_data f)"
  using cell_offset [OF _ assms(2,3)] assms(1) by (simp add: filter_ok_def)

lemma apply_filter_some:
  assumes "pgm_ok img" and "0 < pixels img" and "filter_ok f"
  shows "apply_filter ops f img x y \<noteq> None"
proof -
  have t: "filter_term ops f img cx cy i j \<noteq> None" if "i < unat (f_size f)" "j < unat (f_size f)" for cx cy i j
    using pgm_get_pixel_clamped [OF assms(1,2)] filter_index [OF assms(3) that]
    by (auto simp: filter_term_def Let_def split: option.splits)
  have c: "sum_up (f_add ops) (f_zero ops) (map (filter_term ops f img cx cy i) [0..<unat (f_size f)]) \<noteq> None"
    if "i < unat (f_size f)" for cx cy i
    using sum_up_some [of "map (filter_term ops f img cx cy i) [0..<unat (f_size f)]" "f_add ops" "f_zero ops"] t [OF that] by auto
  have "\<exists>r. sum_up (f_add ops) (f_zero ops) (map (\<lambda>i. sum_up (f_add ops) (f_zero ops)
      (map (filter_term ops f img cx cy i) [0..<unat (f_size f)])) [0..<unat (f_size f)]) = Some r" for cx cy
    using c by (intro sum_up_some) auto
  then show ?thesis by (auto simp: apply_filter_def Let_def)
qed


subsection \<open>One pixel\<close>

text \<open>The reference: the value of a pixel, computed alone.\<close>

definition filtered :: "('f, 'd) float_ops \<Rightarrow> 'f filter_t \<Rightarrow> pgm_image \<Rightarrow> nat \<Rightarrow> byte" where
  "filtered ops f img p =
     the (apply_filter ops f img (int (p mod unat (width img))) (int (p div unat (width img))))"

text \<open>An output image for an input image.\<close>

definition fits :: "pgm_image \<Rightarrow> pgm_image \<Rightarrow> bool" where
  "fits img out = (width out = width img \<and> height out = height img \<and> pgm_ok out)"

lemma pixel_xy:
  assumes "p < pixels img" and "pgm_ok img"
  shows "pixel_x img p = int (p mod unat (width img)) \<and> pixel_y img p = int (p div unat (width img)) \<and>
    p mod unat (width img) < unat (width img) \<and> p div unat (width img) < unat (height img)"
proof -
  have w: "0 < unat (width img)" using assms(1) by (cases "unat (width img)") auto
  have d: "p div unat (width img) < unat (height img)" using assms(1) by (simp add: less_mult_imp_div_less)
  have "p mod unat (width img) \<le> p" "p div unat (width img) \<le> p" by simp_all
  moreover have "p < 2 ^ 31" using assms by (simp add: pgm_ok_def)
  ultimately have "p mod unat (width img) < 2 ^ 31" "p div unat (width img) < 2 ^ 31" by linarith+
  then show ?thesis using w d by (simp add: pixel_x_def pixel_y_def)
qed

lemma process_pixel_ok:
  assumes "p < pixels img" and "pgm_ok img" and "filter_ok f" and "fits img out"
  shows "process_pixel ops f img p out = Some (out\<lparr>pix_data := (pix_data out)[p := filtered ops f img p]\<rparr>) \<and>
    p < length (pix_data out)"
proof -
  let ?w = "unat (width img)"
  note xy = pixel_xy [OF assms(1,2)]
  have o: "width out = width img" "height out = height img" "pixels img < 2 ^ 64" using assms(2,4) by (auto simp: fits_def pgm_ok_def)
  have "pix_index out (int (p mod ?w)) (int (p div ?w)) = p div ?w * ?w + p mod ?w"
    using pix_index_eq [of "p mod ?w" out "p div ?w"] xy o by simp
  then have i: "pix_index out (int (p mod ?w)) (int (p div ?w)) = p" by simp
  moreover have "p < length (pix_data out)" using assms(1,4) by (auto simp: fits_def pgm_ok_def)
  moreover obtain b where "apply_filter ops f img (int (p mod ?w)) (int (p div ?w)) = Some b"
    using apply_filter_some [of img f ops] assms(1-3) by fastforce
  ultimately show ?thesis using xy by (simp add: process_pixel_def pgm_set_pixel_def filtered_def)
qed

lemma sint_small: "n < 2 ^ 31 \<Longrightarrow> sint (word_of_nat n :: 64 word) = int n"
proof -
  assume "n < 2 ^ 31"
  then have "signed_take_bit 63 (int n) = int n" by (intro signed_take_bit_int_eq_self) simp_all
  moreover have "(word_of_nat n :: 64 word) = word_of_int (int n)" by simp
  ultimately show ?thesis by (simp only: sint_sbintrunc') simp
qed

lemma pixel_count_eq:
  assumes "pgm_ok img"
  shows "pixel_count img = int (pixels img)"
proof -
  have "height img * width img = word_of_nat (pixels img)" by simp
  then show ?thesis unfolding pixel_count_def using sint_small [of "pixels img"] assms by (simp only: pgm_ok_def)
qed

subsection \<open>Invariant\<close>

text \<open>
  Thread \<open>i\<close> has done the pixels of its residue class below \<open>t_upto\<close>; \<open>done_pixels\<close> is what all have done.
\<close>

definition in_count :: "thread \<Rightarrow> bool" where
  "in_count t = (t_pc t \<in> {T_Try, T_Add, T_Post})"

definition t_upto :: "thread \<Rightarrow> nat" where
  "t_upto t = (if in_count t then Suc (t_pixel t) else t_pixel t)"

definition done_pixels :: "pgm_image \<Rightarrow> nat \<Rightarrow> thread list \<Rightarrow> nat set" where
  "done_pixels img cnt ts = {q. q < pixels img \<and> q < t_upto (ts ! (q mod cnt))}"

definition t_holds :: "thread \<Rightarrow> nat" where
  "t_holds t = of_bool (t_pc t \<in> {T_Add, T_Post})"

definition thread_ok :: "pgm_image \<Rightarrow> nat \<Rightarrow> nat \<Rightarrow> thread \<Rightarrow> bool" where
  "thread_ok img cnt i t = (t_pixel t mod cnt = i \<and> t_pc t \<noteq> T_Crash \<and> (in_count t \<longrightarrow> t_pixel t < pixels img) \<and>
     (t_pc t = T_Done \<longrightarrow> pixels img \<le> t_pixel t))"

definition filter_inv :: "('f, 'd) float_ops \<Rightarrow> 'f filter_t \<Rightarrow> pgm_image \<Rightarrow> nat \<Rightarrow> filter_sys \<Rightarrow> bool" where
  "filter_inv ops f img cnt s =
     (length (threads s) = cnt \<and> (\<forall>i < cnt. thread_ok img cnt i (threads s ! i)) \<and> fits img (out_image s) \<and>
      (\<forall>q \<in> done_pixels img cnt (threads s). pix_data (out_image s) ! q = filtered ops f img q) \<and>
      pp_sem s + total t_holds (threads s) = 1 \<and>
      pixels_processed s + int (total t_processed (threads s)) = int (card (done_pixels img cnt (threads s))) \<and>
      0 \<le> pixels_processed s)"

lemma finite_done [simp]: "finite (done_pixels img cnt ts)"
  by (simp add: done_pixels_def)

lemma card_done: "card (done_pixels img cnt ts) \<le> pixels img"
proof -
  have "done_pixels img cnt ts \<subseteq> {..<pixels img}" by (auto simp: done_pixels_def)
  then show ?thesis using card_mono [of "{..<pixels img}"] by simp
qed

lemma same_residue: "0 < c \<Longrightarrow> q mod c = p mod c \<Longrightarrow> q < p + c \<longleftrightarrow> q < Suc p" for c :: nat
proof
  assume "0 < c" and m: "q mod c = p mod c" and l: "q < p + c"
  show "q < Suc p"
  proof (rule ccontr)
    assume "\<not> q < Suc p"
    then have "p < q" by simp
    then have "c dvd q - p" using m mod_eq_dvd_iff_nat [of p q c] by simp
    then have "c \<le> q - p" using \<open>p < q\<close> by (intro dvd_imp_le) auto
    then show False using l \<open>p < q\<close> by linarith
  qed
qed auto

text \<open>What a step of a thread does to the pixels done: nothing, or its own pixel is added.\<close>

lemma done_update:
  assumes "i < cnt" and "length ts = cnt" and "\<And>q. q mod cnt = i \<Longrightarrow> q < t_upto t \<longleftrightarrow> q < t_upto (ts ! i)"
  shows "done_pixels img cnt (ts[i := t]) = done_pixels img cnt ts"
  using assms by (auto simp: done_pixels_def nth_list_update split: if_splits)

lemma done_insert:
  assumes "i < cnt" and "length ts = cnt" and "p < pixels img" and "p mod cnt = i"
    and "\<And>q. q mod cnt = i \<Longrightarrow> q < t_upto t \<longleftrightarrow> q < Suc p" and "t_upto (ts ! i) = p"
  shows "done_pixels img cnt (ts[i := t]) = insert p (done_pixels img cnt ts) \<and> p \<notin> done_pixels img cnt ts"
  using assms by (auto simp: done_pixels_def nth_list_update less_Suc_eq split: if_splits)


text \<open>A step that leaves the image alone.\<close>

lemma filter_inv_update:
  assumes "filter_inv ops f img cnt s" and "i < cnt" and "thread_ok img cnt i t"
    and "\<And>q. q mod cnt = i \<Longrightarrow> q < t_upto t \<longleftrightarrow> q < t_upto (threads s ! i)"
    and "sem' + t_holds t = pp_sem s + t_holds (threads s ! i)"
    and "n + int (t_processed t) = pixels_processed s + int (t_processed (threads s ! i))" and "0 \<le> n"
  shows "filter_inv ops f img cnt (s\<lparr>pp_sem := sem', pixels_processed := n, threads := (threads s)[i := t]\<rparr>)"
proof -
  have l: "length (threads s) = cnt" using assms(1) by (simp add: filter_inv_def)
  have i: "i < length (threads s)" using l assms(2) by simp
  have d: "done_pixels img cnt ((threads s)[i := t]) = done_pixels img cnt (threads s)"
    using done_update [of i cnt "threads s" t] l assms(2,4) by blast
  have "sem' + total t_holds ((threads s)[i := t]) = pp_sem s + total t_holds (threads s)"
    using total_update [OF i, of t_holds t] assms(5) by linarith
  moreover have "n + int (total t_processed ((threads s)[i := t])) = pixels_processed s + int (total t_processed (threads s))"
    using total_update [OF i, of t_processed t] assms(6) by linarith
  moreover have "\<forall>j < cnt. thread_ok img cnt j ((threads s)[i := t] ! j)"
    using assms(1,3) i by (auto simp: filter_inv_def nth_list_update)
  ultimately show ?thesis using assms(1,7) l by (simp add: filter_inv_def d)
qed

text \<open>The step that writes a pixel.\<close>

lemma filter_inv_write:
  assumes "filter_inv ops f img cnt s" and "i < cnt" and "thread_ok img cnt i t" and p: "p = t_pixel (threads s ! i)"
    and "p < pixels img" and "\<And>q. q mod cnt = i \<Longrightarrow> q < t_upto t \<longleftrightarrow> q < Suc p"
    and "t_pc (threads s ! i) = T_Loop" and "t_holds t = 0" and "t_processed t = Suc (t_processed (threads s ! i))"
  shows "filter_inv ops f img cnt
    (s\<lparr>out_image := (out_image s)\<lparr>pix_data := (pix_data (out_image s))[p := filtered ops f img p]\<rparr>, threads := (threads s)[i := t]\<rparr>)"
proof -
  have l: "length (threads s) = cnt" and o: "fits img (out_image s)" using assms(1) by (simp_all add: filter_inv_def)
  have i: "i < length (threads s)" using l assms(2) by simp
  have pl: "p < length (pix_data (out_image s))" using o assms(5) by (auto simp: fits_def pgm_ok_def)
  have "p mod cnt = i" using assms(1,2) p by (auto simp: filter_inv_def thread_ok_def)
  moreover have "t_upto (threads s ! i) = p" using assms(7) p by (simp add: t_upto_def in_count_def)
  ultimately have d: "done_pixels img cnt ((threads s)[i := t]) = insert p (done_pixels img cnt (threads s))"
    "p \<notin> done_pixels img cnt (threads s)"
    using done_insert [OF assms(2) l assms(5)] assms(6) by blast+
  have "total t_holds ((threads s)[i := t]) = total t_holds (threads s)"
    using total_update [OF i, of t_holds t] assms(7,8) by (simp add: t_holds_def)
  moreover have "total t_processed ((threads s)[i := t]) = Suc (total t_processed (threads s))"
    using total_update [OF i, of t_processed t] assms(9) by simp
  moreover have "\<forall>j < cnt. thread_ok img cnt j ((threads s)[i := t] ! j)"
    using assms(1,3) i by (auto simp: filter_inv_def nth_list_update)
  moreover have "(pix_data (out_image s))[p := filtered ops f img p] ! q = filtered ops f img q"
    if "q \<in> insert p (done_pixels img cnt (threads s))" for q
    using that assms(1) pl by (cases "q = p") (auto simp: filter_inv_def)
  ultimately show ?thesis using assms(1) l o d by (simp add: filter_inv_def fits_def pgm_ok_def)
qed


lemma filter_inv_step:
  assumes "filter_inv ops f img cnt s" and "filter_step ops f img cnt s s'"
    and img: "pgm_ok img" "filter_ok f"
  shows "filter_inv ops f img cnt s'"
proof -
  obtain i where "filter_move ops f img cnt i s = Some s'" using assms(2) by (auto elim: filter_step.cases)
  then obtain t' s1 where i: "i < length (threads s)" and run: "thread_run ops f img cnt (threads s ! i) s = Some (t', s1)"
    and s': "s' = s1\<lparr>threads := (threads s)[i := t']\<rparr>"
    by (auto simp: filter_move_def split: if_splits option.splits)
  define t where "t = threads s ! i"
  have cnt: "i < cnt" "0 < cnt" and ok: "thread_ok img cnt i t" and o: "fits img (out_image s)"
    using assms(1) i by (auto simp: filter_inv_def t_def)
  have m: "t_pixel t mod cnt = i" using ok by (simp add: thread_ok_def)
  have up: "q < t_pixel t + cnt \<longleftrightarrow> q < Suc (t_pixel t)" if "q mod cnt = i" for q
    using same_residue [OF cnt(2), of q "t_pixel t"] that m by simp
  note upd = filter_inv_update [OF assms(1) cnt(1), of t'] and wr = filter_inv_write [OF assms(1) cnt(1), of t']
  note fold_t = t_def [symmetric]
  have pc: "pixels_processed s + int (t_processed t) \<le> int (pixels img)" "0 \<le> pixels_processed s"
    using assms(1) total_ge [OF i, of t_processed] card_done [of img cnt "threads s"]
    by (auto simp: filter_inv_def fold_t simp del: of_nat_mult)
  show ?thesis
  proof (cases "t_pc t")
    case T_Loop
    show ?thesis
    proof (cases "t_pixel t < pixels img")
      case True
      then show ?thesis using run T_Loop wr [of "t_pixel t"] process_pixel_ok [OF True img o, of ops] pixel_count_eq [OF img(1)] up m s'
        by (auto simp: thread_run_def fold_t thread_ok_def t_upto_def in_count_def t_holds_def simp del: of_nat_mult split: if_splits)
    next
      case False
      then have "t' = t\<lparr>t_pc := T_Done\<rparr>" "s1 = s"
        using run T_Loop pixel_count_eq [OF img(1)] by (auto simp: thread_run_def fold_t simp del: of_nat_mult)
      then show ?thesis using upd [of "pp_sem s" "pixels_processed s"] T_Loop False m s' pc(2)
        by (simp add: fold_t thread_ok_def t_upto_def in_count_def t_holds_def)
    qed
  next
    case T_Try
    show ?thesis
    proof (cases "0 < pp_sem s")
      case True
      then have "t' = t\<lparr>t_pc := T_Add\<rparr>" "s1 = s\<lparr>pp_sem := pp_sem s - 1\<rparr>" using run T_Try by (auto simp: thread_run_def fold_t)
      then show ?thesis using upd [of "pp_sem s - 1" "pixels_processed s"] T_Try True m s' pc(2) ok
        by (simp add: fold_t thread_ok_def t_upto_def in_count_def t_holds_def)
    next
      case False
      then have "t' = t\<lparr>t_pc := T_Loop, t_pixel := t_pixel t + cnt\<rparr>" "s1 = s" using run T_Try by (auto simp: thread_run_def fold_t)
      then show ?thesis using upd [of "pp_sem s" "pixels_processed s"] T_Try False m s' pc(2) ok up
        by (simp add: fold_t thread_ok_def t_upto_def in_count_def t_holds_def)
    qed
  next
    case T_Add
    have "int (pixels img) \<le> INT_MAX" using img(1) by (simp add: pgm_ok_def del: of_nat_mult)
    then have "to_int (pixels_processed s + int (t_processed t)) = pixels_processed s + int (t_processed t)"
      using pc by (intro to_int_id) linarith+
    then have "t' = t\<lparr>t_pc := T_Post, t_processed := 0\<rparr>" "s1 = s\<lparr>pixels_processed := pixels_processed s + int (t_processed t)\<rparr>"
      using run T_Add by (auto simp: thread_run_def fold_t)
    then show ?thesis using upd [of "pp_sem s" "pixels_processed s + int (t_processed t)"] T_Add m s' pc(2) ok
      by (simp add: fold_t thread_ok_def t_upto_def in_count_def t_holds_def)
  next
    case T_Post
    then have "t' = t\<lparr>t_pc := T_Loop, t_pixel := t_pixel t + cnt\<rparr>" "s1 = s\<lparr>pp_sem := pp_sem s + 1\<rparr>"
      using run by (auto simp: thread_run_def fold_t)
    then show ?thesis using upd [of "pp_sem s + 1" "pixels_processed s"] T_Post m s' pc(2) ok up
      by (simp add: fold_t thread_ok_def t_upto_def in_count_def t_holds_def)
  qed (use run in \<open>auto simp: thread_run_def fold_t\<close>)
qed


lemma done_init:
  assumes "0 < cnt"
  shows "done_pixels img cnt (threads (filter_init out cnt)) = {}"
proof -
  have "t_upto (threads (filter_init out cnt) ! (q mod cnt)) = q mod cnt" for q
    using assms by (simp add: filter_init_def t_upto_def in_count_def)
  then show ?thesis by (auto simp: done_pixels_def not_less)
qed

lemma total_init:
  "total t_holds (threads (filter_init out cnt)) = 0" "total t_processed (threads (filter_init out cnt)) = 0"
  by (simp_all add: filter_init_def total_def comp_def t_holds_def)

lemma filter_inv_init:
  assumes "fits img out" and "0 < cnt"
  shows "filter_inv ops f img cnt (filter_init out cnt)"
proof -
  have "thread_ok img cnt i (threads (filter_init out cnt) ! i)" if "i < cnt" for i
    using that by (simp add: filter_init_def thread_ok_def in_count_def)
  then show ?thesis using assms done_init [of cnt img out] total_init [of out cnt]
    by (simp add: filter_inv_def) (simp add: filter_init_def)
qed

lemma filter_move_none:
  "i < length (threads s) \<Longrightarrow> filter_move ops f img cnt i s = None \<Longrightarrow> t_pc (threads s ! i) \<in> {T_Done, T_Crash}"
  by (cases "t_pc (threads s ! i)") (auto simp: filter_move_def thread_run_def split: option.splits if_splits)

subsection \<open>Every run ends\<close>

fun pc_weight :: "thread_pc \<Rightarrow> nat" where
  "pc_weight T_Loop = 1"
| "pc_weight T_Try = 4"
| "pc_weight T_Add = 3"
| "pc_weight T_Post = 2"
| "pc_weight T_Done = 0"
| "pc_weight T_Crash = 0"

text \<open>The pixels still to be written weigh four steps each.\<close>

definition filter_left :: "pgm_image \<Rightarrow> filter_sys \<Rightarrow> int" where
  "filter_left img s = 4 * (int (pixels img) - (pixels_processed s + int (total t_processed (threads s)))) +
     int (total (\<lambda>t. pc_weight (t_pc t)) (threads s))"

lemma filter_left_step:
  assumes "filter_inv ops f img cnt s" and "filter_step ops f img cnt s s'" and "pgm_ok img" "filter_ok f"
  shows "filter_left img s' < filter_left img s"
proof -
  have inv': "filter_inv ops f img cnt s'" using filter_inv_step assms by blast
  obtain i where "filter_move ops f img cnt i s = Some s'" using assms(2) by (auto elim: filter_step.cases)
  then obtain t' s1 where i: "i < length (threads s)" and run: "thread_run ops f img cnt (threads s ! i) s = Some (t', s1)"
    and s': "s' = s1\<lparr>threads := (threads s)[i := t']\<rparr>"
    by (auto simp: filter_move_def split: if_splits option.splits)
  define t where "t = threads s ! i"
  note fold_t = t_def [symmetric]
  have u: "total t_processed ((threads s)[i := t']) + t_processed t = total t_processed (threads s) + t_processed t'"
    "total (\<lambda>t. pc_weight (t_pc t)) ((threads s)[i := t']) + pc_weight (t_pc t) =
      total (\<lambda>t. pc_weight (t_pc t)) (threads s) + pc_weight (t_pc t')"
    using total_update [OF i] by (simp_all add: fold_t)
  have "pixels_processed s + int (total t_processed (threads s)) \<le> int (pixels img)"
    using assms(1) total_ge [OF i, of t_processed] card_done [of img cnt "threads s"] by (simp add: filter_inv_def del: of_nat_mult)
  moreover have "int (pixels img) \<le> INT_MAX" using assms(3) by (simp add: pgm_ok_def del: of_nat_mult)
  moreover have "t_processed t \<le> total t_processed (threads s)" "0 \<le> pixels_processed s"
    using total_ge [OF i, of t_processed] assms(1) by (auto simp: fold_t filter_inv_def)
  ultimately have ti: "to_int (pixels_processed s + int (t_processed t)) = pixels_processed s + int (t_processed t)"
    by (intro to_int_id) linarith+
  have nc: "t_pc t' \<noteq> T_Crash" using inv' i by (auto simp: s' filter_inv_def thread_ok_def)
  have "pixels_processed s1 + int (t_processed t') \<ge> pixels_processed s + int (t_processed t) \<and>
      4 * (pixels_processed s1 + int (t_processed t')) - int (pc_weight (t_pc t')) >
      4 * (pixels_processed s + int (t_processed t)) - int (pc_weight (t_pc t))"
    using run nc by (cases "t_pc t") (auto simp: thread_run_def fold_t ti split: if_splits option.splits)
  then show ?thesis using u by (simp add: filter_left_def s' del: of_nat_mult)
qed

lemma filter_left_nonneg: "filter_inv ops f img cnt s \<Longrightarrow> 0 \<le> filter_left img s"
  using card_done [of img cnt "threads s"] by (simp add: filter_inv_def filter_left_def del: of_nat_mult)

interpretation filter_run: terminating_system "filter_step ops f img cnt"
  "\<lambda>s. pgm_ok img \<and> filter_ok f \<and> filter_inv ops f img cnt s" "\<lambda>s. nat (filter_left img s)"
  for ops :: "('f, 'd) float_ops" and f img cnt
proof
  fix s s'
  assume inv: "pgm_ok img \<and> filter_ok f \<and> filter_inv ops f img cnt s" and step: "filter_step ops f img cnt s s'"
  then show "pgm_ok img \<and> filter_ok f \<and> filter_inv ops f img cnt s'" using filter_inv_step by blast
  then show "nat (filter_left img s') < nat (filter_left img s)"
    using filter_left_step [of ops f img cnt s s'] filter_left_nonneg [of ops f img cnt s'] inv step by auto
qed

lemma filter_left_init: "filter_left img (filter_init out cnt) = 4 * int (pixels img) + int cnt"
proof -
  have "total (\<lambda>t. pc_weight (t_pc t)) (threads (filter_init out cnt)) = cnt"
    by (simp add: filter_init_def total_def comp_def sum_list_triv)
  then show ?thesis using total_init [of out cnt] by (simp add: filter_left_def) (simp add: filter_init_def)
qed

lemma filter_inv_reachable:
  assumes "(filter_step ops f img cnt)\<^sup>*\<^sup>* (filter_init out cnt) s" and "pgm_ok img" "filter_ok f" "fits img out" "0 < cnt"
  shows "filter_inv ops f img cnt s"
  using filter_run.reachable_inv [OF assms(1)] filter_inv_init [OF assms(4,5)] assms(2,3) by blast

subsection \<open>Properties\<close>

text \<open>A run on an image of one pixel, with integers for the floating-point numbers.\<close>

definition demo_ops :: "(int, int) float_ops" where
  "demo_ops = \<lparr>f_zero = 0, f_add = (+), f_mul = (\<lambda>p f. uint p * f), f_round = word_of_int\<rparr>"

definition demo_filter :: "int filter_t" where
  "demo_filter = \<lparr>f_size = 1, f_data = [2]\<rparr>"

definition demo_in :: pgm_image where
  "demo_in = \<lparr>width = 1, height = 1, pix_data = [7]\<rparr>"

definition demo_out :: pgm_image where
  "demo_out = \<lparr>width = 1, height = 1, pix_data = [0]\<rparr>"

definition demo_end :: filter_sys where
  "demo_end = \<lparr>out_image = demo_out\<lparr>pix_data := [14]\<rparr>, pp_sem = 1, pixels_processed = 0,
     threads = [\<lparr>t_pc = T_Done, t_pixel = 1, t_processed = 1\<rparr>]\<rparr>"

lemmas demo_filter_defs = demo_ops_def demo_filter_def demo_in_def demo_out_def demo_end_def

lemma demo_ok: "pgm_ok demo_in" "filter_ok demo_filter" "fits demo_in demo_out"
  by (simp_all add: demo_filter_defs pgm_ok_def filter_ok_def fits_def)

lemma demo_run: "filter_move demo_ops demo_filter demo_in 1 0 (filter_init demo_out 1) =
    Some (demo_end\<lparr>threads := [\<lparr>t_pc = T_Loop, t_pixel = 1, t_processed = 1\<rparr>]\<rparr>)"
  by (simp add: demo_filter_defs filter_move_def filter_init_def thread_run_def pixel_count_def process_pixel_def
      apply_filter_def filter_term_def pgm_get_pixel_def pgm_set_pixel_def pix_index_def pixel_x_def pixel_y_def clamp_def to_size_t_def)

lemma demo_run_end: "filter_move demo_ops demo_filter demo_in 1 0 (demo_end\<lparr>threads := [\<lparr>t_pc = T_Loop, t_pixel = 1, t_processed = 1\<rparr>]\<rparr>) =
    Some demo_end"
  by (simp add: demo_filter_defs filter_move_def thread_run_def pixel_count_def)

lemma demo_reachable: "(filter_step demo_ops demo_filter demo_in 1 ^^ 2) (filter_init demo_out 1) demo_end"
  using filter_step.move [OF demo_run] filter_step.move [OF demo_run_end] by (auto simp: numeral_2_eq_2)

lemma demo_stuck: "\<not> filter_step demo_ops demo_filter demo_in 1 demo_end s"
proof
  assume "filter_step demo_ops demo_filter demo_in 1 demo_end s"
  then obtain i where "filter_move demo_ops demo_filter demo_in 1 i demo_end = Some s" by (auto elim: filter_step.cases)
  then show False by (cases i) (simp_all add: filter_move_def demo_end_def thread_run_def)
qed

text \<open>
  However the threads interleave, when none of them can move every pixel of the output image
  is the filter applied to the input at that pixel, as a single thread would compute it.
\<close>

theorem filter_threads_correct:
  assumes "pgm_ok img" and "filter_ok f" and "fits img out" and "0 < cnt"
    and "(filter_step ops f img cnt)\<^sup>*\<^sup>* (filter_init out cnt) s" and "\<forall>s'. \<not> filter_step ops f img cnt s s'"
  shows "(\<forall>t \<in> set (threads s). t_pc t = T_Done) \<and>
    (\<forall>p < pixels img. Some (pix_data (out_image s) ! p) =
       apply_filter ops f img (int (p mod unat (width img))) (int (p div unat (width img))))"
proof -
  have inv: "filter_inv ops f img cnt s" using filter_inv_reachable assms by blast
  have pc: "t_pc (threads s ! i) = T_Done" if i: "i < cnt" for i
  proof -
    have "filter_move ops f img cnt i s = None" using assms(6) filter_step.move by (metis not_Some_eq)
    moreover have "i < length (threads s)" "t_pc (threads s ! i) \<noteq> T_Crash" using inv i by (auto simp: filter_inv_def thread_ok_def)
    ultimately show ?thesis using filter_move_none by blast
  qed
  have "p \<in> done_pixels img cnt (threads s)" if "p < pixels img" for p
  proof -
    have "p mod cnt < cnt" using assms(4) by simp
    then have "pixels img \<le> t_pixel (threads s ! (p mod cnt))" using inv pc by (auto simp: filter_inv_def thread_ok_def)
    then show ?thesis using that pc \<open>p mod cnt < cnt\<close> by (simp add: done_pixels_def t_upto_def in_count_def)
  qed
  then have "pix_data (out_image s) ! p = filtered ops f img p" if "p < pixels img" for p
    using inv that by (auto simp: filter_inv_def)
  moreover have "Some (filtered ops f img p) = apply_filter ops f img (int (p mod unat (width img))) (int (p div unat (width img)))"
    if "p < pixels img" for p
  proof -
    have "0 < pixels img" using that by linarith
    then show ?thesis using apply_filter_some [OF assms(1) _ assms(2), of ops] by (simp only: filtered_def option.collapse not_False_eq_True)
  qed
  moreover have "\<forall>t \<in> set (threads s). t_pc t = T_Done" using pc inv by (auto simp: filter_inv_def in_set_conv_nth)
  ultimately show ?thesis by simp
qed

theorem filter_threads_correct_witness:
  "(filter_step demo_ops demo_filter demo_in 1)\<^sup>*\<^sup>* (filter_init demo_out 1) demo_end \<and>
   Some (pix_data (out_image demo_end) ! 0) = apply_filter demo_ops demo_filter demo_in 0 0"
proof -
  have "(filter_step demo_ops demo_filter demo_in 1)\<^sup>*\<^sup>* (filter_init demo_out 1) demo_end"
    using demo_reachable by (rule relpowp_imp_rtranclp)
  then show ?thesis using filter_threads_correct [OF demo_ok, of 1 demo_ops demo_end] demo_stuck
    by (simp add: demo_in_def)
qed

text \<open>
  The threads always end: a run has at most four steps for every pixel and one for every thread,
  and every run goes on to a state in which no thread can move.
\<close>

theorem filter_terminates:
  assumes "pgm_ok img" and "filter_ok f" and "fits img out" and "0 < cnt"
    and "(filter_step ops f img cnt ^^ n) (filter_init out cnt) s"
  shows "n \<le> 4 * pixels img + cnt \<and> (\<exists>t. (filter_step ops f img cnt)\<^sup>*\<^sup>* s t \<and> (\<forall>u. \<not> filter_step ops f img cnt t u))"
proof -
  have inv: "pgm_ok img \<and> filter_ok f \<and> filter_inv ops f img cnt (filter_init out cnt)"
    using filter_inv_init [OF assms(3,4)] assms(1,2) by blast
  have "n \<le> nat (4 * int (pixels img) + int cnt)"
    using filter_run.run_bound [OF inv assms(5)] by (simp add: filter_left_init del: of_nat_mult)
  moreover have "n \<le> 4 * N + cnt" if "n \<le> nat (4 * int N + int cnt)" for N using that by linarith
  ultimately show ?thesis using filter_run.reaches_end [OF filter_run.relpow_inv [OF assms(5) inv]] by blast
qed

theorem filter_terminates_witness:
  "(filter_step demo_ops demo_filter demo_in 1 ^^ 2) (filter_init demo_out 1) demo_end \<and> (2::nat) \<le> 4 * pixels demo_in + 1"
  using demo_reachable filter_terminates [OF demo_ok _ demo_reachable] by simp

text \<open>
  The progress counter never exceeds the number of pixels, at most one thread is between
  taking and posting the semaphore, and no thread leaves an image or the filter.
\<close>

theorem filter_progress:
  assumes "pgm_ok img" and "filter_ok f" and "fits img out" and "0 < cnt"
    and "(filter_step ops f img cnt)\<^sup>*\<^sup>* (filter_init out cnt) s"
  shows "0 \<le> pixels_processed s \<and> pixels_processed s \<le> int (pixels img) \<and> total t_holds (threads s) \<le> 1 \<and>
    (\<forall>t \<in> set (threads s). t_pc t \<noteq> T_Crash)"
  using filter_inv_reachable [OF assms(5,1-4)] card_done [of img cnt "threads s"]
  by (auto simp: filter_inv_def thread_ok_def in_set_conv_nth simp del: of_nat_mult)

theorem filter_progress_witness:
  "(filter_step demo_ops demo_filter demo_in 1)\<^sup>*\<^sup>* (filter_init demo_out 1) demo_end \<and> pixels_processed demo_end \<le> int (pixels demo_in)"
proof -
  have "(filter_step demo_ops demo_filter demo_in 1)\<^sup>*\<^sup>* (filter_init demo_out 1) demo_end"
    using demo_reachable by (rule relpowp_imp_rtranclp)
  then show ?thesis using filter_progress [OF demo_ok zero_less_one, of demo_ops demo_end] by blast
qed

end
