(* ===== verification/Filter_Main.thy ===== *)
theory Filter_Main
  imports Image_Filter
begin

text \<open>
  Filter files and the main program of the image filter, \<open>cw08/zad1/src/filter.c\<close> and \<open>main.c\<close>:
  reading and writing a filter, generating a random one, and the whole run from the command line to
  the file that is written.

  Printing and reading a floating-point number, the random numbers and the allocator are parameters.
  The allocator of filters gives the numbers that fit behind the header of a block of a size.
\<close>

record 'f float_text =
  f_print :: "'f \<Rightarrow> string"
  f_scan :: "string \<Rightarrow> ('f \<times> string) option"

text \<open>
  \<open>r_val s n\<close> is the \<open>n\<close>-th random number, scaled for a filter of size \<open>s\<close>; \<open>r_sum\<close> adds it to a
  \<open>double\<close>, and \<open>r_div\<close> divides by one.
\<close>

record ('f, 'd) random_ops =
  r_val :: "size_t \<Rightarrow> nat \<Rightarrow> 'f"
  r_zero :: 'd
  r_sum :: "'d \<Rightarrow> 'f \<Rightarrow> 'd"
  r_div :: "'f \<Rightarrow> 'd \<Rightarrow> 'f"

type_synonym 'f float_allocator = "size_t \<Rightarrow> 'f list ptr"

subsection \<open>filter.c\<close>

definition create_filter :: "'f float_allocator \<Rightarrow> int \<Rightarrow> 'f filter_t ptr" where
  "create_filter malloc n =
     (case malloc (8 + 4 * to_size_t n * to_size_t n) of
        NULL \<Rightarrow> NULL
      | Some d \<Rightarrow> Some \<lparr>f_size = to_size_t n, f_data = d\<rparr>)"

text \<open>The loops visit the cells column by column; the random numbers come in that order.\<close>

definition cell_index :: "size_t \<Rightarrow> nat \<Rightarrow> nat \<Rightarrow> nat" where
  "cell_index s i j = unat (word_of_nat j * s + word_of_nat i)"

definition cells :: "size_t \<Rightarrow> nat list" where
  "cells s = map (\<lambda>(i, j). cell_index s i j) (List.product [0..<unat s] [0..<unat s])"

fun fill_cells :: "('f, 'd) random_ops \<Rightarrow> size_t \<Rightarrow> nat \<Rightarrow> nat list \<Rightarrow> 'f list \<Rightarrow> 'd \<Rightarrow> ('f list \<times> 'd) option" where
  "fill_cells ops s n [] data sm = Some (data, sm)"
| "fill_cells ops s n (k # ks) data sm =
     (if k < length data then fill_cells ops s (Suc n) ks (data[k := r_val ops s n]) (r_sum ops sm (r_val ops s n)) else None)"

fun divide_cells :: "('f, 'd) random_ops \<Rightarrow> nat list \<Rightarrow> 'd \<Rightarrow> 'f list \<Rightarrow> 'f list option" where
  "divide_cells ops [] sm data = Some data"
| "divide_cells ops (k # ks) sm data =
     (if k < length data then divide_cells ops ks sm (data[k := r_div ops (data ! k) sm]) else None)"

text \<open>\<open>None\<close> is an access outside the block.\<close>

definition random_filter :: "('f, 'd) random_ops \<Rightarrow> 'f filter_t \<Rightarrow> 'f filter_t option" where
  "random_filter ops f =
     (case fill_cells ops (f_size f) 0 (cells (f_size f)) (f_data f) (r_zero ops) of
        None \<Rightarrow> None
      | Some (data, sm) \<Rightarrow> map_option (\<lambda>d. f\<lparr>f_data := d\<rparr>) (divide_cells ops (cells (f_size f)) sm data))"

text \<open>
  A filter file: the size and the numbers.  The counter is an \<open>int\<close>; running past \<open>INT_MAX\<close> counts as
  leaving the block.
\<close>

fun write_cells :: "'f float_text \<Rightarrow> 'f list \<Rightarrow> nat \<Rightarrow> nat \<Rightarrow> string outcome" where
  "write_cells io data d 0 = Cont []"
| "write_cells io data d (Suc n) =
     (if d < length data \<and> int d < INT_MAX then
        (case write_cells io data (Suc d) n of
           Cont t \<Rightarrow> Cont (f_print io (data ! d) @ CHR '' '' # t) | Exit i \<Rightarrow> Exit i | Out_Of_Bounds \<Rightarrow> Out_Of_Bounds)
      else Out_Of_Bounds)"

definition write_filter :: "'f float_text \<Rightarrow> 'f filter_t \<Rightarrow> string outcome" where
  "write_filter io f =
     (case write_cells io (f_data f) 0 (unat (f_size f * f_size f)) of
        Cont t \<Rightarrow> Cont (print_u (unat (f_size f)) @ NL # t) | Exit i \<Rightarrow> Exit i | Out_Of_Bounds \<Rightarrow> Out_Of_Bounds)"

fun read_cells :: "'f float_text \<Rightarrow> nat \<Rightarrow> nat \<Rightarrow> string \<Rightarrow> 'f list \<Rightarrow> 'f list option outcome" where
  "read_cells io d 0 t data = Cont (Some data)"
| "read_cells io d (Suc n) t data =
     (case f_scan io (dropWhile isspace t) of
        None \<Rightarrow> Cont None
      | Some (v, r) \<Rightarrow>
          if d < length data \<and> int d < INT_MAX
          then read_cells io (Suc d) n (dropWhile isspace r) (data[d := v]) else Out_Of_Bounds)"

definition read_filter :: "'f float_text \<Rightarrow> 'f float_allocator \<Rightarrow> string ptr \<Rightarrow> (int \<times> 'f filter_t ptr) outcome" where
  "read_filter io malloc fd =
     (case fd of
        NULL \<Rightarrow> Cont (-1, NULL)
      | Some t \<Rightarrow>
          (case scan_zu t of
             None \<Rightarrow> Cont (-1, NULL)
           | Some (s, r) \<Rightarrow>
               (case create_filter malloc (to_int (uint s)) of
                  NULL \<Rightarrow> Cont (-1, NULL)
                | Some f \<Rightarrow>
                    (case read_cells io 0 (unat (s * s)) (dropWhile isspace r) (f_data f) of
                       Cont (Some d) \<Rightarrow> Cont (0, Some (f\<lparr>f_data := d\<rparr>))
                     | Cont None \<Rightarrow> Cont (-1, NULL)
                     | Exit i \<Rightarrow> Exit i
                     | Out_Of_Bounds \<Rightarrow> Out_Of_Bounds))))"

subsection \<open>main.c\<close>

text \<open>
  \<open>main\<close> returns, possibly after writing a file, or starts the threads; \<open>Crashed\<close> is an access
  outside a block, or through the null pointer a failed \<open>create_filter\<close> gives.
\<close>

datatype 'f main_result =
    Returned int "(string \<times> string) list"
  | Started "'f filter_t" pgm_image nat filter_sys
  | Crashed

definition main_gen :: "'f float_text \<Rightarrow> ('f, 'd) random_ops \<Rightarrow> 'f float_allocator \<Rightarrow> string \<Rightarrow> string \<Rightarrow> 'f main_result" where
  "main_gen io rnd fmalloc n out =
     (case create_filter fmalloc (atoi n) of
        NULL \<Rightarrow> Crashed
      | Some f \<Rightarrow>
          (case random_filter rnd f of
             None \<Rightarrow> Crashed
           | Some g \<Rightarrow> (case write_filter io g of Cont t \<Rightarrow> Returned 0 [(out, t)] | _ \<Rightarrow> Crashed)))"

definition main_run :: "'f float_text \<Rightarrow> 'f float_allocator \<Rightarrow> allocator \<Rightarrow> (size_t \<Rightarrow> byte \<Rightarrow> byte) \<Rightarrow>
    (string \<Rightarrow> string ptr) \<Rightarrow> int \<Rightarrow> string \<Rightarrow> string \<Rightarrow> 'f main_result" where
  "main_run io fmalloc malloc scale fs thread_count input flt =
     (if thread_count \<le> 0 then Returned 1 []
      else
        case read_filter io fmalloc (fs flt) of
          Cont (r, Some f) \<Rightarrow>
            (case pgm_load malloc scale (fs input) of
               Cont (q, Some in_image) \<Rightarrow>
                 (case pgm_create malloc (width in_image) (height in_image) of
                    Cont (Some out) \<Rightarrow> Started f in_image (nat thread_count) (filter_init out (nat thread_count))
                  | Cont NULL \<Rightarrow> Returned 1 []
                  | _ \<Rightarrow> Crashed)
             | Cont (q, NULL) \<Rightarrow> Returned 1 []
             | _ \<Rightarrow> Crashed)
        | Cont (r, NULL) \<Rightarrow> Returned 1 []
        | _ \<Rightarrow> Crashed)"

definition filter_main :: "'f float_text \<Rightarrow> ('f, 'd) random_ops \<Rightarrow> 'f float_allocator \<Rightarrow> allocator \<Rightarrow>
    (size_t \<Rightarrow> byte \<Rightarrow> byte) \<Rightarrow> (string \<Rightarrow> string ptr) \<Rightarrow> string list \<Rightarrow> 'f main_result" where
  "filter_main io rnd fmalloc malloc scale fs argv =
     (case argv of
        [_, a1, a2, a3] \<Rightarrow> if a1 = ''gen'' then main_gen io rnd fmalloc a2 a3 else Returned 1 []
      | [_, a1, a2, a3, a4] \<Rightarrow> if a1 = ''gen'' then Returned 1 [] else main_run io fmalloc malloc scale fs (atoi a1) a2 a3
      | _ \<Rightarrow> Returned 1 [])"

text \<open>Once the threads have been joined the output image is saved.\<close>

definition main_finish :: "string \<Rightarrow> filter_sys \<Rightarrow> 'f main_result" where
  "main_finish output s = (case pgm_save (out_image s) of Cont t \<Rightarrow> Returned 0 [(output, t)] | _ \<Rightarrow> Crashed)"

subsection \<open>Filter files\<close>

text \<open>
  What \<open>%f\<close> prints is read back as the number rounded to the decimals printed, up to the space
  behind it.
\<close>

definition reads_back :: "'f float_text \<Rightarrow> ('f \<Rightarrow> 'f) \<Rightarrow> bool" where
  "reads_back io rnd \<longleftrightarrow>
     (\<forall>x r. f_scan io (dropWhile isspace (f_print io x @ CHR '' '' # r)) = Some (rnd x, CHR '' '' # r))"

lemma dropWhile_idem [simp]: "dropWhile P (dropWhile P xs) = dropWhile P xs"
  by (induction xs) auto

lemma write_cells_ok: "d + n \<le> length src \<Longrightarrow> d + n < 2 ^ 31 \<Longrightarrow> \<exists>t. write_cells io src d n = Cont t"
proof (induction n arbitrary: d)
  case (Suc n)
  then have "d < length src" "int d < INT_MAX" by simp_all
  then show ?case using Suc.IH [of "Suc d"] Suc.prems by auto
qed simp

lemma read_cells_written:
  assumes "reads_back io rnd" and "write_cells io src d n = Cont t" and "d + n \<le> length data"
  shows "\<exists>data'. read_cells io d n (dropWhile isspace t) data = Cont (Some data') \<and> length data' = length data \<and>
    (\<forall>k. data' ! k = (if d \<le> k \<and> k < d + n then rnd (src ! k) else data ! k))"
  using assms(2,3)
proof (induction n arbitrary: d t data)
  case (Suc n)
  obtain u where u: "write_cells io src (Suc d) n = Cont u" and d: "d < length src" "int d < INT_MAX"
    and t: "t = f_print io (src ! d) @ CHR '' '' # u"
    using Suc.prems(1) by (auto split: if_splits outcome.splits)
  have "isspace (CHR '' '')" by (simp add: isspace_chars)
  moreover have "f_scan io (dropWhile isspace t) = Some (rnd (src ! d), CHR '' '' # u)"
    using assms(1) by (simp add: reads_back_def t)
  moreover obtain data' where "read_cells io (Suc d) n (dropWhile isspace u) (data[d := rnd (src ! d)]) = Cont (Some data')"
    "length data' = length data" "\<forall>k. data' ! k = (if Suc d \<le> k \<and> k < Suc d + n then rnd (src ! k) else data[d := rnd (src ! d)] ! k)"
    using Suc.IH [OF u, of "data[d := rnd (src ! d)]"] Suc.prems(2) by auto
  ultimately show ?case using d(2) Suc.prems(2) by (auto simp: nth_list_update)
qed auto

text \<open>Sizes that fit an \<open>int\<close>, as \<open>create_filter\<close> takes them, and whose square does.\<close>

definition small_filter :: "'f filter_t \<Rightarrow> bool" where
  "small_filter f \<longleftrightarrow> unat (f_size f) * unat (f_size f) < 2 ^ 31 \<and> unat (f_size f) * unat (f_size f) \<le> length (f_data f)"

lemma small_filter_size:
  assumes "small_filter f"
  shows "unat (f_size f * f_size f) = unat (f_size f) * unat (f_size f)" and "to_size_t (to_int (uint (f_size f))) = f_size f"
    and "filter_ok f"
proof -
  let ?n = "unat (f_size f)"
  have n: "?n * ?n < 2 ^ 31" using assms by (simp add: small_filter_def)
  then show "unat (f_size f * f_size f) = ?n * ?n" by (simp add: unat_word_ariths)
  have "m < 2 ^ 31" if "m * m < 2 ^ 31" for m :: nat using that by (cases m) auto
  then have "?n < 2 ^ 31" using n .
  moreover have "to_int (int m) = int m" if "m < 2 ^ 31" for m using that by (intro to_int_id) auto
  ultimately have "to_int (int ?n) = int ?n" by blast
  then show "to_size_t (to_int (uint (f_size f))) = f_size f" by (simp add: to_size_t_def)
  show "filter_ok f" using n assms by (simp add: filter_ok_def small_filter_def)
qed

lemma filter_file:
  assumes "small_filter f" and "reads_back io rnd" and "fmalloc (8 + 4 * f_size f * f_size f) = Some d"
    and "unat (f_size f) * unat (f_size f) \<le> length d"
  shows "\<exists>t g. write_filter io f = Cont t \<and> read_filter io fmalloc (Some t) = Cont (0, Some g) \<and>
    f_size g = f_size f \<and> length (f_data g) = length d \<and>
    (\<forall>k < unat (f_size f) * unat (f_size f). f_data g ! k = rnd (f_data f ! k))"
proof -
  let ?n = "unat (f_size f) * unat (f_size f)"
  note S = small_filter_size [OF assms(1)]
  obtain u where u: "write_cells io (f_data f) 0 ?n = Cont u"
    using write_cells_ok [of 0 ?n "f_data f" io] assms(1) by (auto simp: small_filter_def)
  obtain e where e: "read_cells io 0 ?n (dropWhile isspace u) d = Cont (Some e)" "length e = length d"
      "\<forall>k. e ! k = (if k < ?n then rnd (f_data f ! k) else d ! k)"
    using read_cells_written [OF assms(2) u, of d] assms(4) by auto
  have "scan_zu (print_u (unat (f_size f)) @ NL # u) = Some (f_size f, NL # u)"
    using scan_zu_digits [of "[]" "NL # u" "f_size f"] by simp
  moreover have "isspace NL" by (simp add: isspace_chars)
  ultimately have "read_filter io fmalloc (Some (print_u (unat (f_size f)) @ NL # u)) =
      Cont (0, Some \<lparr>f_size = f_size f, f_data = e\<rparr>)"
    using e(1) assms(3) S by (simp add: read_filter_def create_filter_def)
  moreover have "write_filter io f = Cont (print_u (unat (f_size f)) @ NL # u)" using u S by (simp add: write_filter_def)
  ultimately show ?thesis using e(2,3) by (intro exI [of _ "_ @ _"] exI [of _ "\<lparr>f_size = f_size f, f_data = e\<rparr>"]) simp
qed

subsection \<open>Random filters\<close>

lemma fill_cells_ok:
  assumes "distinct ks" and "\<forall>k \<in> set ks. k < length data"
  shows "\<exists>data'. fill_cells ops s n ks data sm = Some (data', foldl (r_sum ops) sm (map (r_val ops s) [n..<n + length ks])) \<and>
    length data' = length data \<and> (\<forall>m < length ks. data' ! (ks ! m) = r_val ops s (n + m)) \<and>
    (\<forall>k. k \<notin> set ks \<longrightarrow> data' ! k = data ! k)"
  using assms
proof (induction ks arbitrary: n data sm)
  case (Cons k ks)
  let ?d = "data[k := r_val ops s n]"
  obtain e where e: "fill_cells ops s (Suc n) ks ?d (r_sum ops sm (r_val ops s n)) =
      Some (e, foldl (r_sum ops) (r_sum ops sm (r_val ops s n)) (map (r_val ops s) [Suc n..<Suc n + length ks]))"
    "length e = length data" "\<forall>m < length ks. e ! (ks ! m) = r_val ops s (Suc n + m)" "\<forall>k'. k' \<notin> set ks \<longrightarrow> e ! k' = ?d ! k'"
    using Cons.IH [of ?d "Suc n" "r_sum ops sm (r_val ops s n)"] Cons.prems by auto
  have "e ! ((k # ks) ! m) = r_val ops s (n + m)" if "m < length (k # ks)" for m
    using that e(3,4) Cons.prems by (cases m) auto
  moreover have "[n..<n + length (k # ks)] = n # [Suc n..<Suc n + length ks]" by (simp add: upt_conv_Cons del: upt_Suc)
  ultimately show ?case using e Cons.prems by (auto simp: nth_list_update)
qed simp

lemma divide_cells_ok:
  assumes "distinct ks" and "\<forall>k \<in> set ks. k < length data"
  shows "\<exists>data'. divide_cells ops ks sm data = Some data' \<and> length data' = length data \<and>
    (\<forall>k. data' ! k = (if k \<in> set ks then r_div ops (data ! k) sm else data ! k))"
  using assms
proof (induction ks arbitrary: data)
  case (Cons k ks)
  let ?d = "data[k := r_div ops (data ! k) sm]"
  obtain e where "divide_cells ops ks sm ?d = Some e" "length e = length data"
    "\<forall>k'. e ! k' = (if k' \<in> set ks then r_div ops (?d ! k') sm else ?d ! k')"
    using Cons.IH [of ?d] Cons.prems by auto
  then show ?case using Cons.prems by (auto simp: nth_list_update)
qed simp

lemma cells_distinct:
  assumes "unat s * unat s < 2 ^ 64"
  shows "distinct (cells s)"
proof -
  let ?n = "unat s"
  have "inj_on (\<lambda>(i, j). cell_index s i j) ({0..<?n} \<times> {0..<?n})"
  proof (rule inj_onI, clarify)
    fix i j i' j'
    assume ij: "i \<in> {0..<?n}" "j \<in> {0..<?n}" "i' \<in> {0..<?n}" "j' \<in> {0..<?n}" and "cell_index s i j = cell_index s i' j'"
    then have e: "j * ?n + i = j' * ?n + i'" using cell_offset(1) [OF assms] by (simp add: cell_index_def)
    have "(j * ?n + i) mod ?n = i" "(j' * ?n + i') mod ?n = i'" "(j * ?n + i) div ?n = j" "(j' * ?n + i') div ?n = j'"
      using ij by simp_all
    then show "i = i' \<and> j = j'" using e by metis
  qed
  then show ?thesis by (simp add: cells_def distinct_map distinct_product)
qed

lemma cell_product:
  assumes "i < n" and "j < m"
  shows "List.product [0..<n] [0..<m] ! (i * m + j) = (i, j)" and "i * m + j < length (List.product [0..<n] [0..<m])"
proof -
  have "Suc i * m \<le> n * m" using assms(1) by (intro mult_le_mono1) simp
  then show lt: "i * m + j < length (List.product [0..<n] [0..<m])" using assms(2) by simp
  show "List.product [0..<n] [0..<m] ! (i * m + j) = (i, j)"
    using product_nth [of "i * m + j" "[0..<n]" "[0..<m]"] lt assms by simp
qed

text \<open>
  A random filter: cell (\<open>i\<close>, \<open>j\<close>) gets its random number divided by the sum of all of them, whatever
  was in the block before.
\<close>

lemma random_filter_cells:
  fixes ops :: "('f, 'd) random_ops"
  assumes "filter_ok f" and "i < unat (f_size f)" and "j < unat (f_size f)"
  defines "n \<equiv> unat (f_size f)"
  shows "\<exists>g. random_filter ops f = Some g \<and> f_size g = f_size f \<and> length (f_data g) = length (f_data f) \<and>
    f_data g ! (j * n + i) =
      r_div ops (r_val ops (f_size f) (i * n + j)) (foldl (r_sum ops) (r_zero ops) (map (r_val ops (f_size f)) [0..<n * n]))"
proof -
  let ?s = "f_size f" and ?ks = "cells (f_size f)" and ?sum = "foldl (r_sum ops) (r_zero ops) (map (r_val ops (f_size f)) [0..<n * n])"
  have n: "unat ?s * unat ?s < 2 ^ 64" "unat ?s * unat ?s \<le> length (f_data f)" using assms(1) by (simp_all add: filter_ok_def)
  have inside: "\<forall>k \<in> set ?ks. k < length (f_data f)"
    using cell_offset [OF n(1)] n(2) by (fastforce simp: cells_def cell_index_def)
  have len: "length ?ks = n * n" by (simp add: cells_def n_def)
  obtain d1 where d1: "fill_cells ops ?s 0 ?ks (f_data f) (r_zero ops) = Some (d1, ?sum)"
    "length d1 = length (f_data f)" "\<forall>m < length ?ks. d1 ! (?ks ! m) = r_val ops ?s m"
    using fill_cells_ok [OF cells_distinct [OF n(1)] inside, of ops ?s 0 "r_zero ops"] len by auto
  obtain d2 where d2: "divide_cells ops ?ks ?sum d1 = Some d2" "length d2 = length d1"
    "\<forall>k. d2 ! k = (if k \<in> set ?ks then r_div ops (d1 ! k) ?sum else d1 ! k)"
    using divide_cells_ok [OF cells_distinct [OF n(1)], of d1 ops ?sum] inside d1(2) by auto
  note m = cell_product [OF assms(2,3)]
  have at: "?ks ! (i * n + j) = j * n + i"
    using m cell_offset(1) [OF n(1) assms(2,3)] by (simp add: cells_def cell_index_def n_def)
  have lt: "i * n + j < length ?ks" using m(2) by (simp add: cells_def n_def)
  then have "j * n + i \<in> set ?ks" using at by (metis nth_mem)
  then have "d2 ! (j * n + i) = r_div ops (r_val ops ?s (i * n + j)) ?sum" using d1(3) d2(3) lt at by metis
  then show ?thesis using d1 d2 by (simp add: random_filter_def)
qed

subsection \<open>The whole program\<close>

text \<open>What a single pass over the pixels computes.\<close>

definition reference_image :: "('f, 'd) float_ops \<Rightarrow> 'f filter_t \<Rightarrow> pgm_image \<Rightarrow> pgm_image" where
  "reference_image ops f img =
     img\<lparr>pix_data := map (\<lambda>p. the (apply_filter ops f img (int (p mod unat (width img))) (int (p div unat (width img)))))
            [0..<pixels img]\<rparr>"

lemma threads_save_reference:
  assumes "pgm_ok img" and "filter_ok f" and "fits img out" and "0 < cnt"
    and "(filter_step ops f img cnt)\<^sup>*\<^sup>* (filter_init out cnt) s" and "\<forall>s'. \<not> filter_step ops f img cnt s s'"
  shows "pgm_save (out_image s) = pgm_save (reference_image ops f img)"
proof (rule pgm_save_cong)
  have "filter_inv ops f img cnt s" by (rule filter_inv_reachable [OF assms(5,1-4)])
  then have o: "fits img (out_image s)" by (simp add: filter_inv_def)
  then show "width (out_image s) = width (reference_image ops f img)" "height (out_image s) = height (reference_image ops f img)"
    by (simp_all add: fits_def reference_image_def)
  show "unat (height (reference_image ops f img)) * unat (width (reference_image ops f img))
      \<le> length (pix_data (out_image s))" using o by (auto simp: fits_def pgm_ok_def reference_image_def)
  show "pix_data (out_image s) ! k = pix_data (reference_image ops f img) ! k"
    if "k < unat (height (reference_image ops f img)) * unat (width (reference_image ops f img))" for k
  proof -
    have k: "k < pixels img" using that by (simp add: reference_image_def)
    then have "Some (pix_data (out_image s) ! k) =
        apply_filter ops f img (int (k mod unat (width img))) (int (k div unat (width img)))"
      using filter_threads_correct [OF assms] by blast
    then show ?thesis using k by (simp add: reference_image_def) (metis option.sel)
  qed
qed (simp_all add: reference_image_def)


text \<open>A run with bytes for the floating-point numbers.\<close>

definition byte_text :: "byte float_text" where
  "byte_text = \<lparr>f_print = (\<lambda>x. print_d (uint x)), f_scan = (\<lambda>t. map_option (\<lambda>(v, r). (word_of_int v, r)) (scan_d t))\<rparr>"

definition byte_random :: "(byte, int) random_ops" where
  "byte_random = \<lparr>r_val = (\<lambda>s n. word_of_nat n), r_zero = 0, r_sum = (\<lambda>a x. a + uint x), r_div = (\<lambda>x a. x)\<rparr>"

definition byte_ops :: "(byte, int) float_ops" where
  "byte_ops = \<lparr>f_zero = 0, f_add = (+), f_mul = (\<lambda>p f. uint p * uint f), f_round = word_of_int\<rparr>"

definition demo_fs :: "string \<Rightarrow> string ptr" where
  "demo_fs name = (if name = ''f'' then Some (''1'' @ NL # ''2 '')
     else if name = ''a.pgm'' then Some (''P2'' @ NL # ''1 1'' @ NL # ''255'' @ NL # ''7 '' @ [NL]) else NULL)"

lemma byte_reads_back: "reads_back byte_text (\<lambda>x. x)"
proof -
  have "scan_d (dropWhile isspace t) = scan_d t" for t by (simp add: scan_d_def scan_num_def)
  then show ?thesis using scan_d_byte by (simp add: reads_back_def byte_text_def isdigit_def)
qed


end
