(* ===== verification/List_Files.thy ===== *)
theory List_Files
  imports C_Lib "HOL-Library.Product_Lexorder"
begin

text \<open>
  Listing the files of a directory tree by the date of their last change: \<open>cw02/zad2\<close>, which walks
  the tree itself or lets \<open>nftw\<close> do it, and \<open>cw03/zad1\<close>, which starts a process for every entry.

  A directory is the list \<open>readdir\<close> gives, or \<open>None\<close> when it cannot be opened; it does not change
  and can be opened again when it is closed around each entry.  An entry that is
  gone when \<open>lstat\<close> looks for it is \<open>Gone\<close>.  What is printed is a list of lines.  \<open>gmtime\<close> and
  \<open>localtime\<close> are parameters.
\<close>

unbundle bit_operations_syntax

record tm =
  tm_year :: int
  tm_mon :: int
  tm_mday :: int

record date =
  year :: int
  month :: int
  day :: int

datatype cond_t = LT | EQ | GT

record stat =
  st_mode :: "32 word"
  st_mtime :: int
  st_size :: size_t

datatype node =
    Regular stat
  | Symlink stat
  | Special stat
  | Directory stat "dirent list option"
and dirent = Dot | Dotdot | Entry string node | Gone string

record clock =
  gmtime :: "int \<Rightarrow> tm"
  localtime :: "int \<Rightarrow> tm"

subsection \<open>Dates\<close>

definition compare_date :: "tm \<Rightarrow> date \<Rightarrow> int" where
  "compare_date ll d =
     (if tm_year ll > year d - 1900 then 1
      else if tm_year ll < year d - 1900 then -1
      else if tm_mon ll > month d - 1 then 1
      else if tm_mon ll < month d - 1 then -1
      else if tm_mday ll > day d then 1
      else if tm_mday ll < day d then -1
      else 0)"

definition check_time :: "clock \<Rightarrow> int \<Rightarrow> cond_t \<Rightarrow> date \<Rightarrow> int" where
  "check_time clk left cond d =
     (let cmp = compare_date (gmtime clk left) d in
      case cond of
        LT \<Rightarrow> if cmp < 0 then 0 else 1
      | GT \<Rightarrow> if cmp > 0 then 0 else 1
      | EQ \<Rightarrow> if cmp = 0 then 0 else 1)"

subsection \<open>Printing\<close>

text \<open>\<open>%0nd\<close> and \<open>%nd\<close>: the sign comes before the zeros.\<close>

definition pad :: "char \<Rightarrow> nat \<Rightarrow> string \<Rightarrow> string" where
  "pad c n s = replicate (n - length s) c @ s"

definition print_0d :: "nat \<Rightarrow> int \<Rightarrow> string" where
  "print_0d n i = (if i < 0 then CHR ''-'' # pad (CHR ''0'') (n - 1) (print_u (nat (- i))) else pad (CHR ''0'') n (print_u (nat i)))"

definition print_size :: "stat \<Rightarrow> string" where
  "print_size st = pad (CHR '' '') 8 (print_u (unat (st_size st))) @ '' ''"

definition print_last_mod :: "clock \<Rightarrow> stat \<Rightarrow> string" where
  "print_last_mod clk st =
     (let local = localtime clk (st_mtime st) in
      print_0d 4 (tm_year local + 1900) @ ''-'' @ print_0d 2 (tm_mon local + 1) @ ''-'' @ print_0d 2 (tm_mday local) @ '' '')"

definition print_access0 :: "32 word \<Rightarrow> string \<Rightarrow> string" where
  "print_access0 test iftrue = (if test \<noteq> 0 then iftrue else ''-'')"

definition print_access :: "stat \<Rightarrow> string" where
  "print_access st =
     (let mode = st_mode st in
      print_access0 (mode AND 256) ''r'' @ print_access0 (mode AND 128) ''w'' @ print_access0 (mode AND 64) ''x'' @
      print_access0 (mode AND 32) ''r'' @ print_access0 (mode AND 16) ''w'' @ print_access0 (mode AND 8) ''x'' @
      print_access0 (mode AND 4) ''r'' @ print_access0 (mode AND 2) ''w'' @ print_access0 (mode AND 1) ''x'' @ '' '')"

definition file_line :: "clock \<Rightarrow> string \<Rightarrow> stat \<Rightarrow> string" where
  "file_line clk filename st = print_access st @ print_last_mod clk st @ print_size st @ filename @ [NL]"

definition list_regular :: "clock \<Rightarrow> cond_t \<Rightarrow> date \<Rightarrow> string \<Rightarrow> stat \<Rightarrow> string list" where
  "list_regular clk cond d filename st =
     (if check_time clk (st_mtime st) cond d \<noteq> 0 then [] else [file_line clk filename st])"

subsection \<open>Walking the tree\<close>

abbreviation PATH_MAX :: nat where
  "PATH_MAX \<equiv> 4096"

definition join :: "string \<Rightarrow> string \<Rightarrow> string" where
  "join dirname name = dirname @ (if dirname = [] \<or> last dirname \<noteq> CHR ''/'' then ''/'' else []) @ name"

fun seq_out :: "'a list outcome \<Rightarrow> 'a list outcome \<Rightarrow> 'a list outcome" where
  "seq_out (Cont a) (Cont b) = Cont (a @ b)"
| "seq_out (Cont a) r = r"
| "seq_out r _ = r"

text \<open>The path of an entry is put together in a buffer of \<open>PATH_MAX\<close> bytes without a check.\<close>

fun list_file :: "clock \<Rightarrow> cond_t \<Rightarrow> date \<Rightarrow> string \<Rightarrow> node \<Rightarrow> string list outcome"
  and list_files :: "clock \<Rightarrow> cond_t \<Rightarrow> date \<Rightarrow> string \<Rightarrow> dirent list option \<Rightarrow> string list outcome"
  and list_dirents :: "clock \<Rightarrow> cond_t \<Rightarrow> date \<Rightarrow> string \<Rightarrow> dirent list \<Rightarrow> string list outcome"
  and list_dirent :: "clock \<Rightarrow> cond_t \<Rightarrow> date \<Rightarrow> string \<Rightarrow> dirent \<Rightarrow> string list outcome" where
  "list_file clk cond d filename (Regular st) = Cont (list_regular clk cond d filename st)"
| "list_file clk cond d filename (Symlink st) = Cont []"
| "list_file clk cond d filename (Special st) = Cont []"
| "list_file clk cond d filename (Directory st ds) = list_files clk cond d filename ds"
| "list_files clk cond d dirname None = Cont []"
| "list_files clk cond d dirname (Some ds) = list_dirents clk cond d dirname ds"
| "list_dirents clk cond d dirname [] = Cont []"
| "list_dirents clk cond d dirname (e # ds) =
     seq_out (list_dirent clk cond d dirname e) (list_dirents clk cond d dirname ds)"
| "list_dirent clk cond d dirname Dot = Cont []"
| "list_dirent clk cond d dirname Dotdot = Cont []"
| "list_dirent clk cond d dirname (Entry name n) =
     (if length (join dirname name) < PATH_MAX then list_file clk cond d (join dirname name) n else Out_Of_Bounds)"
| "list_dirent clk cond d dirname (Gone name) =
     (if length (join dirname name) < PATH_MAX then Cont [] else Out_Of_Bounds)"

text \<open>
  \<open>nftw\<close> with \<open>FTW_PHYS\<close>: the callback gets \<open>FTW_F\<close> for everything that is neither a directory nor
  a symbolic link, in the order of a walk from the root; paths have no bound.
\<close>

datatype ftw_flag = FTW_F | FTW_D | FTW_DNR | FTW_SL | FTW_NS

definition treewalk :: "clock \<Rightarrow> cond_t \<Rightarrow> date \<Rightarrow> string \<Rightarrow> stat \<Rightarrow> ftw_flag \<Rightarrow> string list" where
  "treewalk clk gcond gdate fpath sb typeflag =
     (if typeflag \<noteq> FTW_F then [] else list_regular clk gcond gdate fpath sb)"

fun nftw :: "(string \<Rightarrow> stat \<Rightarrow> ftw_flag \<Rightarrow> 'o list) \<Rightarrow> string \<Rightarrow> node \<Rightarrow> 'o list"
  and nftw_dirents :: "(string \<Rightarrow> stat \<Rightarrow> ftw_flag \<Rightarrow> 'o list) \<Rightarrow> string \<Rightarrow> dirent list \<Rightarrow> 'o list"
  and nftw_dirent :: "(string \<Rightarrow> stat \<Rightarrow> ftw_flag \<Rightarrow> 'o list) \<Rightarrow> string \<Rightarrow> dirent \<Rightarrow> 'o list" where
  "nftw fn path (Regular st) = fn path st FTW_F"
| "nftw fn path (Symlink st) = fn path st FTW_SL"
| "nftw fn path (Special st) = fn path st FTW_F"
| "nftw fn path (Directory st None) = fn path st FTW_DNR"
| "nftw fn path (Directory st (Some ds)) = fn path st FTW_D @ nftw_dirents fn path ds"
| "nftw_dirents fn path [] = []"
| "nftw_dirents fn path (e # ds) = nftw_dirent fn path e @ nftw_dirents fn path ds"
| "nftw_dirent fn path Dot = []"
| "nftw_dirent fn path Dotdot = []"
| "nftw_dirent fn path (Entry name n) = nftw fn (join path name) n"
| "nftw_dirent fn path (Gone name) = fn (join path name) \<lparr>st_mode = 0, st_mtime = 0, st_size = 0\<rparr> FTW_NS"

definition list_files_nftw :: "clock \<Rightarrow> cond_t \<Rightarrow> date \<Rightarrow> string \<Rightarrow> node \<Rightarrow> string list" where
  "list_files_nftw clk cond d dirname n = nftw (treewalk clk cond d) dirname n"


subsection \<open>One process per entry\<close>

text \<open>
  \<open>forks path\<close> tells whether starting a process for \<open>path\<close> succeeds.  A process has lines it has
  printed and not yet written, which its children start with a copy of, and which it writes when
  it exits.  The result is what the process itself has not written, and what its descendants wrote.
\<close>

type_synonym proc_out = "(string list \<times> string multiset) outcome"

fun then_more :: "proc_out \<Rightarrow> (string list \<Rightarrow> proc_out) \<Rightarrow> proc_out" where
  "then_more (Cont (buf, F)) next_step =
     (case next_step buf of Cont (buf1, G) \<Rightarrow> Cont (buf1, F + G) | Exit i \<Rightarrow> Exit i | Out_Of_Bounds \<Rightarrow> Out_Of_Bounds)"
| "then_more (Exit i) next_step = Exit i"
| "then_more Out_Of_Bounds next_step = Out_Of_Bounds"

fun child_exits :: "string list \<Rightarrow> proc_out \<Rightarrow> proc_out" where
  "child_exits buf (Cont (child, F)) = Cont (buf, F + mset child)"
| "child_exits buf r = r"

fun fork_file :: "(string \<Rightarrow> stat \<Rightarrow> string list) \<Rightarrow> (string \<Rightarrow> bool) \<Rightarrow> string \<Rightarrow> node \<Rightarrow> string list \<Rightarrow> proc_out"
  and fork_dirents :: "(string \<Rightarrow> stat \<Rightarrow> string list) \<Rightarrow> (string \<Rightarrow> bool) \<Rightarrow> string \<Rightarrow> dirent list \<Rightarrow> string list \<Rightarrow> proc_out"
  and fork_dirent :: "(string \<Rightarrow> stat \<Rightarrow> string list) \<Rightarrow> (string \<Rightarrow> bool) \<Rightarrow> string \<Rightarrow> dirent \<Rightarrow> string list \<Rightarrow> proc_out" where
  "fork_file prn forks filename (Regular st) buf = Cont (buf @ prn filename st, {#})"
| "fork_file prn forks filename (Symlink st) buf = Cont (buf, {#})"
| "fork_file prn forks filename (Special st) buf = Cont (buf, {#})"
| "fork_file prn forks filename (Directory st None) buf = Cont (buf, {#})"
| "fork_file prn forks filename (Directory st (Some ds)) buf = fork_dirents prn forks filename ds buf"
| "fork_dirents prn forks dirname [] buf = Cont (buf, {#})"
| "fork_dirents prn forks dirname (e # ds) buf =
     then_more (fork_dirent prn forks dirname e buf) (fork_dirents prn forks dirname ds)"
| "fork_dirent prn forks dirname Dot buf = Cont (buf, {#})"
| "fork_dirent prn forks dirname Dotdot buf = Cont (buf, {#})"
| "fork_dirent prn forks dirname (Entry name n) buf =
     (if PATH_MAX \<le> length (join dirname name) then Out_Of_Bounds
      else if forks (join dirname name) then child_exits buf (fork_file prn forks (join dirname name) n buf)
      else fork_file prn forks (join dirname name) n buf)"
| "fork_dirent prn forks dirname (Gone name) buf =
     (if PATH_MAX \<le> length (join dirname name) then Out_Of_Bounds
      else if forks (join dirname name) then child_exits buf (Cont (buf, {#}))
      else Cont (buf, {#}))"

text \<open>\<open>main\<close> lists the root, waits for its children and exits.\<close>

definition fork_list :: "clock \<Rightarrow> cond_t \<Rightarrow> date \<Rightarrow> (string \<Rightarrow> bool) \<Rightarrow> string \<Rightarrow> dirent list option \<Rightarrow> string multiset outcome" where
  "fork_list clk cond d forks dirr dir =
     (case dir of
        None \<Rightarrow> Cont {#}
      | Some ds \<Rightarrow>
          (case fork_dirents (list_regular clk cond d) forks dirr ds [] of
             Cont (buf, F) \<Rightarrow> Cont (F + mset buf) | Exit i \<Rightarrow> Exit i | Out_Of_Bounds \<Rightarrow> Out_Of_Bounds))"

subsection \<open>main.c\<close>

text \<open>The date \<open>%d-%d-%d\<close>; what follows it is ignored.\<close>

definition scan_dash :: "(int \<times> string) option \<Rightarrow> (int \<times> string) option" where
  "scan_dash r = (case r of Some (v, CHR ''-'' # s) \<Rightarrow> Some (v, s) | _ \<Rightarrow> None)"

definition parse_date :: "string \<Rightarrow> date option" where
  "parse_date s =
     (case scan_dash (scan_d s) of
        None \<Rightarrow> None
      | Some (y, s1) \<Rightarrow>
          (case scan_dash (scan_d s1) of
             None \<Rightarrow> None
           | Some (mo, s2) \<Rightarrow>
               (case scan_d s2 of None \<Rightarrow> None | Some (da, _) \<Rightarrow> Some \<lparr>year = y, month = mo, day = da\<rparr>)))"

definition parse_cond :: "string \<Rightarrow> cond_t option" where
  "parse_cond s =
     (if s = ''<'' then Some LT else if s = ''='' then Some EQ else if s = ''>'' then Some GT else None)"

text \<open>\<open>realpath\<close> and the tree are parameters; the value is the output, or the exit status.\<close>

definition list_main ::
    "clock \<Rightarrow> (string \<Rightarrow> string ptr) \<Rightarrow> (string \<Rightarrow> dirent list option) \<Rightarrow> string list \<Rightarrow> string list outcome" where
  "list_main clk realpath opendir args =
     (case args of
        [program, dir, condv, da] \<Rightarrow>
          (case parse_date da of
             None \<Rightarrow> Exit 2
           | Some sdate \<Rightarrow>
               (case parse_cond condv of
                  None \<Rightarrow> Exit 3
                | Some cond \<Rightarrow>
                    (case realpath dir of
                       NULL \<Rightarrow> Exit 5
                     | Some dirr \<Rightarrow> list_files clk cond sdate dirr (opendir dirr))))
      | _ \<Rightarrow> Exit 1)"

text \<open>The same command line for the version with one process per entry.\<close>

definition fork_main ::
    "clock \<Rightarrow> (string \<Rightarrow> string ptr) \<Rightarrow> (string \<Rightarrow> dirent list option) \<Rightarrow> (string \<Rightarrow> bool) \<Rightarrow> string list \<Rightarrow> string multiset outcome" where
  "fork_main clk realpath opendir forks args =
     (case args of
        [program, dir, condv, da] \<Rightarrow>
          (case parse_date da of
             None \<Rightarrow> Exit 2
           | Some sdate \<Rightarrow>
               (case parse_cond condv of
                  None \<Rightarrow> Exit 3
                | Some cond \<Rightarrow>
                    (case realpath dir of
                       NULL \<Rightarrow> Exit 5
                     | Some dirr \<Rightarrow> fork_list clk cond sdate forks dirr (opendir dirr))))
      | _ \<Rightarrow> Exit 1)"

subsection \<open>The files of a tree\<close>

text \<open>What the listings should list: the path and the properties of every file, and whether it is a regular one.\<close>

fun walk :: "string \<Rightarrow> node \<Rightarrow> (string \<times> stat \<times> bool) list"
  and walk_dirents :: "string \<Rightarrow> dirent list \<Rightarrow> (string \<times> stat \<times> bool) list"
  and walk_dirent :: "string \<Rightarrow> dirent \<Rightarrow> (string \<times> stat \<times> bool) list" where
  "walk path (Regular st) = [(path, st, True)]"
| "walk path (Symlink st) = []"
| "walk path (Special st) = [(path, st, False)]"
| "walk path (Directory st None) = []"
| "walk path (Directory st (Some ds)) = walk_dirents path ds"
| "walk_dirents path [] = []"
| "walk_dirents path (e # ds) = walk_dirent path e @ walk_dirents path ds"
| "walk_dirent path (Entry name n) = walk (join path name) n"
| "walk_dirent path _ = []"

fun paths_ok :: "string \<Rightarrow> node \<Rightarrow> bool"
  and paths_dirents :: "string \<Rightarrow> dirent list \<Rightarrow> bool"
  and paths_dirent :: "string \<Rightarrow> dirent \<Rightarrow> bool" where
  "paths_ok path (Directory st (Some ds)) = paths_dirents path ds"
| "paths_ok path _ = True"
| "paths_dirents path [] = True"
| "paths_dirents path (e # ds) = (paths_dirent path e \<and> paths_dirents path ds)"
| "paths_dirent path (Entry name n) = (length (join path name) < PATH_MAX \<and> paths_ok (join path name) n)"
| "paths_dirent path (Gone name) = (length (join path name) < PATH_MAX)"
| "paths_dirent path _ = True"

definition report :: "clock \<Rightarrow> cond_t \<Rightarrow> date \<Rightarrow> (string \<times> stat \<times> bool) list \<Rightarrow> string list" where
  "report clk cond d fs = concat (map (\<lambda>(p, st, r). list_regular clk cond d p st) fs)"

lemma report_simps [simp]: "report clk cond d [] = []"
  "report clk cond d ((p, st, r) # fs) = list_regular clk cond d p st @ report clk cond d fs"
  "report clk cond d (fs @ gs) = report clk cond d fs @ report clk cond d gs"
  by (simp_all add: report_def)

abbreviation regular :: "(string \<times> stat \<times> bool) list \<Rightarrow> (string \<times> stat \<times> bool) list" where
  "regular \<equiv> filter (\<lambda>(p, st, r). r)"

lemma list_walk:
  "paths_ok path n \<Longrightarrow> list_file clk cond d path n = Cont (report clk cond d (regular (walk path n)))"
  "\<forall>st. paths_ok path (Directory st dso) \<longrightarrow>
     list_files clk cond d path dso = Cont (report clk cond d (regular (walk path (Directory st dso))))"
  "paths_dirents path ds \<Longrightarrow> list_dirents clk cond d path ds = Cont (report clk cond d (regular (walk_dirents path ds)))"
  "paths_dirent path e \<Longrightarrow> list_dirent clk cond d path e = Cont (report clk cond d (regular (walk_dirent path e)))"
  by (induction clk cond d path n and clk cond d path dso and clk cond d path ds and clk cond d path e
      rule: list_file_list_files_list_dirents_list_dirent.induct) auto

lemma nftw_walk:
  fixes clk cond d
  defines "fn \<equiv> treewalk clk cond d"
  shows "nftw fn path n = report clk cond d (walk path n)"
    "nftw_dirents fn path ds = report clk cond d (walk_dirents path ds)"
    "nftw_dirent fn path e = report clk cond d (walk_dirent path e)"
  by (induction path n and path ds and path e rule: walk_walk_dirents_walk_dirent.induct)
    (simp_all add: fn_def treewalk_def)


lemma fork_walk:
  assumes "\<And>p. forks p"
  shows "paths_ok path n \<Longrightarrow> \<exists>buf F. fork_file (list_regular clk cond d) forks path n [] = Cont (buf, F) \<and>
      F + mset buf = mset (report clk cond d (regular (walk path n)))"
    "paths_dirents path ds \<Longrightarrow> fork_dirents (list_regular clk cond d) forks path ds [] =
      Cont ([], mset (report clk cond d (regular (walk_dirents path ds))))"
    "paths_dirent path e \<Longrightarrow> fork_dirent (list_regular clk cond d) forks path e [] =
      Cont ([], mset (report clk cond d (regular (walk_dirent path e))))"
proof (induction path n and path ds and path e rule: walk_walk_dirents_walk_dirent.induct)
  case (8 path name n)
  then show ?case using assms by auto
qed (use assms in auto)

subsection \<open>Properties\<close>


definition demo_clock :: clock where
  "demo_clock = \<lparr>gmtime = (\<lambda>t. \<lparr>tm_year = 118, tm_mon = 2, tm_mday = t div 86400\<rparr>),
     localtime = (\<lambda>t. \<lparr>tm_year = 118, tm_mon = 2, tm_mday = (t + 3600) div 86400\<rparr>)\<rparr>"

definition demo_stat :: stat where
  "demo_stat = \<lparr>st_mode = 420, st_mtime = 5 * 86400, st_size = 12\<rparr>"

definition demo_date :: date where
  "demo_date = \<lparr>year = 2018, month = 3, day = 5\<rparr>"

lemma demo_listed: "list_regular demo_clock EQ demo_date p demo_stat = [file_line demo_clock p demo_stat]"
  by (simp add: list_regular_def check_time_def compare_date_def demo_clock_def demo_stat_def demo_date_def)

definition demo_tree :: "dirent list option" where
  "demo_tree = Some [Dot, Dotdot, Entry ''a'' (Regular demo_stat), Entry ''b'' (Directory demo_stat (Some [Entry ''c'' (Regular demo_stat)]))]"

lemma demo_walk:
  "walk ''/t'' (Directory demo_stat demo_tree) = [(''/t/a'', demo_stat, True), (''/t/b/c'', demo_stat, True)]"
  "paths_ok ''/t'' (Directory demo_stat demo_tree)"
  by (simp_all add: demo_tree_def join_def)


text \<open>
  A file is listed for a condition exactly when its date, in the order of year, month and day,
  is before, equal to or after the given one.
\<close>

theorem check_time_order:
  fixes clk :: clock and t :: int
  defines "file_date \<equiv> (tm_year (gmtime clk t) + 1900, tm_mon (gmtime clk t) + 1, tm_mday (gmtime clk t))"
  shows "(check_time clk t LT d = 0 \<longleftrightarrow> file_date < (year d, month d, day d)) \<and>
    (check_time clk t EQ d = 0 \<longleftrightarrow> file_date = (year d, month d, day d)) \<and>
    (check_time clk t GT d = 0 \<longleftrightarrow> file_date > (year d, month d, day d))"
  by (auto simp: check_time_def compare_date_def file_date_def)

lemma fork_list_walk:
  assumes "\<And>p. forks p" and "paths_ok dirr (Directory st ds)"
  shows "\<exists>out. list_files clk cond d dirr ds = Cont out \<and> fork_list clk cond d forks dirr ds = Cont (mset out)"
proof (cases ds)
  case None
  then show ?thesis by (simp add: fork_list_def)
next
  case (Some es)
  then have "paths_dirents dirr es" using assms(2) by simp
  then show ?thesis using fork_walk(2) [of forks dirr es clk cond d, OF assms(1)] list_walk(3) [of dirr es clk cond d] Some
    by (simp add: fork_list_def)
qed



text \<open>
  When a process cannot be started the entry is listed in place; its line is then written
  again by every process started after it.
\<close>

theorem fork_failure_duplicates:
  assumes "dirr \<noteq> []" and "length (join dirr a) < PATH_MAX" and "length (join dirr b) < PATH_MAX"
    and "\<not> forks (join dirr a)" and "forks (join dirr b)"
    and "check_time clk (st_mtime sa) cond d = 0" and "check_time clk (st_mtime sb) cond d \<noteq> 0"
  shows "fork_list clk cond d forks dirr (Some [Entry a (Regular sa), Entry b (Regular sb)]) =
     Cont {#file_line clk (join dirr a) sa, file_line clk (join dirr a) sa#}"
  using assms by (simp add: fork_list_def list_regular_def)

theorem fork_failure_duplicates_witness:
  "fork_list demo_clock EQ demo_date (\<lambda>p. p = ''/t/b'') ''/t''
     (Some [Entry ''a'' (Regular demo_stat), Entry ''b'' (Regular (demo_stat\<lparr>st_mtime := 0\<rparr>))]) =
     Cont {#file_line demo_clock ''/t/a'' demo_stat, file_line demo_clock ''/t/a'' demo_stat#}"
  using fork_failure_duplicates [of "''/t''" "''a''" "''b''" "\<lambda>p. p = ''/t/b''" demo_clock demo_stat EQ demo_date
    "demo_stat\<lparr>st_mtime := 0\<rparr>"]
  by (simp add: join_def check_time_def compare_date_def demo_clock_def demo_stat_def demo_date_def)

end
