(* ===== verification/Char_Alloc.thy ===== *)
theory Char_Alloc
  imports C_Lib
begin

text \<open>
  The block tables of \<open>cw01\<close>: \<open>zad1/src/challoc.c\<close>, a table of blocks of characters allocated one by
  one and a static one of the same shape, and \<open>zad2/src/main.c\<close>, which runs the operations named on
  its command line.

  The dynamic table is the one \<open>main\<close> keeps.  \<open>live\<close> counts the objects obtained from \<open>calloc\<close>
  and not given back; whether an allocation succeeds is a parameter.
\<close>

abbreviation CHALLOC_STATIC_BLK_SIZE :: nat where
  "CHALLOC_STATIC_BLK_SIZE \<equiv> 8192"

abbreviation CHALLOC_STATIC_BLK_COUNT :: nat where
  "CHALLOC_STATIC_BLK_COUNT \<equiv> 4096"

record blk_table =
  blk_count :: size_t
  blk_size :: size_t
  blks :: "byte list ptr list ptr"

record chmem =
  table :: blk_table
  live :: nat
  s_chtable :: "byte list list"
  rand_pos :: nat

datatype alloc_t = DYNAMIC | STATIC

subsection \<open>challoc.c: the dynamic table\<close>

definition challoc :: "(nat \<Rightarrow> bool) \<Rightarrow> size_t \<Rightarrow> size_t \<Rightarrow> nat \<Rightarrow> blk_table \<times> nat" where
  "challoc avail n m live0 =
     (if calloc_ok avail n 8
      then (\<lparr>blk_count = n, blk_size = m, blks = Some (replicate (unat n) NULL)\<rparr>, live0 + 1)
      else (\<lparr>blk_count = 0, blk_size = m, blks = NULL\<rparr>, live0))"

definition chfree_blk :: "blk_table \<Rightarrow> nat \<Rightarrow> nat \<Rightarrow> (blk_table \<times> nat) outcome" where
  "chfree_blk tbl blk_no live0 =
     (case blks tbl of
        NULL \<Rightarrow> Cont (tbl, live0)
      | Some bs \<Rightarrow>
          if length bs \<le> blk_no then Out_Of_Bounds
          else if bs ! blk_no = NULL then Cont (tbl, live0)
          else Cont (tbl\<lparr>blks := Some (bs[blk_no := NULL])\<rparr>, live0 - 1))"

fun chfree_loop :: "nat \<Rightarrow> nat \<Rightarrow> blk_table \<Rightarrow> nat \<Rightarrow> (blk_table \<times> nat) outcome" where
  "chfree_loop i 0 tbl live0 = Cont (tbl, live0)"
| "chfree_loop i (Suc n) tbl live0 =
     (case chfree_blk tbl i live0 of
        Cont (tbl', live1) \<Rightarrow> chfree_loop (Suc i) n tbl' live1 | Exit x \<Rightarrow> Exit x | Out_Of_Bounds \<Rightarrow> Out_Of_Bounds)"

definition chfree :: "blk_table \<Rightarrow> nat \<Rightarrow> nat outcome" where
  "chfree tbl live0 =
     (if blk_count tbl = 0 \<or> blks tbl = NULL then Cont live0
      else (case chfree_loop 0 (unat (blk_count tbl)) tbl live0 of
              Cont (tbl', live1) \<Rightarrow> Cont (live1 - 1) | Exit x \<Rightarrow> Exit x | Out_Of_Bounds \<Rightarrow> Out_Of_Bounds))"

definition challoc_blk :: "(nat \<Rightarrow> bool) \<Rightarrow> blk_table \<Rightarrow> nat \<Rightarrow> nat \<Rightarrow> (int \<times> blk_table \<times> nat) outcome" where
  "challoc_blk avail tbl blk_no live0 =
     (case blks tbl of
        NULL \<Rightarrow> Cont (-2, tbl, live0)
      | Some bs \<Rightarrow>
          if length bs \<le> blk_no then Out_Of_Bounds
          else
            (case (if bs ! blk_no \<noteq> NULL then chfree_blk tbl blk_no live0 else Cont (tbl, live0)) of
               Cont (tbl', live1) \<Rightarrow>
                 if calloc_ok avail 1 (blk_size tbl)
                 then Cont (0, tbl\<lparr>blks := Some (bs[blk_no := Some (replicate (unat (blk_size tbl)) 0)])\<rparr>, live1 + 1)
                 else Cont (-1, tbl\<lparr>blks := Some (bs[blk_no := NULL])\<rparr>, live1)
             | Exit x \<Rightarrow> Exit x
             | Out_Of_Bounds \<Rightarrow> Out_Of_Bounds))"

text \<open>Characters are signed; the sum of a block that is not there is \<open>-1\<close>.\<close>

definition char_sum :: "byte list \<Rightarrow> int" where
  "char_sum content = sum_list (map sint content)"

definition chblk_sum :: "blk_table \<Rightarrow> byte list ptr \<Rightarrow> int" where
  "chblk_sum tbl blk = (case blk of NULL \<Rightarrow> -1 | Some content \<Rightarrow> char_sum (take (unat (blk_size tbl)) content))"

text \<open>
  The search over the sums.  \<open>abs\<close> takes an \<open>int\<close>; \<open>diff2\<close> is unsigned and compared with \<open>diff\<close> as
  such.  The distance in the loop is computed from \<open>index\<close>.
\<close>

definition abs_diff :: "int \<Rightarrow> int \<Rightarrow> int" where
  "abs_diff a b = \<bar>to_int (a - b)\<bar>"

fun find_loop :: "int list \<Rightarrow> nat \<Rightarrow> nat \<Rightarrow> nat \<Rightarrow> nat \<times> int \<Rightarrow> nat \<times> int" where
  "find_loop sums blk_no i 0 (index, diff) = (index, diff)"
| "find_loop sums blk_no i (Suc n) (index, diff) =
     (if i = blk_no then find_loop sums blk_no (Suc i) n (index, diff)
      else
        let diff2 = to_size_t (abs_diff (sums ! blk_no) (sums ! index)) in
        find_loop sums blk_no (Suc i) n (if diff2 < to_size_t diff then (i, uint diff2) else (index, diff)))"

definition find_closest :: "int list \<Rightarrow> nat \<Rightarrow> nat \<times> int" where
  "find_closest sums blk_no =
     (let index = (blk_no + 1) mod length sums
      in find_loop sums blk_no 0 (length sums) (index, abs_diff (sums ! blk_no) (sums ! index)))"

definition chfind :: "blk_table \<Rightarrow> nat \<Rightarrow> (nat \<times> int) outcome" where
  "chfind tbl blk_no =
     (case blks tbl of
        NULL \<Rightarrow> Out_Of_Bounds
      | Some bs \<Rightarrow>
          if length bs \<le> blk_no then Out_Of_Bounds
          else if bs ! blk_no = NULL then Cont (blk_no, 0)
          else
            (case find_closest (map (chblk_sum tbl) bs) blk_no of
               (index, diff) \<Rightarrow>
                 Cont (if map (chblk_sum tbl) bs ! index = -1 then (blk_no, 0) else (index, diff))))"

subsection \<open>challoc.c: the static table\<close>

definition s_chfind :: "byte list list \<Rightarrow> nat \<Rightarrow> (nat \<times> int) outcome" where
  "s_chfind tbl blk_no =
     (if length tbl \<le> blk_no then Out_Of_Bounds else Cont (find_closest (map char_sum tbl) blk_no))"

text \<open>The values \<open>rand\<close> gives are a parameter; every call advances the position.\<close>

definition s_chrndfill :: "(nat \<Rightarrow> byte) \<Rightarrow> nat \<Rightarrow> chmem \<Rightarrow> chmem outcome" where
  "s_chrndfill rnd blk_no s =
     (if length (s_chtable s) \<le> blk_no then Out_Of_Bounds
      else Cont (s\<lparr>s_chtable := (s_chtable s)[blk_no := map (\<lambda>i. rnd (rand_pos s + i)) [0..<CHALLOC_STATIC_BLK_SIZE]],
                   rand_pos := rand_pos s + CHALLOC_STATIC_BLK_SIZE\<rparr>))"

definition s_chvoid :: "nat \<Rightarrow> chmem \<Rightarrow> chmem outcome" where
  "s_chvoid blk_no s =
     (if length (s_chtable s) \<le> blk_no then Out_Of_Bounds
      else Cont (s\<lparr>s_chtable := (s_chtable s)[blk_no := replicate CHALLOC_STATIC_BLK_SIZE 0]\<rparr>))"

subsection \<open>main.c\<close>

record ch_env =
  avail :: "nat \<Rightarrow> bool"
  rnd :: "nat \<Rightarrow> byte"

fun bind_mem :: "'a outcome \<Rightarrow> ('a \<Rightarrow> 'b outcome) \<Rightarrow> 'b outcome" where
  "bind_mem (Cont a) f = f a"
| "bind_mem (Exit x) f = Exit x"
| "bind_mem Out_Of_Bounds f = Out_Of_Bounds"

lemma bind_mem_cong [fundef_cong]:
  "r = r' \<Longrightarrow> (\<And>a. r' = Cont a \<Longrightarrow> f a = g a) \<Longrightarrow> bind_mem r f = bind_mem r' g"
  by (cases r') auto

definition free_at :: "nat \<Rightarrow> chmem \<Rightarrow> chmem outcome" where
  "free_at i s = bind_mem (chfree_blk (table s) i (live s)) (\<lambda>(t, l). Cont (s\<lparr>table := t, live := l\<rparr>))"

definition alloc_at :: "ch_env \<Rightarrow> nat \<Rightarrow> chmem \<Rightarrow> chmem outcome" where
  "alloc_at env i s = bind_mem (challoc_blk (avail env) (table s) i (live s)) (\<lambda>(r, t, l). Cont (s\<lparr>table := t, live := l\<rparr>))"

text \<open>The loops of the operations; the counter of the code is an \<open>int\<close>, which \<open>times\<close> is taken to fit.\<close>

fun repeat :: "(nat \<Rightarrow> chmem \<Rightarrow> chmem outcome) \<Rightarrow> nat \<Rightarrow> nat \<Rightarrow> chmem \<Rightarrow> chmem outcome" where
  "repeat f i 0 s = Cont s"
| "repeat f i (Suc n) s = bind_mem (f i s) (repeat f (Suc i) n)"

definition check_times :: "alloc_t \<Rightarrow> nat \<Rightarrow> chmem \<Rightarrow> int" where
  "check_times alloc tms s =
     (if alloc = DYNAMIC then (if unat (blk_count (table s)) < tms then -1 else 0)
      else (if CHALLOC_STATIC_BLK_COUNT < tms then -1 else 0))"

definition op_remove_and_add :: "ch_env \<Rightarrow> alloc_t \<Rightarrow> nat \<Rightarrow> chmem \<Rightarrow> chmem outcome" where
  "op_remove_and_add env alloc tms s =
     (if check_times alloc tms s \<noteq> 0 then Cont s
      else if alloc = DYNAMIC then repeat (\<lambda>i s. bind_mem (alloc_at env i s) (free_at i)) 0 tms s
      else repeat (\<lambda>i s. bind_mem (s_chrndfill (rnd env) i s) (s_chvoid i)) 0 tms s)"

definition op_add :: "ch_env \<Rightarrow> alloc_t \<Rightarrow> nat \<Rightarrow> chmem \<Rightarrow> chmem outcome" where
  "op_add env alloc tms s =
     (if check_times alloc tms s \<noteq> 0 then Cont s
      else if alloc = DYNAMIC then repeat (alloc_at env) 0 tms s
      else repeat (s_chrndfill (rnd env)) 0 tms s)"

definition op_remove :: "alloc_t \<Rightarrow> nat \<Rightarrow> chmem \<Rightarrow> chmem outcome" where
  "op_remove alloc tms s =
     (if check_times alloc tms s \<noteq> 0 then Cont s
      else if alloc = DYNAMIC then repeat free_at 0 tms s
      else repeat s_chvoid 0 tms s)"

definition op_search_element :: "alloc_t \<Rightarrow> nat \<Rightarrow> nat \<Rightarrow> chmem \<Rightarrow> chmem outcome" where
  "op_search_element alloc tms blk_no s =
     repeat (\<lambda>i s. bind_mem (if alloc = DYNAMIC then chfind (table s) blk_no else s_chfind (s_chtable s) blk_no) (\<lambda>r. Cont s))
       0 tms s"

definition recreate :: "ch_env \<Rightarrow> size_t \<Rightarrow> size_t \<Rightarrow> nat \<Rightarrow> chmem \<Rightarrow> chmem outcome" where
  "recreate env n m i s =
     bind_mem (chfree (table s) (live s))
       (\<lambda>l. case challoc (avail env) n m l of (t, l') \<Rightarrow> Cont (s\<lparr>table := t, live := l'\<rparr>))"

definition op_create_table :: "ch_env \<Rightarrow> nat \<Rightarrow> size_t \<Rightarrow> size_t \<Rightarrow> chmem \<Rightarrow> chmem outcome" where
  "op_create_table env tms n m s = repeat (recreate env n m) 0 tms s"

definition arg_size :: "string \<Rightarrow> size_t" where
  "arg_size a = to_size_t (atoi a)"

text \<open>The loop over the command line.  Reading past its end passes \<open>NULL\<close> to \<open>atoi\<close>.\<close>

function ch_loop :: "ch_env \<Rightarrow> alloc_t \<Rightarrow> string list \<Rightarrow> chmem \<Rightarrow> chmem outcome" where
  "ch_loop env alloc args s =
     (case args of
        [] \<Rightarrow> Cont s
      | name # rest \<Rightarrow>
          if name = ''create_table'' then
            (if length rest < 3 then Out_Of_Bounds
             else if alloc = STATIC then ch_loop env alloc (drop 3 rest) s
             else bind_mem (op_create_table env (unat (arg_size (rest ! 2))) (arg_size (rest ! 0)) (arg_size (rest ! 1)) s)
                    (\<lambda>s'. ch_loop env alloc (drop 3 rest) s'))
          else if name = ''search_element'' then
            (if length rest < 2 then Out_Of_Bounds
             else bind_mem (op_search_element alloc (unat (arg_size (rest ! 1))) (unat (arg_size (rest ! 0))) s)
                    (\<lambda>s'. ch_loop env alloc (drop 2 rest) s'))
          else if name \<in> {''remove'', ''add'', ''remove_and_add''} then
            (if rest = [] then Out_Of_Bounds
             else
               let tms = unat (arg_size (hd rest)) in
               bind_mem (if name = ''remove'' then op_remove alloc tms s
                         else if name = ''add'' then op_add env alloc tms s
                         else op_remove_and_add env alloc tms s)
                 (\<lambda>s'. ch_loop env alloc (tl rest) s'))
          else ch_loop env alloc rest s)"
  by pat_completeness auto
termination
  by (relation "measure (\<lambda>(env, alloc, args, s). length args)") auto

definition ch_init :: chmem where
  "ch_init = \<lparr>table = \<lparr>blk_count = 0, blk_size = 0, blks = NULL\<rparr>, live = 0,
     s_chtable = replicate CHALLOC_STATIC_BLK_COUNT (replicate CHALLOC_STATIC_BLK_SIZE 0), rand_pos = 0\<rparr>"

definition ch_main :: "ch_env \<Rightarrow> string list \<Rightarrow> chmem outcome" where
  "ch_main env argv =
     (case argv of
        program # kind # ops \<Rightarrow>
          if kind = ''static'' then ch_loop env STATIC ops ch_init
          else if kind = ''dynamic'' then ch_loop env DYNAMIC ops ch_init
          else Exit 2
      | _ \<Rightarrow> Exit 1)"


declare ch_loop.simps [simp del]

subsection \<open>Well-formed tables\<close>

text \<open>
  A table has as many entries as it says and blocks of the size it says; every object of the heap
  is the table or one of its blocks.
\<close>

definition blk_weight :: "byte list ptr \<Rightarrow> nat" where
  "blk_weight b = (if b = NULL then 0 else 1)"

definition owned :: "blk_table \<Rightarrow> nat" where
  "owned t = (case blks t of NULL \<Rightarrow> 0 | Some bs \<Rightarrow> 1 + total blk_weight bs)"

definition table_wf :: "blk_table \<Rightarrow> bool" where
  "table_wf t =
     (case blks t of
        NULL \<Rightarrow> blk_count t = 0
      | Some bs \<Rightarrow> length bs = unat (blk_count t) \<and> blk_count t \<noteq> 0 \<and>
          (\<forall>b c. b \<in> set bs \<longrightarrow> b = Some c \<longrightarrow> length c = unat (blk_size t)))"

definition ch_inv :: "chmem \<Rightarrow> bool" where
  "ch_inv s = (table_wf (table s) \<and> live s = owned (table s))"

lemma free_at_inv:
  assumes "ch_inv s" and "i < unat (blk_count (table s))"
  shows "\<exists>s'. free_at i s = Cont s' \<and> ch_inv s' \<and> blk_count (table s') = blk_count (table s)"
proof -
  obtain bs where bs: "blks (table s) = Some bs" "length bs = unat (blk_count (table s))"
    using assms by (auto simp: ch_inv_def table_wf_def split: option.splits)
  then have i: "i < length bs" using assms(2) by simp
  show ?thesis
  proof (cases "bs ! i")
    case None
    then show ?thesis using assms bs i by (simp add: free_at_def chfree_blk_def ch_inv_def)
  next
    case (Some c)
    have "total blk_weight (bs[i := NULL]) + 1 = total blk_weight bs"
      using total_update [OF i, of blk_weight NULL] Some by (simp add: blk_weight_def)
    moreover have "set (bs[i := NULL]) \<subseteq> insert NULL (set bs)" by (rule set_update_subset_insert)
    ultimately show ?thesis using assms bs i Some
      by (auto simp: free_at_def chfree_blk_def ch_inv_def table_wf_def owned_def)
  qed
qed

lemma alloc_at_inv:
  assumes "ch_inv s" and "i < unat (blk_count (table s))"
  shows "\<exists>s'. alloc_at env i s = Cont s' \<and> ch_inv s' \<and> blk_count (table s') = blk_count (table s)"
proof -
  obtain bs where bs: "blks (table s) = Some bs" "length bs = unat (blk_count (table s))"
    using assms by (auto simp: ch_inv_def table_wf_def split: option.splits)
  then have i: "i < length bs" using assms(2) by simp
  let ?c = "replicate (unat (blk_size (table s))) 0 :: byte list"
  have w: "total blk_weight (bs[i := v]) + blk_weight (bs ! i) = total blk_weight bs + blk_weight v" for v
    using total_update [OF i] .
  have sub: "set (bs[i := v]) \<subseteq> insert v (set bs)" for v by (rule set_update_subset_insert)
  have l: "live s - (if bs ! i = NULL then 0 else 1) = 1 + total blk_weight (bs[i := NULL])"
    using w [of NULL] assms(1) bs by (auto simp: ch_inv_def owned_def blk_weight_def split: if_splits)
  show ?thesis
  proof (cases "calloc_ok (avail env) 1 (blk_size (table s))")
    case True
    then show ?thesis using assms bs i l sub [of "Some ?c"] w [of "Some ?c"] w [of NULL]
      by (auto simp: alloc_at_def challoc_blk_def chfree_blk_def ch_inv_def table_wf_def owned_def blk_weight_def split: if_splits)
  next
    case False
    then show ?thesis using assms bs i l sub [of NULL] w [of NULL]
      by (auto simp: alloc_at_def challoc_blk_def chfree_blk_def ch_inv_def table_wf_def owned_def blk_weight_def split: if_splits)
  qed
qed

text \<open>A loop over entries of the table keeps it well-formed, when each round does.\<close>

lemma repeat_inv:
  assumes "\<And>i s. ch_inv s \<Longrightarrow> i < unat (blk_count (table s)) \<Longrightarrow>
      \<exists>s'. f i s = Cont s' \<and> ch_inv s' \<and> blk_count (table s') = blk_count (table s)"
    and "ch_inv s" and "i + n \<le> unat (blk_count (table s))"
  shows "\<exists>s'. repeat f i n s = Cont s' \<and> ch_inv s'"
  using assms(2,3)
proof (induction n arbitrary: i s)
  case (Suc n)
  obtain s1 where s1: "f i s = Cont s1" "ch_inv s1" "blk_count (table s1) = blk_count (table s)"
    using assms(1) [of s i] Suc.prems by auto
  then show ?case using Suc.IH [of s1 "Suc i"] Suc.prems(2) by simp
qed simp


lemma chfree_loop_all:
  "blks t = Some bs \<Longrightarrow> i + n = length bs \<Longrightarrow> total blk_weight (drop i bs) \<le> l \<Longrightarrow>
    \<exists>t'. chfree_loop i n t l = Cont (t', l - total blk_weight (drop i bs))"
proof (induction n arbitrary: i t bs l)
  case (Suc n)
  have i: "i < length bs" using Suc.prems(2) by simp
  have d: "drop i bs = bs ! i # drop (Suc i) bs" using i by (simp add: Cons_nth_drop_Suc)
  show ?case
  proof (cases "bs ! i")
    case None
    then have "chfree_blk t i l = Cont (t, l)" using Suc.prems i by (simp add: chfree_blk_def)
    then show ?thesis using Suc.IH [OF Suc.prems(1), of "Suc i" l] Suc.prems d None by (simp add: blk_weight_def)
  next
    case (Some c)
    then have "chfree_blk t i l = Cont (t\<lparr>blks := Some (bs[i := NULL])\<rparr>, l - 1)" using Suc.prems i by (simp add: chfree_blk_def)
    moreover have "drop (Suc i) (bs[i := NULL]) = drop (Suc i) bs" by simp
    ultimately show ?thesis
      using Suc.IH [of "t\<lparr>blks := Some (bs[i := NULL])\<rparr>" "bs[i := NULL]" "Suc i" "l - 1"] Suc.prems d Some
      by (simp add: blk_weight_def)
  qed
qed simp

lemma chfree_owned:
  assumes "table_wf t" and "owned t \<le> l"
  shows "chfree t l = Cont (l - owned t)"
proof (cases "blks t")
  case None
  then show ?thesis by (simp add: chfree_def owned_def)
next
  case (Some bs)
  then have "length bs = unat (blk_count t)" "blk_count t \<noteq> 0" using assms(1) by (auto simp: table_wf_def)
  then show ?thesis using chfree_loop_all [OF Some, of 0 "length bs" l] Some assms(2)
    by (auto simp: chfree_def owned_def)
qed

lemma recreate_inv:
  assumes "ch_inv s" and "n \<noteq> 0"
  shows "\<exists>s'. recreate env n m i s = Cont s' \<and> ch_inv s'"
proof -
  have "chfree (table s) (live s) = Cont 0" using chfree_owned [of "table s" "live s"] assms(1) by (simp add: ch_inv_def)
  moreover have "total blk_weight (replicate k NULL) = 0" for k by (rule total_const_0) (simp add: blk_weight_def)
  ultimately show ?thesis using assms(2) by (simp add: recreate_def ch_inv_def challoc_def table_wf_def owned_def)
qed

lemma check_times_ok: "check_times DYNAMIC k s = 0 \<Longrightarrow> 0 + k \<le> unat (blk_count (table s))"
  by (auto simp: check_times_def split: if_splits)

lemma guarded_repeat:
  assumes "\<And>i s. ch_inv s \<Longrightarrow> i < unat (blk_count (table s)) \<Longrightarrow>
      \<exists>s'. f i s = Cont s' \<and> ch_inv s' \<and> blk_count (table s') = blk_count (table s)" and "ch_inv s"
  shows "\<exists>s'. (if check_times DYNAMIC k s \<noteq> 0 then Cont s else repeat f 0 k s) = Cont s' \<and> ch_inv s'"
  using repeat_inv [of f s 0 k] assms check_times_ok [of k s] by auto

lemma recreate_repeat:
  assumes "ch_inv s" and "n \<noteq> 0"
  shows "\<exists>s'. repeat (recreate env n m) i k s = Cont s' \<and> ch_inv s'"
  using assms(1)
proof (induction k arbitrary: i s)
  case (Suc k)
  obtain s1 where "recreate env n m i s = Cont s1" "ch_inv s1" using recreate_inv [OF Suc.prems assms(2)] by blast
  then show ?case using Suc.IH [of s1 "Suc i"] by simp
qed simp

text \<open>The search stays at the entry it starts from: its distance is never less than itself.\<close>

lemma find_loop_stays:
  "find_loop sums blk_no i n (index, abs_diff (sums ! blk_no) (sums ! index)) = (index, abs_diff (sums ! blk_no) (sums ! index))"
  by (induction n arbitrary: i) (auto simp: Let_def)

lemma find_closest_neighbour:
  "find_closest sums blk_no = ((blk_no + 1) mod length sums, abs_diff (sums ! blk_no) (sums ! ((blk_no + 1) mod length sums)))"
  by (simp add: find_closest_def find_loop_stays Let_def)

text \<open>A table of no blocks is never given back.\<close>

lemma challoc_zero_leak:
  assumes "avail env 0"
  shows "\<exists>s. op_create_table env 2 0 m ch_init = Cont s \<and> live s = 2 \<and> owned (table s) = 1"
  using assms by (simp add: op_create_table_def numeral_2_eq_2 recreate_def chfree_def ch_init_def challoc_def calloc_ok_def owned_def)

subsection \<open>Properties\<close>

text \<open>
  C34: In dynamic mode, creating a table, adding, removing and removing-and-adding blocks, however
  often and whether or not memory is available, never leaves the table, and keeps it well-formed
  with every heap object reachable from it.
\<close>

theorem challoc_table_safe:
  assumes "ch_inv s"
  shows "(\<exists>s'. op_add env DYNAMIC k s = Cont s' \<and> ch_inv s') \<and> (\<exists>s'. op_remove DYNAMIC k s = Cont s' \<and> ch_inv s') \<and>
    (\<exists>s'. op_remove_and_add env DYNAMIC k s = Cont s' \<and> ch_inv s') \<and>
    (n \<noteq> 0 \<longrightarrow> (\<exists>s'. op_create_table env k n m s = Cont s' \<and> ch_inv s'))"
proof -
  have "\<exists>s'. bind_mem (alloc_at env i s) (free_at i) = Cont s' \<and> ch_inv s' \<and> blk_count (table s') = blk_count (table s)"
    if s: "ch_inv s" "i < unat (blk_count (table s))" for i s
  proof -
    obtain s1 where "alloc_at env i s = Cont s1" "ch_inv s1" "blk_count (table s1) = blk_count (table s)"
      using alloc_at_inv [OF s] by blast
    then show ?thesis using free_at_inv [of s1 i] s(2) by auto
  qed
  then have "\<exists>s'. op_remove_and_add env DYNAMIC k s = Cont s' \<and> ch_inv s'"
    using guarded_repeat [of "\<lambda>i s. bind_mem (alloc_at env i s) (free_at i)", OF _ assms, of k] by (auto simp: op_remove_and_add_def split: if_splits)
  moreover have "\<exists>s'. op_add env DYNAMIC k s = Cont s' \<and> ch_inv s'"
    using guarded_repeat [of "alloc_at env", OF alloc_at_inv assms, of k] by (auto simp: op_add_def split: if_splits)
  moreover have "\<exists>s'. op_remove DYNAMIC k s = Cont s' \<and> ch_inv s'"
    using guarded_repeat [of free_at, OF free_at_inv assms, of k] by (auto simp: op_remove_def split: if_splits)
  ultimately show ?thesis using recreate_repeat [OF assms, of n env m 0 k] by (simp add: op_create_table_def)
qed

theorem challoc_table_safe_witness:
  "ch_inv ch_init \<and> (\<exists>s'. op_create_table \<lparr>avail = \<lambda>b. True, rnd = \<lambda>k. 0\<rparr> 3 5 16 ch_init = Cont s' \<and> ch_inv s')"
proof -
  have "ch_inv ch_init" by (simp add: ch_inv_def ch_init_def table_wf_def owned_def)
  then show ?thesis using challoc_table_safe [of ch_init "\<lparr>avail = \<lambda>b. True, rnd = \<lambda>k. 0\<rparr>" 3 5 16] by simp
qed

text \<open>
  The search for the block with the closest sum does not search: it gives the next block
  whatever the sums are, or the block itself when the next one is not allocated or sums to -1.
\<close>

theorem chfind_next_block:
  assumes "blks t = Some bs" and "blk_no < length bs" and "bs ! blk_no \<noteq> NULL"
  shows "chfind t blk_no =
    (let next_no = (blk_no + 1) mod length bs; s = chblk_sum t (bs ! next_no)
     in Cont (if s = -1 then (blk_no, 0) else (next_no, abs_diff (chblk_sum t (bs ! blk_no)) s)))"
proof -
  have "(blk_no + 1) mod length bs < length bs" using assms(2) by (intro mod_less_divisor) linarith
  then show ?thesis using assms by (auto simp: chfind_def find_closest_neighbour Let_def)
qed

theorem chfind_next_block_witness:
  "chfind \<lparr>blk_count = 3, blk_size = 1, blks = Some [Some [7], Some [100], Some [7]]\<rparr> 0 = Cont (1, 93)"
  using chfind_next_block [of "\<lparr>blk_count = 3, blk_size = 1, blks = Some [Some [7], Some [100], Some [7]]\<rparr>"
    "[Some [7], Some [100], Some [7]]" 0]
  by (simp add: chblk_sum_def char_sum_def abs_diff_def Let_def)

end
