(* ===== verification/Signal_Requests.thy ===== *)
theory Signal_Requests
  imports C_Lib Transition
begin

text \<open>
  Requests by signals, \<open>cw04/zad2\<close>: every child sends \<open>SIGUSR1\<close> to its parent and waits; from the
  \<open>request_threshold\<close>-th request on the parent answers every child that has asked with \<open>SIGUSR1\<close>,
  upon which the child exits.

  Children are numbered in the order they are started.  A standard signal is pending at most once:
  of the requests sent while one is pending only the first is delivered.  A signal handler runs as
  one step.  The real-time signals a child sends before it exits are only printed; \<open>Signal_Reports\<close> adds them.
\<close>

datatype chld_state = RUNNING | REQUESTED | TERMINATED

datatype kid_pc = K_Sleep | K_Pause | K_Exited | K_Reaped

record kid =
  k_pc :: kid_pc
  k_usr1 :: bool

datatype par_pc = P_Fork nat | P_Store nat | P_Wait | P_Exit

text \<open>\<open>known\<close> is the number of process ids already stored in \<open>children\<close>.\<close>

record req_sys =
  par :: par_pc
  request_count :: int
  children_states :: "chld_state list"
  known :: nat
  usr1_pending :: "nat option"
  kids :: "kid list"

subsection \<open>main.c\<close>

definition all_children_terminated :: "req_sys \<Rightarrow> bool" where
  "all_children_terminated s = (\<forall>c \<in> set (children_states s). c = TERMINATED)"

definition give_permissions :: "req_sys \<Rightarrow> req_sys" where
  "give_permissions s =
     s\<lparr>children_states := map (\<lambda>c. if c = REQUESTED then RUNNING else c) (children_states s),
       kids := map (\<lambda>i. if children_states s ! i = REQUESTED then (kids s ! i)\<lparr>k_usr1 := True\<rparr> else kids s ! i)
                 [0..<length (kids s)]\<rparr>"

definition usr1_handler :: "int \<Rightarrow> nat \<Rightarrow> req_sys \<Rightarrow> req_sys" where
  "usr1_handler request_threshold sender s =
     (let s1 = s\<lparr>request_count := request_count s + 1,
                 children_states := (if sender < known s then (children_states s)[sender := REQUESTED] else children_states s)\<rparr>
      in if request_count s1 < request_threshold then s1 else give_permissions s1)"

text \<open>
  An interrupt kills every child that has not terminated; before all process ids are stored it
  reads ones that are not there.
\<close>

definition int_handler :: "req_sys \<Rightarrow> req_sys outcome" where
  "int_handler s =
     (if \<exists>i \<in> {known s..<length (children_states s)}. children_states s ! i \<noteq> TERMINATED then Out_Of_Bounds
      else Cont (s\<lparr>par := P_Exit, children_states := map (\<lambda>c. TERMINATED) (children_states s),
                   kids := map (\<lambda>k. if k_pc k = K_Reaped then k else k\<lparr>k_pc := K_Exited\<rparr>) (kids s)\<rparr>))"

definition child_terminated :: "nat \<Rightarrow> req_sys \<Rightarrow> req_sys" where
  "child_terminated i s =
     (let s1 = s\<lparr>kids := (kids s)[i := (kids s ! i)\<lparr>k_pc := K_Reaped\<rparr>],
                 children_states := (if i < known s then (children_states s)[i := TERMINATED] else children_states s)\<rparr>
      in if all_children_terminated s1 then s1\<lparr>par := P_Exit\<rparr> else s1)"

text \<open>
  What can happen next: the parent starts a child and stores its process id, handles a request,
  or learns that a child has exited or that there is none; a child sends its request, or receives
  the answer.
\<close>

datatype req_event = A_Fork | A_Store | A_Request | A_Reap nat | A_No_Child | A_Send nat | A_Answer nat

definition req_act :: "nat \<Rightarrow> int \<Rightarrow> req_event \<Rightarrow> req_sys \<Rightarrow> req_sys option" where
  "req_act children_count request_threshold a s =
     (case a of
        A_Fork \<Rightarrow>
          (case par s of
             P_Fork i \<Rightarrow> Some (s\<lparr>par := P_Store i, kids := kids s @ [\<lparr>k_pc = K_Sleep, k_usr1 = False\<rparr>]\<rparr>)
           | _ \<Rightarrow> None)
      | A_Store \<Rightarrow>
          (case par s of
             P_Store i \<Rightarrow> Some (s\<lparr>par := (if i + 1 < children_count then P_Fork (i + 1) else P_Wait), known := i + 1\<rparr>)
           | _ \<Rightarrow> None)
      | A_Request \<Rightarrow>
          (case usr1_pending s of
             Some sender \<Rightarrow>
               if par s = P_Exit then None else Some (usr1_handler request_threshold sender (s\<lparr>usr1_pending := None\<rparr>))
           | None \<Rightarrow> None)
      | A_Reap i \<Rightarrow>
          (if par s = P_Wait \<and> i < length (kids s) \<and> k_pc (kids s ! i) = K_Exited then Some (child_terminated i s) else None)
      | A_No_Child \<Rightarrow>
          (if par s = P_Wait \<and> (\<forall>k \<in> set (kids s). k_pc k = K_Reaped) then Some (s\<lparr>par := P_Exit\<rparr>) else None)
      | A_Send i \<Rightarrow>
          (if i < length (kids s) \<and> k_pc (kids s ! i) = K_Sleep
           then Some (s\<lparr>kids := (kids s)[i := (kids s ! i)\<lparr>k_pc := K_Pause\<rparr>],
                        usr1_pending := (if usr1_pending s = None then Some i else usr1_pending s)\<rparr>)
           else None)
      | A_Answer i \<Rightarrow>
          (if i < length (kids s) \<and> k_pc (kids s ! i) = K_Pause \<and> k_usr1 (kids s ! i)
           then Some (s\<lparr>kids := (kids s)[i := \<lparr>k_pc = K_Exited, k_usr1 = False\<rparr>]\<rparr>)
           else None))"

definition req_init :: "nat \<Rightarrow> req_sys" where
  "req_init children_count =
     \<lparr>par = (if children_count = 0 then P_Wait else P_Fork 0), request_count = 0,
      children_states = replicate children_count RUNNING, known = 0, usr1_pending = None, kids = []\<rparr>"

text \<open>
  A request is in time when the parent knows the child and has no other request pending.
\<close>

definition in_time :: "req_event \<Rightarrow> req_sys \<Rightarrow> bool" where
  "in_time a s = (case a of A_Send i \<Rightarrow> usr1_pending s = None \<and> i < known s | _ \<Rightarrow> True)"

definition req_step :: "nat \<Rightarrow> int \<Rightarrow> req_sys \<Rightarrow> req_sys \<Rightarrow> bool" where
  "req_step n th s s' = (\<exists>a. req_act n th a s = Some s')"

definition timely_step :: "nat \<Rightarrow> int \<Rightarrow> req_sys \<Rightarrow> req_sys \<Rightarrow> bool" where
  "timely_step n th s s' = (\<exists>a. req_act n th a s = Some s' \<and> in_time a s)"

fun req_run :: "nat \<Rightarrow> int \<Rightarrow> req_event list \<Rightarrow> req_sys \<Rightarrow> req_sys option" where
  "req_run n th [] s = Some s"
| "req_run n th (a # as) s = (case req_act n th a s of None \<Rightarrow> None | Some s' \<Rightarrow> req_run n th as s')"

subsection \<open>Invariant\<close>

definition kid_fine :: "bool \<Rightarrow> kid \<Rightarrow> chld_state \<Rightarrow> bool" where
  "kid_fine pending k c =
     (case k_pc k of
        K_Sleep \<Rightarrow> \<not> k_usr1 k \<and> c = RUNNING \<and> \<not> pending
      | K_Pause \<Rightarrow>
          if pending then \<not> k_usr1 k \<and> c = RUNNING
          else (c = REQUESTED \<and> \<not> k_usr1 k) \<or> (c = RUNNING \<and> k_usr1 k)
      | K_Exited \<Rightarrow> c = RUNNING \<and> \<not> pending
      | K_Reaped \<Rightarrow> c = TERMINATED \<and> \<not> pending)"

definition kid_ok :: "req_sys \<Rightarrow> nat \<Rightarrow> bool" where
  "kid_ok s j = kid_fine (usr1_pending s = Some j) (kids s ! j) (children_states s ! j)"

definition asked :: "kid \<Rightarrow> nat" where
  "asked k = (if k_pc k = K_Sleep then 0 else 1)"

definition par_ok :: "nat \<Rightarrow> req_sys \<Rightarrow> bool" where
  "par_ok n s =
     (case par s of
        P_Fork i \<Rightarrow> i < n \<and> length (kids s) = i \<and> known s = i
      | P_Store i \<Rightarrow> i < n \<and> length (kids s) = i + 1 \<and> known s = i
      | P_Wait \<Rightarrow> length (kids s) = n \<and> known s = n
      | P_Exit \<Rightarrow> length (kids s) = n \<and> known s = n \<and> (\<forall>j < n. children_states s ! j = TERMINATED))"

definition req_inv :: "nat \<Rightarrow> int \<Rightarrow> req_sys \<Rightarrow> bool" where
  "req_inv n th s =
     (length (children_states s) = n \<and> par_ok n s \<and> (\<forall>j < length (kids s). kid_ok s j) \<and>
      (\<forall>j. length (kids s) \<le> j \<longrightarrow> j < n \<longrightarrow> children_states s ! j = RUNNING) \<and>
      (\<forall>j. usr1_pending s = Some j \<longrightarrow> j < known s) \<and>
      request_count s + (if usr1_pending s = None then 0 else 1) = int (total asked (kids s)) \<and>
      (REQUESTED \<in> set (children_states s) \<longrightarrow> request_count s < th))"


lemma req_inv_init: "req_inv n th (req_init n)"
  by (auto simp: req_inv_def req_init_def par_ok_def)

lemma req_inv_len:
  assumes "req_inv n th s"
  shows "known s \<le> length (kids s) \<and> length (kids s) \<le> n \<and> length (children_states s) = n"
  using assms by (auto simp: req_inv_def par_ok_def split: par_pc.splits)

lemma req_inv_fork:
  assumes "req_inv n th s" and "req_act n th A_Fork s = Some s'"
  shows "req_inv n th s'"
proof -
  obtain i where i: "par s = P_Fork i" and s': "s' = s\<lparr>par := P_Store i, kids := kids s @ [\<lparr>k_pc = K_Sleep, k_usr1 = False\<rparr>]\<rparr>"
    using assms(2) by (auto simp: req_act_def split: par_pc.splits)
  have l: "i < n" "length (kids s) = i" "known s = i" using assms(1) i by (simp_all add: req_inv_def par_ok_def)
  have "kid_ok s' j" if "j < Suc i" for j
  proof (cases "j < i")
    case True
    then show ?thesis using assms(1) l by (simp add: s' req_inv_def kid_ok_def kid_fine_def nth_append)
  next
    case False
    then have "j = i" using that by simp
    then show ?thesis using assms(1) l by (auto simp: s' req_inv_def kid_ok_def kid_fine_def)
  qed
  then show ?thesis using assms(1) l by (auto simp: req_inv_def s' par_ok_def asked_def)
qed

lemma req_inv_store:
  assumes "req_inv n th s" and "req_act n th A_Store s = Some s'"
  shows "req_inv n th s'"
proof -
  obtain i where i: "par s = P_Store i" and s': "s' = s\<lparr>par := (if i + 1 < n then P_Fork (i + 1) else P_Wait), known := i + 1\<rparr>"
    using assms(2) by (auto simp: req_act_def split: par_pc.splits)
  have "kid_ok s' j = kid_ok s j" for j by (simp add: s' kid_ok_def kid_fine_def)
  then show ?thesis using assms(1) i by (auto simp: req_inv_def s' par_ok_def)
qed

text \<open>A child moves: the others are as they were.\<close>

lemma req_inv_kid:
  assumes "req_inv n th s" and "i < length (kids s)"
    and "s' = s\<lparr>kids := (kids s)[i := k], usr1_pending := p, children_states := (children_states s)[i := c], par := q\<rparr>"
    and "kid_ok s' i" and "par_ok n s'" and "\<And>j. j \<noteq> i \<Longrightarrow> p = Some j \<longleftrightarrow> usr1_pending s = Some j"
    and "\<And>j. p = Some j \<Longrightarrow> j < known s"
    and "(if p = None then 0 else 1) + asked (kids s ! i) = asked k + (if usr1_pending s = None then 0 else 1)"
    and "c \<noteq> REQUESTED \<or> children_states s ! i = REQUESTED"
  shows "req_inv n th s'"
proof -
  have l: "length (kids s) \<le> n" "length (children_states s) = n" using req_inv_len [OF assms(1)] by simp_all
  have "kid_ok s' j" if "j < length (kids s)" for j
  proof (cases "j = i")
    case False
    then have "kid_ok s' j = kid_ok s j" using assms(6) by (simp add: assms(3) kid_ok_def)
    then show ?thesis using assms(1) that by (simp add: req_inv_def)
  qed (simp add: assms(4))
  moreover have "total asked ((kids s)[i := k]) + asked (kids s ! i) = total asked (kids s) + asked k"
    by (rule total_update [OF assms(2)])
  moreover have "REQUESTED \<in> set (children_states s)" if "REQUESTED \<in> set ((children_states s)[i := c])"
    using that assms(2,9) l set_update_subset_insert [of "children_states s" i c] by (metis insertE nth_mem order_less_le_trans subsetD)
  moreover have "(children_states s)[i := c] ! j = RUNNING" if "length (kids s) \<le> j" "j < n" for j
    using assms(1,2) that by (auto simp: req_inv_def)
  ultimately show ?thesis using assms(1,5,7,8) l by (auto simp: req_inv_def assms(3) split: if_splits)
qed

lemma req_inv_send:
  assumes "req_inv n th s" and "req_act n th (A_Send i) s = Some s'" and "in_time (A_Send i) s"
  shows "req_inv n th s'"
proof -
  have i: "i < length (kids s)" "k_pc (kids s ! i) = K_Sleep" and t: "usr1_pending s = None" "i < known s"
    and s': "s' = s\<lparr>kids := (kids s)[i := (kids s ! i)\<lparr>k_pc := K_Pause\<rparr>], usr1_pending := Some i\<rparr>"
    using assms(2,3) by (auto simp: req_act_def in_time_def split: if_splits)
  have k: "\<not> k_usr1 (kids s ! i)" "children_states s ! i = RUNNING" using assms(1) i by (auto simp: req_inv_def kid_ok_def kid_fine_def)
  have eq: "s' = s\<lparr>kids := (kids s)[i := (kids s ! i)\<lparr>k_pc := K_Pause\<rparr>], usr1_pending := Some i,
      children_states := (children_states s)[i := children_states s ! i], par := par s\<rparr>"
    by (simp add: s')
  show ?thesis using assms(1) i t k
    by (intro req_inv_kid [OF assms(1) i(1) eq]) (auto simp: s' kid_ok_def kid_fine_def par_ok_def req_inv_def asked_def split: par_pc.splits)
qed

lemma req_inv_answer:
  assumes "req_inv n th s" and "req_act n th (A_Answer i) s = Some s'"
  shows "req_inv n th s'"
proof -
  have i: "i < length (kids s)" "k_pc (kids s ! i) = K_Pause" "k_usr1 (kids s ! i)"
    and s': "s' = s\<lparr>kids := (kids s)[i := \<lparr>k_pc = K_Exited, k_usr1 = False\<rparr>]\<rparr>"
    using assms(2) by (auto simp: req_act_def split: if_splits)
  have k: "usr1_pending s \<noteq> Some i" "children_states s ! i = RUNNING" using assms(1) i by (auto simp: req_inv_def kid_ok_def kid_fine_def split: if_splits)
  have eq: "s' = s\<lparr>kids := (kids s)[i := \<lparr>k_pc = K_Exited, k_usr1 = False\<rparr>], usr1_pending := usr1_pending s,
      children_states := (children_states s)[i := children_states s ! i], par := par s\<rparr>"
    by (simp add: s')
  show ?thesis using assms(1) i k
    by (intro req_inv_kid [OF assms(1) i(1) eq]) (auto simp: s' kid_ok_def kid_fine_def par_ok_def req_inv_def asked_def split: par_pc.splits)
qed

lemma req_inv_reap:
  assumes "req_inv n th s" and "req_act n th (A_Reap i) s = Some s'"
  shows "req_inv n th s'"
proof -
  have i: "i < length (kids s)" "k_pc (kids s ! i) = K_Exited" "par s = P_Wait" and s': "s' = child_terminated i s"
    using assms(2) by (auto simp: req_act_def split: if_splits)
  have k: "usr1_pending s \<noteq> Some i" using assms(1) i by (auto simp: req_inv_def kid_ok_def kid_fine_def)
  have l: "known s = n" "length (kids s) = n" "length (children_states s) = n" using assms(1) i(3) by (auto simp: req_inv_def par_ok_def)
  define t where "t = s\<lparr>kids := (kids s)[i := (kids s ! i)\<lparr>k_pc := K_Reaped\<rparr>], children_states := (children_states s)[i := TERMINATED]\<rparr>"
  have s'': "s' = (if all_children_terminated t then t\<lparr>par := P_Exit\<rparr> else t)" using s' l i(1) by (simp add: child_terminated_def t_def Let_def)
  have eq: "s' = s\<lparr>kids := (kids s)[i := (kids s ! i)\<lparr>k_pc := K_Reaped\<rparr>], usr1_pending := usr1_pending s,
      children_states := (children_states s)[i := TERMINATED], par := par s'\<rparr>"
    by (simp add: s'' t_def)
  have "par_ok n s'" using l i by (auto simp: s'' par_ok_def t_def all_children_terminated_def)
  moreover have "kid_ok s' i" using k i l by (simp add: s'' t_def kid_ok_def kid_fine_def)
  ultimately show ?thesis using assms(1) i k
    by (intro req_inv_kid [OF assms(1) i(1) eq]) (auto simp: req_inv_def asked_def)
qed


lemma total_granted:
  "total asked (map (\<lambda>i. if P i then (ks ! i)\<lparr>k_usr1 := True\<rparr> else ks ! i) [0..<length ks]) = total asked ks"
proof -
  have "map asked (map (\<lambda>i. if P i then (ks ! i)\<lparr>k_usr1 := True\<rparr> else ks ! i) [0..<length ks]) = map asked ks"
    by (rule nth_equalityI) (auto simp: asked_def)
  then show ?thesis by (simp only: total_def)
qed

lemma req_inv_request:
  assumes "req_inv n th s" and "req_act n th A_Request s = Some s'"
  shows "req_inv n th s'"
proof -
  obtain j where j: "usr1_pending s = Some j" and ne: "par s \<noteq> P_Exit" and s': "s' = usr1_handler th j (s\<lparr>usr1_pending := None\<rparr>)"
    using assms(2) by (auto simp: req_act_def split: option.splits if_splits)
  have l: "known s \<le> length (kids s)" "length (kids s) \<le> n" "length (children_states s) = n" using req_inv_len [OF assms(1)] by simp_all
  have jk: "j < known s" "j < length (kids s)" using assms(1) j l by (auto simp: req_inv_def)
  define s1 where "s1 = s\<lparr>usr1_pending := None, request_count := request_count s + 1, children_states := (children_states s)[j := REQUESTED]\<rparr>"
  have k1: "kid_ok s1 i" if "i < length (kids s)" for i
  proof (cases "i = j")
    case True
    have "kid_ok s j" using assms(1) jk(2) by (simp add: req_inv_def)
    then show ?thesis using True j jk l by (simp add: s1_def kid_ok_def kid_fine_def split: kid_pc.splits)
  next
    case False
    have "kid_ok s i" using assms(1) that by (simp add: req_inv_def)
    then show ?thesis using False j by (simp add: s1_def kid_ok_def)
  qed
  have rest: "children_states s1 ! i = RUNNING" if "length (kids s) \<le> i" "i < n" for i
    using assms(1) that jk by (auto simp: s1_def req_inv_def)
  have cnt: "request_count s1 = int (total asked (kids s))" using assms(1) j by (simp add: s1_def req_inv_def)
  have p1: "par_ok n s1" using assms(1) ne by (auto simp: s1_def req_inv_def par_ok_def split: par_pc.splits)
  show ?thesis
  proof (cases "request_count s1 < th")
    case True
    then have "s' = s1" using s' jk by (simp add: usr1_handler_def s1_def Let_def)
    then show ?thesis using k1 rest cnt p1 True l by (simp add: req_inv_def) (simp add: s1_def)
  next
    case False
    then have g: "s' = give_permissions s1" using s' jk by (simp add: usr1_handler_def s1_def Let_def)
    have "kid_ok s' i" if "i < length (kids s)" for i
      using k1 [OF that] that l by (auto simp: g give_permissions_def s1_def kid_ok_def kid_fine_def split: kid_pc.splits)
    moreover have "children_states s' ! i = RUNNING" if "length (kids s) \<le> i" "i < n" for i
      using rest [OF that] that l by (simp add: g give_permissions_def) (simp add: s1_def)
    moreover have "REQUESTED \<notin> set (children_states s')" by (auto simp: g give_permissions_def)
    moreover have "par_ok n s'" using p1 ne by (auto simp: g give_permissions_def par_ok_def s1_def split: par_pc.splits)
    moreover have "request_count s' = int (total asked (kids s'))" using cnt by (simp add: g give_permissions_def total_granted) (simp add: s1_def)
    moreover have "usr1_pending s' = None" "length (kids s') = length (kids s)" "length (children_states s') = n"
      using l by (simp_all add: g give_permissions_def s1_def)
    ultimately show ?thesis by (simp add: req_inv_def)
  qed
qed

lemma req_inv_no_child:
  assumes "req_inv n th s" and "req_act n th A_No_Child s = Some s'"
  shows "req_inv n th s'"
proof -
  have w: "par s = P_Wait" and r: "\<forall>k \<in> set (kids s). k_pc k = K_Reaped" and s': "s' = s\<lparr>par := P_Exit\<rparr>"
    using assms(2) by (auto simp: req_act_def split: if_splits)
  have l: "length (kids s) = n" "known s = n" using assms(1) w by (auto simp: req_inv_def par_ok_def)
  have "children_states s ! j = TERMINATED" if "j < n" for j
  proof -
    have "kid_ok s j" "k_pc (kids s ! j) = K_Reaped" using assms(1) l r that by (auto simp: req_inv_def)
    then show ?thesis by (simp add: kid_ok_def kid_fine_def)
  qed
  then show ?thesis using assms(1) l by (simp add: req_inv_def s' par_ok_def kid_ok_def)
qed

lemma req_inv_step: "req_inv n th s \<Longrightarrow> timely_step n th s s' \<Longrightarrow> req_inv n th s'"
proof -
  assume inv: "req_inv n th s" and "timely_step n th s s'"
  then obtain a where a: "req_act n th a s = Some s'" "in_time a s" by (auto simp: timely_step_def)
  show "req_inv n th s'"
    using a inv by (cases a) (auto intro: req_inv_fork req_inv_store req_inv_request req_inv_reap req_inv_no_child req_inv_send req_inv_answer)
qed

subsection \<open>Every timely run ends\<close>

fun kid_weight :: "kid_pc \<Rightarrow> nat" where
  "kid_weight K_Sleep = 4"
| "kid_weight K_Pause = 2"
| "kid_weight K_Exited = 1"
| "kid_weight K_Reaped = 0"

fun par_weight :: "nat \<Rightarrow> par_pc \<Rightarrow> nat" where
  "par_weight n (P_Fork i) = 6 * (n - i) + 1"
| "par_weight n (P_Store i) = 6 * (n - i) - 4"
| "par_weight n P_Wait = 1"
| "par_weight n P_Exit = 0"

definition req_left :: "nat \<Rightarrow> req_sys \<Rightarrow> nat" where
  "req_left n s = par_weight n (par s) + total (\<lambda>k. kid_weight (k_pc k)) (kids s) + (if usr1_pending s = None then 0 else 1)"

lemma total_weight_granted:
  "total (\<lambda>k. kid_weight (k_pc k)) (map (\<lambda>i. if P i then (ks ! i)\<lparr>k_usr1 := True\<rparr> else ks ! i) [0..<length ks]) =
     total (\<lambda>k. kid_weight (k_pc k)) ks"
proof -
  have "map (\<lambda>k. kid_weight (k_pc k)) (map (\<lambda>i. if P i then (ks ! i)\<lparr>k_usr1 := True\<rparr> else ks ! i) [0..<length ks]) =
      map (\<lambda>k. kid_weight (k_pc k)) ks"
    by (rule nth_equalityI) auto
  then show ?thesis by (simp only: total_def)
qed

lemma req_left_granted: "req_left n (give_permissions s) = req_left n s"
  by (simp add: req_left_def give_permissions_def total_weight_granted)

lemma req_left_step:
  assumes "req_inv n th s" and "req_act n th a s = Some s'" and "in_time a s"
  shows "req_left n s' < req_left n s"
proof -
  have u: "total (\<lambda>k. kid_weight (k_pc k)) ((kids s)[i := k]) + kid_weight (k_pc (kids s ! i)) =
      total (\<lambda>k. kid_weight (k_pc k)) (kids s) + kid_weight (k_pc k)" if "i < length (kids s)" for i k
    using total_update [OF that, of "\<lambda>k. kid_weight (k_pc k)"] .
  have p: "par_ok n s" using assms(1) by (simp add: req_inv_def)
  show ?thesis
  proof (cases a)
    case A_Fork
    then show ?thesis using assms(2) p by (auto simp: req_act_def req_left_def par_ok_def split: par_pc.splits)
  next
    case A_Store
    then show ?thesis using assms(2) p by (auto simp: req_act_def req_left_def par_ok_def split: par_pc.splits if_splits)
  next
    case A_Request
    then obtain j where "usr1_pending s = Some j" "s' = usr1_handler th j (s\<lparr>usr1_pending := None\<rparr>)"
      using assms(2) by (auto simp: req_act_def split: option.splits if_splits)
    then show ?thesis by (simp add: usr1_handler_def Let_def req_left_granted) (simp add: req_left_def)
  next
    case (A_Reap i)
    then show ?thesis using assms(2) u [of i "(kids s ! i)\<lparr>k_pc := K_Reaped\<rparr>"]
      by (auto simp: req_act_def req_left_def child_terminated_def Let_def split: if_splits)
  next
    case A_No_Child
    then show ?thesis using assms(2) by (auto simp: req_act_def req_left_def split: if_splits)
  next
    case (A_Send i)
    then show ?thesis using assms(2,3) u [of i "(kids s ! i)\<lparr>k_pc := K_Pause\<rparr>"]
      by (auto simp: req_act_def req_left_def in_time_def split: if_splits)
  next
    case (A_Answer i)
    then show ?thesis using assms(2) u [of i "\<lparr>k_pc = K_Exited, k_usr1 = False\<rparr>"]
      by (auto simp: req_act_def req_left_def split: if_splits)
  qed
qed

interpretation timely: terminating_system "timely_step n th" "req_inv n th" "req_left n" for n th
proof
  fix s s'
  assume inv: "req_inv n th s" and step: "timely_step n th s s'"
  then show "req_inv n th s'" by (rule req_inv_step)
  show "req_left n s' < req_left n s" using inv step req_left_step by (auto simp: timely_step_def)
qed


text \<open>Where no timely step is left, everybody has been served.\<close>

lemma timely_end:
  assumes inv: "req_inv n th s" and fin: "\<forall>u. \<not> timely_step n th s u" and th: "th \<le> int n"
  shows "par s = P_Exit \<and> (\<forall>k \<in> set (kids s). k_pc k = K_Reaped)"
proof -
  have no: "req_act n th a s = None" if "in_time a s" for a
    using fin that by (metis not_Some_eq timely_step_def)
  have par: "par s = P_Wait \<or> par s = P_Exit"
    using no [of A_Fork] no [of A_Store] by (auto simp: req_act_def in_time_def split: par_pc.splits)
  then have l: "length (kids s) = n" "known s = n" using inv by (auto simp: req_inv_def par_ok_def split: par_pc.splits)
  have r: "k_pc (kids s ! j) = K_Reaped" if "j < n" for j
  proof (cases "par s = P_Exit")
    case True
    then have "children_states s ! j = TERMINATED" "kid_ok s j" using inv that l by (auto simp: req_inv_def par_ok_def)
    then show ?thesis by (auto simp: kid_ok_def kid_fine_def split: kid_pc.splits if_splits)
  next
    case False
    then have w: "par s = P_Wait" using par by simp
    have p: "usr1_pending s = None" using no [of A_Request] w by (auto simp: req_act_def in_time_def split: option.splits)
    have ns: "k_pc (kids s ! i) \<noteq> K_Sleep" if "i < n" for i
      using no [of "A_Send i"] that l p by (auto simp: req_act_def in_time_def)
    then have "total asked (kids s) = total (\<lambda>k. 1) (kids s)"
      using l unfolding total_def by (intro arg_cong [of _ _ sum_list] map_cong) (auto simp: asked_def in_set_conv_nth)
    then have "request_count s = int n" using inv p l by (simp add: req_inv_def total_def sum_list_triv)
    then have "REQUESTED \<notin> set (children_states s)" using inv th by (auto simp: req_inv_def)
    moreover have "length (children_states s) = n" "kid_ok s j" using inv that l by (auto simp: req_inv_def)
    ultimately have "children_states s ! j \<noteq> REQUESTED" using that by (metis nth_mem)
    then show ?thesis using \<open>kid_ok s j\<close> no [of "A_Reap j"] no [of "A_Answer j"] ns [OF that] w p l that
      by (auto simp: kid_ok_def kid_fine_def req_act_def in_time_def split: kid_pc.splits)
  qed
  then have "\<forall>k \<in> set (kids s). k_pc k = K_Reaped" using l by (auto simp: in_set_conv_nth)
  then show ?thesis using par no [of A_No_Child] by (auto simp: req_act_def in_time_def)
qed

lemma req_run_reachable: "req_run n th as s = Some t \<Longrightarrow> (req_step n th)\<^sup>*\<^sup>* s t"
proof (induction as arbitrary: s)
  case (Cons a as)
  then obtain r where "req_act n th a s = Some r" "req_run n th as r = Some t" by (auto split: option.splits)
  then show ?case using Cons.IH by (meson converse_rtranclp_into_rtranclp req_step_def)
qed simp

lemma req_stuck_iff: "(\<forall>u. \<not> req_step n th s u) \<longleftrightarrow> (\<forall>a. req_act n th a s = None)"
  unfolding req_step_def by (metis not_Some_eq)

subsection \<open>Properties\<close>

text \<open>
  When the threshold does not exceed the number of children and no two requests meet, every
  run can go on until the parent exits, and it ends only there: all children have then been
  answered, have exited and have been waited for.
\<close>

theorem requests_all_served:
  assumes "th \<le> int n" and "(timely_step n th)\<^sup>*\<^sup>* (req_init n) s"
  shows "(\<exists>t. (timely_step n th)\<^sup>*\<^sup>* s t \<and> par t = P_Exit) \<and>
    ((\<forall>u. \<not> timely_step n th s u) \<longrightarrow> par s = P_Exit \<and> (\<forall>k \<in> set (kids s). k_pc k = K_Reaped))"
proof -
  have inv: "req_inv n th s" using timely.reachable_inv [OF assms(2) req_inv_init] .
  then obtain t where t: "(timely_step n th)\<^sup>*\<^sup>* s t" "\<forall>u. \<not> timely_step n th t u" using timely.reaches_end by blast
  then have "par t = P_Exit" using timely_end [OF timely.reachable_inv [OF t(1) inv] t(2) assms(1)] by blast
  then show ?thesis using t(1) timely_end [OF inv _ assms(1)] by blast
qed

theorem requests_all_served_witness:
  "\<exists>t. (timely_step 2 1)\<^sup>*\<^sup>* (req_init 2) t \<and> par t = P_Exit"
  using requests_all_served [of 1 2 "req_init 2"] by simp

text \<open>
  Two children whose requests meet: the second signal is lost in the pending one.  The second
  child waits for an answer that never comes, and the parent waits for the child.
\<close>

theorem requests_lost:
  "\<exists>s. (req_step 2 1)\<^sup>*\<^sup>* (req_init 2) s \<and> (\<forall>u. \<not> req_step 2 1 s u) \<and> par s = P_Wait \<and>
     map k_pc (kids s) = [K_Reaped, K_Pause] \<and> request_count s = 1"
proof -
  let ?as = "[A_Fork, A_Store, A_Fork, A_Store, A_Send 0, A_Send 1, A_Request, A_Answer 0, A_Reap 0]"
  define s where "s = \<lparr>par = P_Wait, request_count = 1, children_states = [TERMINATED, RUNNING], known = 2, usr1_pending = None,
      kids = [\<lparr>k_pc = K_Reaped, k_usr1 = False\<rparr>, \<lparr>k_pc = K_Pause, k_usr1 = False\<rparr>]\<rparr>"
  have run: "req_run 2 1 ?as (req_init 2) = Some s"
    by (simp add: req_init_def req_act_def usr1_handler_def give_permissions_def child_terminated_def all_children_terminated_def
        s_def numeral_2_eq_2)
  have stuck: "req_act 2 1 a s = None" for a
    by (cases a) (auto simp: req_act_def s_def nth_Cons' split: if_splits)
  have "(req_step 2 1)\<^sup>*\<^sup>* (req_init 2) s" by (rule req_run_reachable [OF run])
  moreover have "\<forall>u. \<not> req_step 2 1 s u" unfolding req_stuck_iff using stuck by simp
  moreover have "par s = P_Wait" "map k_pc (kids s) = [K_Reaped, K_Pause]" "request_count s = 1" by (simp_all add: s_def)
  ultimately show ?thesis by (intro exI [of _ s] conjI)
qed

end
