(* ===== verification/Signal_Reports.thy ===== *)
theory Signal_Reports
  imports Signal_Requests
begin

text \<open>
  The program of \<open>cw04/zad2\<close> from its command line, with the real-time signal every child sends before it
  exits and with what the parent prints.  Real-time signals are queued; when \<open>wait\<close> tells that a child has
  exited the parent has handled the signal of that child.  Children are numbered; their process ids, the
  numbers of the signals and the seconds they draw, with which they exit, are parameters.
\<close>

definition strtol2 :: "string \<Rightarrow> int" where
  "strtol2 s =
     (let t = dropWhile isspace s;
          neg = (t \<noteq> [] \<and> hd t = CHR ''-'');
          u = (if t \<noteq> [] \<and> (hd t = CHR ''-'' \<or> hd t = CHR ''+'') then tl t else t);
          n = foldl (\<lambda>a c. 2 * a + digit c) 0 (takeWhile (\<lambda>c. c = CHR ''0'' \<or> c = CHR ''1'') u)
      in max (- (2 ^ 63)) (min (2 ^ 63 - 1) (if neg then - n else n)))"

abbreviation (input) INFO_CHLDPID :: int where "INFO_CHLDPID \<equiv> 16"
abbreviation (input) INFO_REQUESTS :: int where "INFO_REQUESTS \<equiv> 8"
abbreviation (input) INFO_PERMS :: int where "INFO_PERMS \<equiv> 4"
abbreviation (input) INFO_SIGRT :: int where "INFO_SIGRT \<equiv> 2"
abbreviation (input) INFO_TERM :: int where "INFO_TERM \<equiv> 1"

datatype report = Created nat | Requested nat | Permitted nat | Realtime nat nat | Ended nat

definition print_report :: "int \<Rightarrow> (nat \<Rightarrow> int) \<Rightarrow> (nat \<Rightarrow> int) \<Rightarrow> report \<Rightarrow> string" where
  "print_report flags pid seconds r =
     (case r of
        Created i \<Rightarrow> if and flags INFO_CHLDPID \<noteq> 0 then ''Child created with PID '' @ print_d (pid i) @ [NL] else []
      | Requested i \<Rightarrow> if and flags INFO_REQUESTS \<noteq> 0 then ''Got request from PID '' @ print_d (pid i) @ [NL] else []
      | Permitted i \<Rightarrow> if and flags INFO_PERMS \<noteq> 0 then ''Gave permissions to '' @ print_d (pid i) @ [NL] else []
      | Realtime g i \<Rightarrow>
          if and flags INFO_SIGRT \<noteq> 0 then ''Got real-time signal '' @ print_d (int g) @ '' from PID '' @ print_d (pid i) @ [NL] else []
      | Ended i \<Rightarrow>
          if and flags INFO_TERM \<noteq> 0
          then ''Child terminated with PID '' @ print_d (pid i) @ '' and status '' @ print_d (seconds i) @ [NL] else [])"

text \<open>Every digit of the third argument switches one kind of report on, as the usage says.\<close>

definition on :: "bool \<Rightarrow> char" where
  "on b = (if b then CHR ''1'' else CHR ''0'')"

lemma on_facts:
  "on x = CHR ''0'' \<or> on x = CHR ''1''" "digit (on x) = of_bool x" "\<not> isspace (on x)" "on x \<noteq> CHR ''-''" "on x \<noteq> CHR ''+''"
  by (simp_all add: on_def digit_def isspace_def)

lemma strtol2_switches:
  "to_int (strtol2 [on a, on b, on c, on d, on e]) = 16 * of_bool a + 8 * of_bool b + 4 * of_bool c + 2 * of_bool d + of_bool e"
  (is "_ = ?v")
proof -
  have v: "0 \<le> ?v" "?v \<le> 31" by (simp_all add: of_bool_def)
  have "strtol2 [on a, on b, on c, on d, on e] = max (- (2 ^ 63)) (min (2 ^ 63 - 1) ?v)"
    by (simp add: strtol2_def on_facts)
  then have "strtol2 [on a, on b, on c, on d, on e] = ?v" using v by simp
  then show ?thesis using v by simp
qed

lemma print_report_switches:
  fixes a b c d e :: bool
  defines "flags \<equiv> to_int (strtol2 [on a, on b, on c, on d, on e])"
  shows "print_report flags pid seconds (Created i) \<noteq> [] \<longleftrightarrow> a" "print_report flags pid seconds (Requested i) \<noteq> [] \<longleftrightarrow> b"
    "print_report flags pid seconds (Permitted i) \<noteq> [] \<longleftrightarrow> c" "print_report flags pid seconds (Realtime g i) \<noteq> [] \<longleftrightarrow> d"
    "print_report flags pid seconds (Ended i) \<noteq> [] \<longleftrightarrow> e"
proof -
  have f: "flags = 16 * of_bool a + 8 * of_bool b + 4 * of_bool c + 2 * of_bool d + of_bool e"
    by (simp add: flags_def strtol2_switches)
  show "print_report flags pid seconds (Created i) \<noteq> [] \<longleftrightarrow> a" "print_report flags pid seconds (Requested i) \<noteq> [] \<longleftrightarrow> b"
    "print_report flags pid seconds (Permitted i) \<noteq> [] \<longleftrightarrow> c" "print_report flags pid seconds (Realtime g i) \<noteq> [] \<longleftrightarrow> d"
    "print_report flags pid seconds (Ended i) \<noteq> [] \<longleftrightarrow> e"
    unfolding f by (cases a; cases b; cases c; cases d; cases e; simp add: print_report_def)+
qed

subsection \<open>The program\<close>

record rep_sys =
  rq :: req_sys
  rts :: "(nat \<times> nat) list"
  reports :: "report list"

text \<open>The number of children, the threshold and what to print.\<close>

definition requests_main :: "string list \<Rightarrow> (nat \<times> int \<times> int \<times> rep_sys) outcome" where
  "requests_main argv =
     (if length argv \<noteq> 4 then Exit 1
      else
        let children_count = atoi (argv ! 1); request_threshold = atoi (argv ! 2); info_flags = to_int (strtol2 (argv ! 3)) in
        if children_count < request_threshold then Exit (-1)
        else if children_count < 0 then Out_Of_Bounds
        else Cont (nat children_count, request_threshold, info_flags, \<lparr>rq = req_init (nat children_count), rts = [], reports = []\<rparr>))"

definition permitted :: "int \<Rightarrow> nat \<Rightarrow> req_sys \<Rightarrow> nat list" where
  "permitted request_threshold sender s =
     (let states = (if sender < known s then (children_states s)[sender := REQUESTED] else children_states s) in
      if request_count s + 1 < request_threshold then [] else filter (\<lambda>i. states ! i = REQUESTED) [0..<length states])"

definition reported :: "int \<Rightarrow> req_event \<Rightarrow> req_sys \<Rightarrow> report list" where
  "reported request_threshold a s =
     (case a of
        A_Store \<Rightarrow> (case par s of P_Store i \<Rightarrow> [Created i] | _ \<Rightarrow> [])
      | A_Request \<Rightarrow>
          (case usr1_pending s of Some j \<Rightarrow> Requested j # map Permitted (permitted request_threshold j s) | None \<Rightarrow> [])
      | A_Reap i \<Rightarrow> [Ended i]
      | _ \<Rightarrow> [])"

text \<open>
  A child that is answered sends signal \<open>g\<close> unless its parent has gone.
\<close>

datatype rep_event = R_Act req_event nat | R_Handle nat

definition rep_act :: "nat \<Rightarrow> int \<Rightarrow> rep_event \<Rightarrow> rep_sys \<Rightarrow> rep_sys option" where
  "rep_act n th a s =
     (case a of
        R_Act e g \<Rightarrow>
          (if (case e of A_Reap i \<Rightarrow> i \<in> snd ` set (rts s) | _ \<Rightarrow> False) then None
           else
             map_option (\<lambda>q. s\<lparr>rq := q, reports := reports s @ reported th e (rq s),
                 rts := (case e of A_Answer i \<Rightarrow> if par (rq s) = P_Exit then rts s else rts s @ [(g, i)] | _ \<Rightarrow> rts s)\<rparr>)
               (req_act n th e (rq s)))
      | R_Handle k \<Rightarrow>
          (if k < length (rts s) \<and> par (rq s) \<noteq> P_Exit
           then Some (s\<lparr>rts := take k (rts s) @ drop (Suc k) (rts s), reports := reports s @ [Realtime (fst (rts s ! k)) (snd (rts s ! k))]\<rparr>)
           else None))"

definition rep_timely :: "rep_event \<Rightarrow> rep_sys \<Rightarrow> bool" where
  "rep_timely a s = (case a of R_Act e g \<Rightarrow> in_time e (rq s) | R_Handle k \<Rightarrow> True)"

definition rep_step :: "nat \<Rightarrow> int \<Rightarrow> rep_sys \<Rightarrow> rep_sys \<Rightarrow> bool" where
  "rep_step n th s t = (\<exists>a. rep_act n th a s = Some t \<and> rep_timely a s)"

subsection \<open>Invariant\<close>

definition gone :: "kid_pc \<Rightarrow> bool" where
  "gone pc = (pc = K_Exited \<or> pc = K_Reaped)"

definition is_realtime :: "nat \<Rightarrow> report \<Rightarrow> bool" where
  "is_realtime i r = (case r of Realtime g j \<Rightarrow> j = i | _ \<Rightarrow> False)"

definition how_many :: "('a \<Rightarrow> bool) \<Rightarrow> 'a list \<Rightarrow> nat" where
  "how_many P xs = length (filter P xs)"

lemma how_many_simps [simp]:
  "how_many P [] = 0" "how_many P (x # xs) = (if P x then 1 else 0) + how_many P xs" "how_many P (xs @ ys) = how_many P xs + how_many P ys"
  by (simp_all add: how_many_def)

lemma how_many_0: "(\<And>x. x \<in> set xs \<Longrightarrow> \<not> P x) \<Longrightarrow> how_many P xs = 0"
  by (simp add: how_many_def filter_False)

definition reaped :: "kid_pc \<Rightarrow> bool" where
  "reaped pc = (pc = K_Reaped)"

definition at_kid :: "(kid_pc \<Rightarrow> bool) \<Rightarrow> kid_pc list \<Rightarrow> nat \<Rightarrow> bool" where
  "at_kid P ps i = (i < length ps \<and> P (ps ! i))"

abbreviation pcs :: "req_sys \<Rightarrow> kid_pc list" where
  "pcs s \<equiv> map k_pc (kids s)"

definition rep_inv :: "nat \<Rightarrow> int \<Rightarrow> rep_sys \<Rightarrow> bool" where
  "rep_inv n th s \<longleftrightarrow> req_inv n th (rq s) \<and> (\<forall>x \<in> set (rts s). \<not> at_kid reaped (pcs (rq s)) (snd x)) \<and>
     (\<forall>i. how_many (is_realtime i) (reports s) + how_many (\<lambda>x. snd x = i) (rts s) = of_bool (at_kid gone (pcs (rq s)) i)) \<and>
     (\<forall>i. how_many (\<lambda>r. r = Ended i) (reports s) = of_bool (at_kid reaped (pcs (rq s)) i)) \<and>
     (\<forall>i. how_many (\<lambda>r. r = Created i) (reports s) = of_bool (i < known (rq s)))"

lemma at_kid_append [simp]: "at_kid P (ps @ [p]) i = (at_kid P ps i \<or> (i = length ps \<and> P p))"
  by (auto simp: at_kid_def nth_append)

lemma at_kid_update: "k < length ps \<Longrightarrow> at_kid P (ps[k := p]) i = (if i = k then P p else at_kid P ps i)"
  by (auto simp: at_kid_def nth_list_update)

lemma give_permissions_pc: "pcs (give_permissions s) = pcs s"
  by (rule nth_equalityI) (auto simp: give_permissions_def)

lemma usr1_handler_pc: "pcs (usr1_handler th j s) = pcs s \<and> known (usr1_handler th j s) = known s"
  by (simp add: usr1_handler_def Let_def give_permissions_pc) (simp add: give_permissions_def)

text \<open>What an event does to the children.\<close>

lemma req_act_pcs:
  assumes "req_act n th e s = Some t"
  shows "pcs t =
      (case e of A_Fork \<Rightarrow> pcs s @ [K_Sleep] | A_Reap i \<Rightarrow> (pcs s)[i := K_Reaped] | A_Send i \<Rightarrow> (pcs s)[i := K_Pause]
       | A_Answer i \<Rightarrow> (pcs s)[i := K_Exited] | _ \<Rightarrow> pcs s)"
    and "known t = (case e of A_Store \<Rightarrow> (case par s of P_Store i \<Rightarrow> Suc i | _ \<Rightarrow> 0) | _ \<Rightarrow> known s)"
  using assms
  by (auto simp: req_act_def map_update usr1_handler_pc child_terminated_def Let_def
      split: req_event.splits par_pc.splits option.splits if_splits)

lemma req_act_at:
  assumes "req_act n th e s = Some t"
  shows "(case e of A_Reap i \<Rightarrow> i < length (pcs s) \<and> pcs s ! i = K_Exited | A_Send i \<Rightarrow> i < length (pcs s) \<and> pcs s ! i = K_Sleep
      | A_Answer i \<Rightarrow> i < length (pcs s) \<and> pcs s ! i = K_Pause | _ \<Rightarrow> True)"
  using assms by (auto simp: req_act_def split: req_event.splits if_splits)

lemma at_exit:
  assumes "req_inv n th s" and "par s = P_Exit" and "j < length (pcs s)"
  shows "pcs s ! j = K_Reaped"
proof -
  have "kid_ok s j" "children_states s ! j = TERMINATED" using assms by (auto simp: req_inv_def par_ok_def)
  then show ?thesis using assms(3) by (auto simp: kid_ok_def kid_fine_def split: kid_pc.splits if_splits)
qed

lemma reported_count:
  assumes "req_act n th e s = Some t"
  shows "how_many (is_realtime i) (reported th e s) = 0"
    and "how_many (\<lambda>r. r = Ended i) (reported th e s) = of_bool (e = A_Reap i)"
    and "how_many (\<lambda>r. r = Created i) (reported th e s) = of_bool (e = A_Store \<and> par s = P_Store i)"
  using assms
  by (auto simp: reported_def is_realtime_def req_act_def split: req_event.splits par_pc.splits option.splits intro!: how_many_0)


lemma rep_inv_step:
  assumes inv: "rep_inv n th s" and step: "rep_step n th s t"
  shows "rep_inv n th t"
proof -
  obtain a where a: "rep_act n th a s = Some t" "rep_timely a s" using step by (auto simp: rep_step_def)
  show ?thesis
  proof (cases a)
    case (R_Handle k)
    then have k: "k < length (rts s)"
      and t: "t = s\<lparr>rts := take k (rts s) @ drop (Suc k) (rts s), reports := reports s @ [Realtime (fst (rts s ! k)) (snd (rts s ! k))]\<rparr>"
      using a(1) by (auto simp: rep_act_def split: if_splits)
    have "how_many P (rts s) = how_many P (take k (rts s)) + (if P (rts s ! k) then 1 else 0) + how_many P (drop (Suc k) (rts s))" for P
      by (subst id_take_nth_drop [OF k]) simp
    then have "how_many (is_realtime i) (reports t) + how_many (\<lambda>x. snd x = i) (rts t) =
        how_many (is_realtime i) (reports s) + how_many (\<lambda>x. snd x = i) (rts s)" for i
      by (simp add: t is_realtime_def)
    moreover have "how_many (\<lambda>r. r = Ended i) (reports t) = how_many (\<lambda>r. r = Ended i) (reports s)"
      "how_many (\<lambda>r. r = Created i) (reports t) = how_many (\<lambda>r. r = Created i) (reports s)" "rq t = rq s" for i
      by (simp_all add: t)
    moreover have "\<forall>x \<in> set (rts t). x \<in> set (rts s)" by (auto simp: t dest: in_set_takeD in_set_dropD)
    ultimately show ?thesis using inv by (simp add: rep_inv_def)
  next
    case (R_Act e g)
    then obtain q where q: "req_act n th e (rq s) = Some q" and late: "\<not> (case e of A_Reap i \<Rightarrow> i \<in> snd ` set (rts s) | _ \<Rightarrow> False)"
      and t: "t = s\<lparr>rq := q, reports := reports s @ reported th e (rq s),
                 rts := (case e of A_Answer i \<Rightarrow> if par (rq s) = P_Exit then rts s else rts s @ [(g, i)] | _ \<Rightarrow> rts s)\<rparr>"
      using a(1) by (auto simp: rep_act_def split: if_splits)
    have ri: "req_inv n th (rq s)" using inv by (simp add: rep_inv_def)
    then have qi: "req_inv n th q" using req_inv_step [OF ri] q a(2) R_Act by (auto simp: timely_step_def rep_timely_def)
    note facts = req_act_pcs [OF q] req_act_at [OF q] reported_count [OF q]
    show ?thesis
    proof (cases e)
      case A_Fork
      then show ?thesis using inv qi facts by (simp add: rep_inv_def t gone_def reaped_def)
    next
      case A_Store
      then obtain i where "par (rq s) = P_Store i" "known (rq s) = i"
        using q ri by (auto simp: req_act_def req_inv_def par_ok_def split: par_pc.splits)
      then show ?thesis using A_Store inv qi facts by (auto simp: rep_inv_def t less_Suc_eq)
    next
      case A_Request
      then show ?thesis using inv qi facts by (simp add: rep_inv_def t)
    next
      case A_No_Child
      then show ?thesis using inv qi facts by (simp add: rep_inv_def t)
    next
      case (A_Reap i)
      then have "\<not> at_kid reaped (pcs (rq s)) i" "at_kid gone (pcs (rq s)) i" using facts by (auto simp: at_kid_def reaped_def gone_def)
      then show ?thesis using A_Reap inv qi facts late
        by (auto simp: rep_inv_def t at_kid_update gone_def reaped_def)
    next
      case (A_Send i)
      then have "\<not> at_kid reaped (pcs (rq s)) i" "\<not> at_kid gone (pcs (rq s)) i" using facts by (auto simp: at_kid_def reaped_def gone_def)
      then show ?thesis using A_Send inv qi facts
        by (auto simp: rep_inv_def t at_kid_update gone_def reaped_def)
    next
      case (A_Answer i)
      then have n: "\<not> at_kid reaped (pcs (rq s)) i" "\<not> at_kid gone (pcs (rq s)) i" using facts by (auto simp: at_kid_def reaped_def gone_def)
      have "par (rq s) \<noteq> P_Exit" using at_exit [OF ri] facts A_Answer by fastforce
      then show ?thesis using A_Answer inv qi facts n
        by (auto simp: rep_inv_def t at_kid_update gone_def reaped_def)
    qed
  qed
qed

lemma rep_inv_init: "rep_inv n th \<lparr>rq = req_init n, rts = [], reports = []\<rparr>"
  using req_inv_init [of n th] by (simp add: rep_inv_def) (simp add: req_init_def at_kid_def)


subsection \<open>Every timely run ends\<close>

definition rep_left :: "nat \<Rightarrow> rep_sys \<Rightarrow> nat" where
  "rep_left n s = 2 * req_left n (rq s) + length (rts s)"

lemma rep_left_step:
  assumes "rep_inv n th s" and "rep_step n th s t"
  shows "rep_left n t < rep_left n s"
proof -
  obtain a where a: "rep_act n th a s = Some t" "rep_timely a s" using assms(2) by (auto simp: rep_step_def)
  show ?thesis
  proof (cases a)
    case (R_Handle k)
    then show ?thesis using a(1) by (auto simp: rep_act_def rep_left_def split: if_splits)
  next
    case (R_Act e g)
    then obtain q where q: "req_act n th e (rq s) = Some q" "in_time e (rq s)"
      and t: "rq t = q" "length (rts t) \<le> Suc (length (rts s))"
      using a by (auto simp: rep_act_def rep_timely_def split: if_splits req_event.split)
    have "req_left n q < req_left n (rq s)" using req_left_step [OF _ q] assms(1) by (simp add: rep_inv_def)
    then show ?thesis using t by (simp add: rep_left_def)
  qed
qed

interpretation reporting: terminating_system "rep_step n th" "rep_inv n th" "rep_left n" for n th
  by unfold_locales (auto intro: rep_inv_step rep_left_step)

lemma rep_end:
  assumes inv: "rep_inv n th s" and fin: "\<forall>t. \<not> rep_step n th s t" and th: "th \<le> int n"
  shows "par (rq s) = P_Exit \<and> rts s = [] \<and> (\<forall>i < n. pcs (rq s) ! i = K_Reaped)"
proof -
  have ri: "req_inv n th (rq s)" using inv by (simp add: rep_inv_def)
  have no: "rep_act n th a s = None" if "rep_timely a s" for a
    using fin that by (metis not_Some_eq rep_step_def)
  have e: "rts s = []" if "par (rq s) \<noteq> P_Exit"
    using no [of "R_Handle 0"] that by (auto simp: rep_act_def rep_timely_def split: if_splits)
  have x: "par (rq s) = P_Exit"
  proof (rule ccontr)
    assume x: "par (rq s) \<noteq> P_Exit"
    have "req_act n th b (rq s) = None" if "in_time b (rq s)" for b
      using no [of "R_Act b 0"] that e [OF x] by (auto simp: rep_act_def rep_timely_def split: req_event.splits)
    then have "\<forall>u. \<not> timely_step n th (rq s) u" by (auto simp: timely_step_def)
    then show False using timely_end [OF ri _ th] x by blast
  qed
  have l: "length (pcs (rq s)) = n" using ri x by (simp add: req_inv_def par_ok_def)
  have r: "pcs (rq s) ! i = K_Reaped" if "i < n" for i using at_exit [OF ri x] that l by simp
  have "rts s = []"
  proof (rule ccontr)
    assume "rts s \<noteq> []"
    then have h: "hd (rts s) \<in> set (rts s)" by simp
    define i where "i = snd (hd (rts s))"
    have "how_many (\<lambda>x. snd x = i) (rts s) \<noteq> 0" using h by (auto simp: how_many_def filter_empty_conv i_def)
    moreover have "how_many (is_realtime i) (reports s) + how_many (\<lambda>x. snd x = i) (rts s) = of_bool (at_kid gone (pcs (rq s)) i)"
      using inv by (simp add: rep_inv_def)
    ultimately have "at_kid gone (pcs (rq s)) i" by (metis add_is_0 of_bool_eq_0_iff)
    then have "i < n" using l by (simp add: at_kid_def)
    then have "at_kid reaped (pcs (rq s)) i" using r l by (simp add: at_kid_def reaped_def)
    then show False using inv h by (auto simp: rep_inv_def i_def)
  qed
  then show ?thesis using x r by simp
qed

lemma rep_end_counts:
  assumes inv: "rep_inv n th s" and fin: "\<forall>t. \<not> rep_step n th s t" and th: "th \<le> int n"
  shows "\<forall>k \<in> set (kids (rq s)). k_pc k = K_Reaped"
    and "\<forall>i < n. how_many (\<lambda>r. r = Created i) (reports s) = 1 \<and> how_many (is_realtime i) (reports s) = 1 \<and>
      how_many (\<lambda>r. r = Ended i) (reports s) = 1"
proof -
  have e: "par (rq s) = P_Exit" "rts s = []" "\<forall>i < n. pcs (rq s) ! i = K_Reaped" using rep_end [OF assms] by simp_all
  have l: "length (kids (rq s)) = n" "known (rq s) = n" using inv e(1) by (simp_all add: rep_inv_def req_inv_def par_ok_def)
  show "\<forall>k \<in> set (kids (rq s)). k_pc k = K_Reaped" using e(3) l(1) by (auto simp: in_set_conv_nth)
  have "at_kid gone (pcs (rq s)) i" "at_kid reaped (pcs (rq s)) i" if "i < n" for i
    using e(3) l(1) that by (simp_all add: at_kid_def gone_def reaped_def)
  then show "\<forall>i < n. how_many (\<lambda>r. r = Created i) (reports s) = 1 \<and> how_many (is_realtime i) (reports s) = 1 \<and>
      how_many (\<lambda>r. r = Ended i) (reports s) = 1"
    using inv e(2) l(2) by (simp add: rep_inv_def)
qed

subsection \<open>Properties\<close>



end
