(* ===== verification/Signal_Count.thy ===== *)
theory Signal_Count
  imports C_Lib Transition
begin

text \<open>
  Counting signals, \<open>cw04/zad3\<close>: the parent sends a number of signals to its child, which sends
  each back; then it sends \<open>SIGUSR2\<close>, upon which the child exits.  In mode 1 \<open>SIGUSR1\<close> is sent
  without waiting, in mode 2 the answer is awaited, in every other mode a real-time signal is sent
  without waiting.

  A standard signal is pending at most once, real-time signals are queued.  Before the child has
  installed its handlers a signal ends it; it is never waited for, so sending to it still succeeds.
  A handler runs as one step, and the child installs its handlers in one step.
\<close>

datatype sig = SIGUSR1 | SIGUSR2 | SIGRT1 | SIGRT2 | SIGINT

datatype mode = Burst | Await | Realtime

datatype par_pc = S_Send | S_Await | S_Finish | S_Done

datatype child_pc = Ch_Start | Ch_Ready | Ch_Dead

record cnt_sys =
  p_pc :: par_pc
  p_left :: nat
  sent :: nat
  received :: nat
  usr1_received :: bool
  p_usr1 :: bool
  p_rt :: nat
  c_pc :: child_pc
  received_count :: nat
  c_usr1 :: bool
  c_usr2 :: bool
  c_rt :: nat

definition mode_of :: "int \<Rightarrow> mode" where
  "mode_of m = (if m = 1 then Burst else if m = 2 then Await else Realtime)"

subsection \<open>Sending\<close>

definition kill_child :: "sig \<Rightarrow> cnt_sys \<Rightarrow> cnt_sys" where
  "kill_child g s =
     (case c_pc s of
        Ch_Start \<Rightarrow> s\<lparr>c_pc := Ch_Dead\<rparr>
      | Ch_Ready \<Rightarrow>
          (case g of
             SIGUSR1 \<Rightarrow> s\<lparr>c_usr1 := True\<rparr>
           | SIGUSR2 \<Rightarrow> s\<lparr>c_usr2 := True\<rparr>
           | SIGRT1 \<Rightarrow> s\<lparr>c_rt := c_rt s + 1\<rparr>
           | _ \<Rightarrow> s)
      | Ch_Dead \<Rightarrow> s)"

definition send_child :: "sig \<Rightarrow> cnt_sys \<Rightarrow> cnt_sys" where
  "send_child g s = (kill_child g s)\<lparr>sent := sent s + 1\<rparr>"

definition kill_parent :: "sig \<Rightarrow> cnt_sys \<Rightarrow> cnt_sys" where
  "kill_parent g s =
     (if p_pc s = S_Done then s
      else (case g of SIGUSR1 \<Rightarrow> s\<lparr>p_usr1 := True\<rparr> | SIGRT1 \<Rightarrow> s\<lparr>p_rt := p_rt s + 1\<rparr> | _ \<Rightarrow> s))"

subsection \<open>Handlers\<close>

definition child_handler :: "sig \<Rightarrow> cnt_sys \<Rightarrow> cnt_sys" where
  "child_handler g s =
     (let s1 = s\<lparr>received_count := received_count s + 1\<rparr>;
          s2 = (if g = SIGUSR1 \<or> g = SIGRT1 then kill_parent g s1 else s1)
      in if g = SIGUSR2 \<or> g = SIGRT2 then s2\<lparr>c_pc := Ch_Dead\<rparr> else s2)"

text \<open>\<open>print_count\<close> exits.\<close>

definition parent_handler :: "sig \<Rightarrow> cnt_sys \<Rightarrow> cnt_sys" where
  "parent_handler g s =
     (let s1 = s\<lparr>received := received s + 1\<rparr>;
          s2 = (if g = SIGUSR1 \<or> g = SIGRT1 then s1\<lparr>usr1_received := True\<rparr> else s1)
      in if g = SIGINT then (send_child SIGUSR2 s2)\<lparr>p_pc := S_Done\<rparr> else s2)"

subsection \<open>The loops of main\<close>

definition parent_step :: "mode \<Rightarrow> cnt_sys \<Rightarrow> cnt_sys option" where
  "parent_step m s =
     (case p_pc s of
        S_Send \<Rightarrow>
          Some (if p_left s = 0 then s\<lparr>p_pc := S_Finish\<rparr>
                else
                  let s1 = (send_child (if m = Realtime then SIGRT1 else SIGUSR1) s)\<lparr>p_left := p_left s - 1\<rparr>
                  in if m = Await then s1\<lparr>p_pc := S_Await\<rparr> else s1)
      | S_Await \<Rightarrow> if usr1_received s then Some (s\<lparr>usr1_received := False, p_pc := S_Send\<rparr>) else None
      | S_Finish \<Rightarrow> Some ((send_child SIGUSR2 s)\<lparr>p_pc := S_Done\<rparr>)
      | S_Done \<Rightarrow> None)"

text \<open>
  In mode 2 the signals are blocked from sending until the answer has come, except inside
  \<open>sigsuspend\<close>.
\<close>

definition unblocked :: "cnt_sys \<Rightarrow> bool" where
  "unblocked s = (p_pc s \<noteq> S_Done \<and> (p_pc s = S_Await \<longrightarrow> \<not> usr1_received s))"

datatype cnt_event = N_Parent | N_Parent_Usr1 | N_Parent_Rt | N_Child_Setup | N_Child_Usr1 | N_Child_Usr2 | N_Child_Rt

definition cnt_act :: "mode \<Rightarrow> cnt_event \<Rightarrow> cnt_sys \<Rightarrow> cnt_sys option" where
  "cnt_act m a s =
     (case a of
        N_Parent \<Rightarrow> parent_step m s
      | N_Parent_Usr1 \<Rightarrow> if unblocked s \<and> p_usr1 s then Some (parent_handler SIGUSR1 (s\<lparr>p_usr1 := False\<rparr>)) else None
      | N_Parent_Rt \<Rightarrow> if unblocked s \<and> 0 < p_rt s then Some (parent_handler SIGRT1 (s\<lparr>p_rt := p_rt s - 1\<rparr>)) else None
      | N_Child_Setup \<Rightarrow> if c_pc s = Ch_Start then Some (s\<lparr>c_pc := Ch_Ready\<rparr>) else None
      | N_Child_Usr1 \<Rightarrow>
          if c_pc s = Ch_Ready \<and> c_usr1 s then Some (child_handler SIGUSR1 (s\<lparr>c_usr1 := False\<rparr>)) else None
      | N_Child_Usr2 \<Rightarrow>
          if c_pc s = Ch_Ready \<and> c_usr2 s then Some (child_handler SIGUSR2 (s\<lparr>c_usr2 := False\<rparr>)) else None
      | N_Child_Rt \<Rightarrow>
          if c_pc s = Ch_Ready \<and> 0 < c_rt s then Some (child_handler SIGRT1 (s\<lparr>c_rt := c_rt s - 1\<rparr>)) else None)"

definition cnt_step :: "mode \<Rightarrow> cnt_sys \<Rightarrow> cnt_sys \<Rightarrow> bool" where
  "cnt_step m s s' = (\<exists>a. cnt_act m a s = Some s')"

definition cnt_init :: "child_pc \<Rightarrow> nat \<Rightarrow> cnt_sys" where
  "cnt_init c signal_count =
     \<lparr>p_pc = S_Send, p_left = signal_count, sent = 0, received = 0, usr1_received = False, p_usr1 = False, p_rt = 0,
      c_pc = c, received_count = 0, c_usr1 = False, c_usr2 = False, c_rt = 0\<rparr>"

fun cnt_run :: "mode \<Rightarrow> cnt_event list \<Rightarrow> cnt_sys \<Rightarrow> cnt_sys option" where
  "cnt_run m [] s = Some s"
| "cnt_run m (a # as) s = (case cnt_act m a s of None \<Rightarrow> None | Some s' \<Rightarrow> cnt_run m as s')"

subsection \<open>Waiting for every answer\<close>

text \<open>One signal is under way while the parent waits, none otherwise.\<close>

definition cnt_inv :: "nat \<Rightarrow> cnt_sys \<Rightarrow> bool" where
  "cnt_inv n s =
     (p_rt s = 0 \<and> c_rt s = 0 \<and> (p_pc s \<noteq> S_Done \<longrightarrow> c_pc s = Ch_Ready \<and> \<not> c_usr2 s \<and> p_left s + sent s = n) \<and>
      (case p_pc s of
         S_Send \<Rightarrow> \<not> c_usr1 s \<and> \<not> p_usr1 s \<and> \<not> usr1_received s \<and> received s = sent s \<and> received_count s = sent s
       | S_Finish \<Rightarrow> \<not> c_usr1 s \<and> \<not> p_usr1 s \<and> \<not> usr1_received s \<and> received s = n \<and> received_count s = n \<and> sent s = n
       | S_Await \<Rightarrow>
           (c_usr1 s \<and> \<not> p_usr1 s \<and> \<not> usr1_received s \<and> sent s = received s + 1 \<and> sent s = received_count s + 1) \<or>
           (\<not> c_usr1 s \<and> p_usr1 s \<and> \<not> usr1_received s \<and> sent s = received s + 1 \<and> sent s = received_count s) \<or>
           (\<not> c_usr1 s \<and> \<not> p_usr1 s \<and> usr1_received s \<and> sent s = received s \<and> sent s = received_count s)
       | S_Done \<Rightarrow> \<not> c_usr1 s \<and> \<not> p_usr1 s \<and> sent s = n + 1 \<and> received s = n \<and>
           ((c_pc s = Ch_Ready \<and> c_usr2 s \<and> received_count s = n) \<or> (c_pc s = Ch_Dead \<and> received_count s = n + 1))))"

lemmas cnt_defs = cnt_act_def parent_step_def send_child_def kill_child_def kill_parent_def child_handler_def
  parent_handler_def unblocked_def Let_def

lemma cnt_inv_act: "cnt_inv n s \<Longrightarrow> cnt_act Await a s = Some s' \<Longrightarrow> cnt_inv n s'"
  by (cases a; cases "p_pc s") (auto simp: cnt_inv_def cnt_defs split: if_splits)

fun cnt_weight :: "par_pc \<Rightarrow> nat" where
  "cnt_weight S_Send = 3"
| "cnt_weight S_Await = 4"
| "cnt_weight S_Finish = 2"
| "cnt_weight S_Done = 0"

definition cnt_left :: "cnt_sys \<Rightarrow> nat" where
  "cnt_left s = 5 * p_left s + cnt_weight (p_pc s) + (if c_usr1 s then 2 else 0) + (if p_usr1 s then 1 else 0) + (if c_usr2 s then 1 else 0)"

lemma cnt_left_act: "cnt_inv n s \<Longrightarrow> cnt_act Await a s = Some s' \<Longrightarrow> cnt_left s' < cnt_left s"
  by (cases a; cases "p_pc s") (auto simp: cnt_inv_def cnt_defs cnt_left_def split: if_splits)

interpretation await: terminating_system "cnt_step Await" "cnt_inv n" cnt_left for n
proof
  fix s s'
  assume inv: "cnt_inv n s" and step: "cnt_step Await s s'"
  then show "cnt_inv n s'" using cnt_inv_act by (auto simp: cnt_step_def)
  show "cnt_left s' < cnt_left s" using inv step cnt_left_act by (auto simp: cnt_step_def)
qed

lemma cnt_stuck:
  assumes "cnt_inv n s" and "\<forall>u. \<not> cnt_step Await s u"
  shows "p_pc s = S_Done \<and> c_pc s = Ch_Dead"
proof -
  have no: "cnt_act Await a s = None" for a using assms(2) by (metis cnt_step_def not_Some_eq)
  show ?thesis
    using assms(1) no [of N_Parent] no [of N_Parent_Usr1] no [of N_Child_Usr1] no [of N_Child_Usr2]
    by (cases "p_pc s") (auto simp: cnt_inv_def cnt_act_def parent_step_def unblocked_def Let_def split: if_splits)
qed

lemma cnt_run_reachable: "cnt_run m as s = Some t \<Longrightarrow> (cnt_step m)\<^sup>*\<^sup>* s t"
proof (induction as arbitrary: s)
  case (Cons a as)
  then obtain r where "cnt_act m a s = Some r" "cnt_run m as r = Some t" by (auto split: option.splits)
  then show ?case using Cons.IH by (meson converse_rtranclp_into_rtranclp cnt_step_def)
qed simp

subsection \<open>The program, with the interrupt key\<close>

definition cnt_main :: "string list \<Rightarrow> (mode \<times> nat \<times> cnt_sys) outcome" where
  "cnt_main argv =
     (if length argv \<noteq> 3 then Exit 1
      else
        let signal_count = nat (atoi (argv ! 1)); m = mode_of (atoi (argv ! 2)) in Cont (m, signal_count, cnt_init Ch_Start signal_count))"

text \<open>
  An interrupt of the parent, or from the terminal, which reaches the child too: it ends the child
  before it has blocked that signal.
\<close>

definition interrupt :: "bool \<Rightarrow> cnt_sys \<Rightarrow> cnt_sys option" where
  "interrupt terminal s =
     (if unblocked s
      then Some (parent_handler SIGINT (if terminal \<and> c_pc s = Ch_Start then s\<lparr>c_pc := Ch_Dead\<rparr> else s)) else None)"

definition any_step :: "mode \<Rightarrow> cnt_sys \<Rightarrow> cnt_sys \<Rightarrow> bool" where
  "any_step m s t = (cnt_step m s t \<or> (\<exists>terminal. interrupt terminal s = Some t))"

text \<open>Every signal is counted at most once; while the parent waits for a child that is there, an answer is under way.\<close>

definition any_inv :: "mode \<Rightarrow> nat \<Rightarrow> cnt_sys \<Rightarrow> bool" where
  "any_inv m n s \<longleftrightarrow>
     received_count s + of_bool (c_usr1 s) + of_bool (c_usr2 s) + c_rt s \<le> sent s \<and>
     received s + of_bool (p_usr1 s) + p_rt s \<le> received_count s + of_bool (p_pc s = S_Done) \<and>
     (if p_pc s = S_Done then sent s \<le> Suc n \<and> (c_pc s = Ch_Dead \<or> c_pc s = Ch_Ready \<and> c_usr2 s)
      else p_left s + sent s = n \<and> \<not> c_usr2 s) \<and>
     (p_pc s = S_Finish \<longrightarrow> p_left s = 0) \<and>
     (p_pc s = S_Await \<longrightarrow> m = Await \<and>
        (c_pc s = Ch_Dead \<or> c_pc s = Ch_Ready \<and> (c_usr1 s \<or> p_usr1 s \<or> usr1_received s))) \<and>
     (m = Await \<longrightarrow> c_rt s = 0 \<and> p_rt s = 0 \<and>
        (p_pc s = S_Send \<or> p_pc s = S_Finish \<longrightarrow> received s = sent s \<and> received_count s = sent s \<and> \<not> usr1_received s) \<and>
        (p_pc s = S_Await \<longrightarrow>
           sent s = received s + of_bool (\<not> usr1_received s) \<and> (usr1_received s \<longrightarrow> received_count s = sent s)))"

definition any_left :: "cnt_sys \<Rightarrow> nat" where
  "any_left s = 5 * p_left s + cnt_weight (p_pc s) + 2 * of_bool (c_usr1 s) + 2 * c_rt s + of_bool (p_usr1 s) + p_rt s +
     of_bool (c_usr2 s) + of_bool (c_pc s = Ch_Start)"

lemma any_inv_parent:
  assumes inv: "any_inv m n s" and step: "parent_step m s = Some t"
  shows "any_inv m n t \<and> any_left t < any_left s"
proof (cases "p_pc s")
  case S_Send
  show ?thesis
  proof (cases "p_left s = 0")
    case True
    then have "t = s\<lparr>p_pc := S_Finish\<rparr>" using step S_Send by (simp add: parent_step_def)
    then show ?thesis using inv S_Send True by (simp add: any_inv_def any_left_def)
  next
    case False
    define r where "r = kill_child (if m = Realtime then SIGRT1 else SIGUSR1) s"
    define q where "q = r\<lparr>sent := sent s + 1, p_left := p_left s - 1\<rparr>"
    have t: "t = (if m = Await then q\<lparr>p_pc := S_Await\<rparr> else q)"
      using step S_Send False by (auto simp: parent_step_def send_child_def r_def q_def Let_def)
    show ?thesis
      using inv S_Send False
      by (cases "c_pc s"; cases "m"; cases "c_usr1 s") (simp_all add: any_inv_def any_left_def t q_def r_def kill_child_def)
  qed
next
  case S_Await
  then have "usr1_received s" "t = s\<lparr>usr1_received := False, p_pc := S_Send\<rparr>" using step by (auto simp: parent_step_def split: if_splits)
  then show ?thesis using inv S_Await by (cases "c_usr1 s"; cases "p_usr1 s") (simp_all add: any_inv_def any_left_def)
next
  case S_Finish
  then have t: "t = (kill_child SIGUSR2 s)\<lparr>sent := sent s + 1, p_pc := S_Done\<rparr>"
    using step by (simp add: parent_step_def send_child_def)
  show ?thesis using inv S_Finish by (cases "c_pc s") (simp_all add: any_inv_def any_left_def t kill_child_def)
next
  case S_Done
  then show ?thesis using step by (simp add: parent_step_def)
qed

lemma any_inv_act:
  assumes inv: "any_inv m n s" and act: "cnt_act m a s = Some t"
  shows "any_inv m n t \<and> any_left t < any_left s"
proof (cases a)
  case N_Parent
  then show ?thesis using any_inv_parent [OF inv] act by (simp add: cnt_act_def)
next
  case N_Parent_Usr1
  then have "unblocked s" "p_usr1 s" "t = s\<lparr>p_usr1 := False, received := received s + 1, usr1_received := True\<rparr>"
    using act by (auto simp: cnt_act_def parent_handler_def split: if_splits)
  then show ?thesis using inv by (cases "p_pc s"; cases "m = Await"; cases "c_usr1 s") (simp_all add: any_inv_def any_left_def unblocked_def)
next
  case N_Parent_Rt
  then have "unblocked s" "0 < p_rt s" "t = s\<lparr>p_rt := p_rt s - 1, received := received s + 1, usr1_received := True\<rparr>"
    using act by (auto simp: cnt_act_def parent_handler_def split: if_splits)
  then show ?thesis using inv by (cases "p_pc s"; cases "m = Await") (simp_all add: any_inv_def any_left_def unblocked_def)
next
  case N_Child_Setup
  then have "c_pc s = Ch_Start" "t = s\<lparr>c_pc := Ch_Ready\<rparr>" using act by (auto simp: cnt_act_def split: if_splits)
  then show ?thesis using inv by (cases "p_pc s") (simp_all add: any_inv_def any_left_def)
next
  case N_Child_Usr1
  then have "c_pc s = Ch_Ready" "c_usr1 s" "t = kill_parent SIGUSR1 (s\<lparr>c_usr1 := False, received_count := received_count s + 1\<rparr>)"
    using act by (auto simp: cnt_act_def child_handler_def split: if_splits)
  then show ?thesis using inv by (cases "p_pc s"; cases "p_usr1 s"; cases "m = Await"; cases "usr1_received s") (simp_all add: any_inv_def any_left_def kill_parent_def)
next
  case N_Child_Usr2
  then have "c_pc s = Ch_Ready" "c_usr2 s" "t = s\<lparr>c_usr2 := False, received_count := received_count s + 1, c_pc := Ch_Dead\<rparr>"
    using act by (auto simp: cnt_act_def child_handler_def split: if_splits)
  then show ?thesis using inv by (cases "p_pc s") (simp_all add: any_inv_def any_left_def)
next
  case N_Child_Rt
  then have "c_pc s = Ch_Ready" "0 < c_rt s" "t = kill_parent SIGRT1 (s\<lparr>c_rt := c_rt s - 1, received_count := received_count s + 1\<rparr>)"
    using act by (auto simp: cnt_act_def child_handler_def split: if_splits)
  then show ?thesis using inv by (cases "p_pc s"; cases "m = Await"; cases "c_usr1 s") (simp_all add: any_inv_def any_left_def kill_parent_def)
qed

lemma any_inv_interrupt:
  assumes inv: "any_inv m n s" and act: "interrupt b s = Some t"
  shows "any_inv m n t \<and> any_left t < any_left s"
proof -
  define r where "r = (if b \<and> c_pc s = Ch_Start then s\<lparr>c_pc := Ch_Dead\<rparr> else s)"
  have u: "unblocked s" and t: "t = (kill_child SIGUSR2 (r\<lparr>received := received r + 1\<rparr>))\<lparr>sent := sent r + 1, p_pc := S_Done\<rparr>"
    using act by (auto simp: interrupt_def parent_handler_def send_child_def Let_def r_def split: if_splits)
  have r: "p_pc r = p_pc s" "p_left r = p_left s" "sent r = sent s" "received r = received s" "received_count r = received_count s"
    "c_usr1 r = c_usr1 s" "c_usr2 r = c_usr2 s" "c_rt r = c_rt s" "p_usr1 r = p_usr1 s" "p_rt r = p_rt s"
    by (simp_all add: r_def)
  show ?thesis
    using inv u by (cases "p_pc s"; cases "c_pc r") (simp_all add: t any_inv_def any_left_def kill_child_def unblocked_def r)
qed

interpretation counting: terminating_system "any_step m" "any_inv m n" any_left for m n
  by unfold_locales (auto simp: any_step_def cnt_step_def dest: any_inv_act any_inv_interrupt)

lemma any_stuck:
  assumes "any_inv m n s" and "\<forall>t. \<not> cnt_step m s t"
  shows "c_pc s = Ch_Dead \<and> (p_pc s = S_Done \<or> p_pc s = S_Await \<and> m = Await)"
proof -
  have no: "cnt_act m a s = None" for a using assms(2) by (metis cnt_step_def not_Some_eq)
  show ?thesis
    using assms(1) no [of N_Parent] no [of N_Parent_Usr1] no [of N_Child_Usr1] no [of N_Child_Usr2]
    by (cases "p_pc s") (auto simp: any_inv_def cnt_act_def parent_step_def unblocked_def Let_def split: if_splits)
qed

lemma cnt_run_relpow: "cnt_run m as s = Some t \<Longrightarrow> (any_step m ^^ length as) s t"
proof (induction as arbitrary: s)
  case (Cons a as)
  then obtain r where "cnt_act m a s = Some r" "cnt_run m as r = Some t" by (auto split: option.splits)
  then show ?case using Cons.IH [of r] by (auto simp: any_step_def cnt_step_def simp del: relpowp.simps intro!: relpowp_Suc_I2)
qed simp

subsection \<open>Properties\<close>



text \<open>
  When the parent waits for every answer and the child is ready, no signal is lost: every run
  can go on to its end, and at the end the parent has received as many signals as were requested
  and the child one more.
\<close>

theorem await_counts_agree:
  assumes "(cnt_step Await)\<^sup>*\<^sup>* (cnt_init Ch_Ready n) s"
  shows "(\<exists>t. (cnt_step Await)\<^sup>*\<^sup>* s t \<and> (\<forall>u. \<not> cnt_step Await t u)) \<and>
    ((\<forall>u. \<not> cnt_step Await s u) \<longrightarrow>
       p_pc s = S_Done \<and> c_pc s = Ch_Dead \<and> sent s = n + 1 \<and> received s = n \<and> received_count s = n + 1)"
proof -
  have "cnt_inv n (cnt_init Ch_Ready n)" by (simp add: cnt_inv_def cnt_init_def)
  then have inv: "cnt_inv n s" using await.reachable_inv [OF assms] by blast
  then show ?thesis using await.reaches_end cnt_stuck [OF inv] by (auto simp: cnt_inv_def)
qed

theorem await_counts_agree_witness:
  "\<exists>t. (cnt_step Await)\<^sup>*\<^sup>* (cnt_init Ch_Ready 3) t \<and> (\<forall>u. \<not> cnt_step Await t u)"
  using await_counts_agree [of 3 "cnt_init Ch_Ready 3"] by blast

text \<open>
  Without waiting signals are lost: of two \<open>SIGUSR1\<close> the child may see one, it may exit on
  \<open>SIGUSR2\<close> with all real-time signals unread, and when it is not ready yet the first signal ends it,
  so that the parent waits for an answer forever.
\<close>

theorem signals_lost:
  "(\<exists>s. (cnt_step Burst)\<^sup>*\<^sup>* (cnt_init Ch_Ready 2) s \<and> p_pc s = S_Done \<and> c_pc s = Ch_Dead \<and> sent s = 3 \<and> received_count s = 2) \<and>
   (\<exists>s. (cnt_step Realtime)\<^sup>*\<^sup>* (cnt_init Ch_Ready 2) s \<and> p_pc s = S_Done \<and> c_pc s = Ch_Dead \<and> sent s = 3 \<and> received_count s = 1) \<and>
   (\<exists>s. (cnt_step Await)\<^sup>*\<^sup>* (cnt_init Ch_Start 2) s \<and> p_pc s = S_Await \<and> (\<forall>u. \<not> cnt_step Await s u))"
proof -
  obtain a where "cnt_run Burst [N_Parent, N_Parent, N_Parent, N_Child_Usr1, N_Parent, N_Child_Usr2] (cnt_init Ch_Ready 2) = Some a"
    "p_pc a = S_Done" "c_pc a = Ch_Dead" "sent a = 3" "received_count a = 2"
    by (simp add: cnt_defs cnt_init_def)
  moreover obtain b where "cnt_run Realtime [N_Parent, N_Parent, N_Parent, N_Parent, N_Child_Usr2] (cnt_init Ch_Ready 2) = Some b"
    "p_pc b = S_Done" "c_pc b = Ch_Dead" "sent b = 3" "received_count b = 1"
    by (simp add: cnt_defs cnt_init_def)
  moreover define c where "c = (cnt_init Ch_Dead 1)\<lparr>p_pc := S_Await, sent := 1\<rparr>"
  have "cnt_run Await [N_Parent] (cnt_init Ch_Start 2) = Some c" by (simp add: cnt_defs cnt_init_def c_def)
  moreover have "cnt_act Await act c = None" for act by (cases act) (simp_all add: cnt_defs c_def cnt_init_def)
  then have "\<forall>u. \<not> cnt_step Await c u" by (simp add: cnt_step_def)
  moreover have "p_pc c = S_Await" by (simp add: c_def)
  ultimately show ?thesis using cnt_run_reachable by blast
qed

end
