(* ===== verification/Script_Toggle.thy ===== *)
theory Script_Toggle
  imports C_Lib Transition
begin

text \<open>
  The program that starts and stops a shell script at every \<open>SIGTSTP\<close>
  (\<open>cw04/zad1/src/main.c\<close>).  The state has the processes it has started, with their process ids
  and whether they still run; they are never waited for, so no id is used twice.

  In the handler \<open>SIGTSTP\<close> is blocked, so the handler is one step.  \<open>main\<close> starts the first script
  by calling the handler itself, where a signal may come between \<open>fork\<close> and the assignment of its
  result: \<open>first\<close> is that result until it is assigned.
\<close>

record toggle =
  child_pid :: int
  started :: "(int \<times> bool) list"
  first :: "int option"
  shown :: "string list"
  exited :: "int option"

definition spawn :: "int \<Rightarrow> toggle \<Rightarrow> toggle" where
  "spawn pid s = (if 0 < pid then s\<lparr>started := started s @ [(pid, True)]\<rparr> else s)"

definition kill_pid :: "int \<Rightarrow> toggle \<Rightarrow> toggle" where
  "kill_pid pid s = s\<lparr>started := map (\<lambda>(p, r). (p, r \<and> p \<noteq> pid)) (started s)\<rparr>"

text \<open>\<open>pid\<close> is the result of \<open>fork\<close>, if it is called: a new process id, or -1.\<close>

definition tstp_handler :: "int \<Rightarrow> toggle \<Rightarrow> toggle" where
  "tstp_handler pid s =
     (if 0 < child_pid s then
        (kill_pid (child_pid s) s)\<lparr>child_pid := -1,
          shown := shown s @ [''Stopped. Waiting for:'', CHR 0x09 # ''^Z -- continue'', CHR 0x09 # ''^C -- interrupt'']\<rparr>
      else (spawn pid s)\<lparr>child_pid := pid\<rparr>)"

definition toggle_int :: "toggle \<Rightarrow> toggle" where
  "toggle_int s = s\<lparr>shown := shown s @ [''Received SIGINT.''], exited := Some 0\<rparr>"

text \<open>\<open>main\<close> up to the \<open>fork\<close>; installing a handler may fail.\<close>

definition toggle_start :: "bool \<Rightarrow> bool \<Rightarrow> int \<Rightarrow> int + toggle" where
  "toggle_start tstp_ok int_ok pid =
     (if \<not> tstp_ok \<or> \<not> int_ok then Inl (-1)
      else Inr (spawn pid \<lparr>child_pid = -1, started = [], first = Some pid, shown = [], exited = None\<rparr>))"

text \<open>A signal with what \<open>fork\<close> would return, the assignment in \<open>main\<close>, or the end of a script.\<close>

datatype toggle_event = Sigtstp int | Sigint | Assign | Script_Ends int

definition toggle_act :: "toggle_event \<Rightarrow> toggle \<Rightarrow> toggle option" where
  "toggle_act a s =
     (if exited s \<noteq> None then None
      else
        case a of
          Sigtstp pid \<Rightarrow> if pid = -1 \<or> (0 < pid \<and> pid \<notin> fst ` set (started s)) then Some (tstp_handler pid s) else None
        | Sigint \<Rightarrow> Some (toggle_int s)
        | Assign \<Rightarrow> map_option (\<lambda>pid. s\<lparr>child_pid := pid, first := None\<rparr>) (first s)
        | Script_Ends pid \<Rightarrow> Some (kill_pid pid s))"

definition toggle_step :: "toggle \<Rightarrow> toggle \<Rightarrow> bool" where
  "toggle_step s t = (\<exists>a. toggle_act a s = Some t)"

fun toggle_run :: "toggle_event list \<Rightarrow> toggle \<Rightarrow> toggle option" where
  "toggle_run [] s = Some s"
| "toggle_run (a # as) s = (case toggle_act a s of None \<Rightarrow> None | Some t \<Rightarrow> toggle_run as t)"

lemmas [handler_defs] = spawn_def kill_pid_def tstp_handler_def toggle_int_def toggle_act_def

definition running :: "toggle \<Rightarrow> int set" where
  "running s = {p. (p, True) \<in> set (started s)}"

subsection \<open>At most one script runs\<close>

text \<open>Once the first start is complete, a running script is the one the program knows.\<close>

definition toggle_ok :: "toggle \<Rightarrow> bool" where
  "toggle_ok s \<longleftrightarrow> first s = None \<and> running s \<subseteq> {child_pid s} \<and> (\<forall>p \<in> running s. 0 < p) \<and>
     distinct (map fst (started s))"

lemma running_kill [simp]: "running (kill_pid pid s) = running s - {pid}"
proof -
  have "(p, True) \<in> (\<lambda>(p, r). (p, r \<and> p \<noteq> pid)) ` set xs \<longleftrightarrow> (p, True) \<in> set xs \<and> p \<noteq> pid" for p and xs :: "(int \<times> bool) list"
    by (induction xs) auto
  then show ?thesis by (auto simp: running_def kill_pid_def)
qed

lemma running_simps [simp]:
  "running (s\<lparr>child_pid := p\<rparr>) = running s"
  "running (s\<lparr>shown := x\<rparr>) = running s" "running (s\<lparr>exited := e\<rparr>) = running s" "running (s\<lparr>first := f\<rparr>) = running s"
  "running (spawn pid s) = (if 0 < pid then insert pid (running s) else running s)"
  by (auto simp: running_def spawn_def)

lemma map_fst_kill [simp]: "map fst (started (kill_pid pid s)) = map fst (started s)"
  by (auto simp: kill_pid_def comp_def split_beta)

lemma kill_fields [simp]:
  "first (kill_pid pid s) = first s" "child_pid (kill_pid pid s) = child_pid s" "exited (kill_pid pid s) = exited s"
  "shown (kill_pid pid s) = shown s"
  by (simp_all add: kill_pid_def)

lemma spawn_fields [simp]:
  "first (spawn pid s) = first s" "exited (spawn pid s) = exited s" "shown (spawn pid s) = shown s"
  "started (spawn pid s) = started s @ (if 0 < pid then [(pid, True)] else [])"
  by (simp_all add: spawn_def)

lemma tstp_handler_fields [simp]:
  "first (tstp_handler pid s) = first s" "exited (tstp_handler pid s) = exited s"
  "child_pid (tstp_handler pid s) = (if 0 < child_pid s then -1 else pid)"
  "running (tstp_handler pid s) =
     (if 0 < child_pid s then running s - {child_pid s} else if 0 < pid then insert pid (running s) else running s)"
  by (simp_all add: tstp_handler_def)

lemma tstp_handler_pids:
  "map fst (started (tstp_handler pid s)) = map fst (started s) @ (if 0 < child_pid s \<or> \<not> 0 < pid then [] else [pid])"
  using map_fst_kill [of "child_pid s" s] by (simp add: tstp_handler_def)

lemma toggle_act_ok:
  assumes "toggle_ok s" and "toggle_act a s = Some t"
  shows "toggle_ok t"
proof (cases a)
  case (Sigtstp pid)
  then have t: "t = tstp_handler pid s" and pid: "0 < pid \<Longrightarrow> pid \<notin> fst ` set (started s)"
    using assms(2) by (auto simp: toggle_act_def split: if_splits)
  have "distinct (map fst (started t))"
    unfolding t tstp_handler_pids using assms(1) pid by (auto simp: toggle_ok_def)
  then show ?thesis using assms(1) by (auto simp: toggle_ok_def t)
next
  case Sigint
  then show ?thesis using assms by (auto simp: toggle_act_def toggle_int_def toggle_ok_def split: if_splits)
next
  case Assign
  then show ?thesis using assms by (auto simp: toggle_act_def toggle_ok_def split: if_splits)
next
  case (Script_Ends pid)
  then show ?thesis using assms by (auto simp: toggle_act_def toggle_ok_def split: if_splits)
qed

interpretation toggling: invariant_system toggle_step toggle_ok
  by unfold_locales (auto simp: toggle_step_def intro: toggle_act_ok)

text \<open>
  From the moment the first script has been started, at most one script runs, and it is the
  one the next signal stops.
\<close>

theorem toggle_one_script:
  assumes "toggle_start True True pid = Inr s0" and "toggle_act Assign s0 = Some s" and "toggle_step\<^sup>*\<^sup>* s t"
  shows "running t \<subseteq> {child_pid t} \<and> running (tstp_handler (-1) t) = {}"
proof -
  have "toggle_ok s"
    using assms(1,2) by (auto simp: toggle_start_def toggle_act_def toggle_ok_def running_def)
  then have "toggle_ok t" using toggling.reachable_inv assms(3) by blast
  then show ?thesis by (auto simp: toggle_ok_def)
qed

theorem toggle_one_script_witness:
  "\<exists>s0 s t. toggle_start True True 10 = Inr s0 \<and> toggle_act Assign s0 = Some s \<and> toggle_step\<^sup>*\<^sup>* s t \<and>
     10 \<in> running s \<and> running (tstp_handler (-1) t) = {}"
proof -
  define s0 where "s0 = \<lparr>child_pid = -1, started = [(10, True)], first = Some 10, shown = [], exited = None\<rparr>"
  have s0: "toggle_start True True 10 = Inr s0" by (simp add: toggle_start_def spawn_def s0_def)
  obtain s where s: "toggle_act Assign s0 = Some s" and r: "10 \<in> running s"
    by (auto simp: toggle_act_def s0_def running_def)
  show ?thesis using toggle_one_script [OF s0 s rtranclp.rtrancl_refl] s0 s r by blast
qed

text \<open>As long as scripts do not end by themselves, each signal changes between one script and none.\<close>

lemma toggle_alternates:
  assumes "toggle_run (map Sigtstp pids) s = Some t" and "toggle_ok s" and "running s = {child_pid s} \<or> child_pid s \<le> 0"
    and "\<forall>pid \<in> set pids. 0 < pid"
  shows "card (running t) = (card (running s) + length pids) mod 2"
  using assms
proof (induction pids arbitrary: s)
  case Nil
  then have "running t \<subseteq> {child_pid t}" by (simp add: toggle_ok_def)
  then have "running t = {} \<or> running t = {child_pid t}" by blast
  then have "card (running t) = 0 \<or> card (running t) = 1" by auto
  then show ?case using Nil.prems(1) by auto
next
  case (Cons pid pids)
  then obtain u where u: "toggle_act (Sigtstp pid) s = Some u" "toggle_run (map Sigtstp pids) u = Some t"
    by (auto split: option.splits)
  have ue: "u = tstp_handler pid s" using u(1) by (auto simp: toggle_act_def split: if_splits)
  have "toggle_ok u" using toggle_act_ok [OF Cons.prems(2) u(1)] .
  moreover have "running s = {}" if "child_pid s \<le> 0" using Cons.prems(2) that by (force simp: toggle_ok_def)
  then have "running u = {child_pid u} \<or> child_pid u \<le> 0" "card (running u) = Suc (card (running s)) mod 2"
    using Cons.prems(3,4) by (auto simp: ue)
  ultimately have "card (running t) = (Suc (card (running s)) mod 2 + length pids) mod 2"
    using Cons.IH [OF u(2)] Cons.prems(4) by simp
  then show ?case by (simp add: mod_simps)
qed

text \<open>
  A signal between the first \<open>fork\<close> and the assignment of its result starts a script that the
  program then forgets: it keeps running after the program has announced that it has stopped.
\<close>

lemma toggle_start_race:
  "\<exists>s0 t. toggle_start True True 10 = Inr s0 \<and>
     toggle_run [Sigtstp 11, Assign, Sigtstp 12] s0 = Some t \<and> running t = {11} \<and> child_pid t = -1 \<and> shown t \<noteq> []"
  by (auto simp: toggle_start_def spawn_def toggle_act_def tstp_handler_def kill_pid_def running_def)

end
