(* ===== verification/Pipe_Report.thy ===== *)
theory Pipe_Report
  imports C_Lib Transition
begin

text \<open>
  The reports through a named pipe (\<open>cw05/zad2\<close>): slaves write their process id and then lines
  with the date (\<open>slave.c\<close>), the master prints what comes out of the pipe (\<open>master.c\<close>).

  A write of at most \<open>PIPE_BUF\<close> bytes is atomic and waits until the pipe has room for all of it.
  Opening the pipe waits for the other side.  What \<open>date\<close> prints in the \<open>i\<close>-th round of a slave
  is a parameter.  Interrupts, whose handlers only exit, are not part of the runs.
\<close>

abbreviation BUF_LEN :: nat where "BUF_LEN \<equiv> 8 * 1024"
abbreviation PIPE_SIZE :: nat where "PIPE_SIZE \<equiv> 64 * 1024"

subsection \<open>slave.c\<close>

datatype slave_pc = S_Open | S_Pid | S_Loop int | S_End | S_Crash | S_Sigpipe

record slave =
  sl_pc :: slave_pc
  sl_pid :: int
  line_count :: int
  sl_date :: "int \<Rightarrow> string"

text \<open>The start of \<open>main\<close>: a result, or the slave about to open the pipe.\<close>

definition slave_start :: "string list \<Rightarrow> int \<Rightarrow> (int \<Rightarrow> string) \<Rightarrow> int + slave" where
  "slave_start argv pid date =
     (if length argv \<noteq> 3 then Inl (-1)
      else Inr \<lparr>sl_pc = S_Open, sl_pid = pid, line_count = atoi (argv ! 2), sl_date = date\<rparr>)"

text \<open>\<open>sprintf\<close> into ten bytes.\<close>

definition pid_line :: "int \<Rightarrow> string outcome" where
  "pid_line pid = (let s = print_d pid @ [NL] in if 10 \<le> length s then Out_Of_Bounds else Cont s)"

text \<open>The two buffers of the loop have 1024 bytes each.\<close>

definition report_line :: "int \<Rightarrow> string \<Rightarrow> string outcome" where
  "report_line pid date =
     (let r = take 1024 date in
      if length r = 1024 then Out_Of_Bounds
      else
        let buf = print_d pid @ '': '' @ cstr r
        in if 1024 \<le> length buf then Out_Of_Bounds else Cont buf)"

text \<open>
  A step of a slave that has opened the pipe: what it writes, if it writes, and its new state.
\<close>

definition slave_step :: "slave \<Rightarrow> (string option \<times> slave) option" where
  "slave_step sl =
     (case sl_pc sl of
        S_Pid \<Rightarrow>
          (case pid_line (sl_pid sl) of
             Cont b \<Rightarrow> Some (Some b, sl\<lparr>sl_pc := S_Loop 0\<rparr>)
           | _ \<Rightarrow> Some (None, sl\<lparr>sl_pc := S_Crash\<rparr>))
      | S_Loop i \<Rightarrow>
          if i < line_count sl then
            (case report_line (sl_pid sl) (sl_date sl i) of
               Cont b \<Rightarrow> Some (Some b, sl\<lparr>sl_pc := S_Loop (i + 1)\<rparr>)
             | _ \<Rightarrow> Some (None, sl\<lparr>sl_pc := S_Crash\<rparr>))
          else Some (None, sl\<lparr>sl_pc := S_End\<rparr>)
      | _ \<Rightarrow> None)"

definition writing :: "slave \<Rightarrow> bool" where
  "writing sl = (case sl_pc sl of S_Pid \<Rightarrow> True | S_Loop _ \<Rightarrow> True | _ \<Rightarrow> False)"

subsection \<open>master.c\<close>

datatype master_pc = M_Open | M_Read | M_End

text \<open>The start of \<open>main\<close>: a result, or the master about to open the pipe.\<close>

definition master_start :: "string list \<Rightarrow> bool \<Rightarrow> int + master_pc" where
  "master_start argv mkfifo =
     (if length argv \<noteq> 2 then Inl (-1) else if \<not> mkfifo then Inl 1 else Inr M_Open)"

record pipe_sys =
  fifo :: string
  master :: master_pc
  printed :: string
  slaves :: "slave list"

text \<open>\<open>fgets\<close> returns with a full buffer, with a line, or when nobody can write any more.\<close>

definition fgets_returns :: "pipe_sys \<Rightarrow> bool" where
  "fgets_returns s \<longleftrightarrow> NL \<in> set (take (BUF_LEN - 1) (fifo s)) \<or> BUF_LEN - 1 \<le> length (fifo s) \<or>
     (\<forall>sl \<in> set (slaves s). \<not> writing sl)"

definition master_step :: "pipe_sys \<Rightarrow> pipe_sys option" where
  "master_step s =
     (if master s = M_Read \<and> fgets_returns s then
        (case fgets BUF_LEN (fifo s) of
           None \<Rightarrow> Some (s\<lparr>master := M_End\<rparr>)
         | Some (buffer, rest) \<Rightarrow> Some (s\<lparr>fifo := rest, printed := printed s @ cstr buffer\<rparr>))
      else None)"

subsection \<open>The processes together\<close>

datatype pipe_event = Master | Slave nat

definition pipe_act :: "pipe_event \<Rightarrow> pipe_sys \<Rightarrow> pipe_sys option" where
  "pipe_act a s =
     (case a of
        Master \<Rightarrow> master_step s
      | Slave i \<Rightarrow>
          if i < length (slaves s) then
            let sl = slaves s ! i in
            if sl_pc sl = S_Open then
              if master s = M_End then None
              else Some (s\<lparr>master := M_Read, slaves := (slaves s)[i := sl\<lparr>sl_pc := S_Pid\<rparr>]\<rparr>)
            else
              (case slave_step sl of
                 None \<Rightarrow> None
               | Some (None, sl') \<Rightarrow> Some (s\<lparr>slaves := (slaves s)[i := sl']\<rparr>)
               | Some (Some b, sl') \<Rightarrow>
                   if master s = M_End then Some (s\<lparr>slaves := (slaves s)[i := sl\<lparr>sl_pc := S_Sigpipe\<rparr>]\<rparr>)
                   else if length (fifo s) + length b \<le> PIPE_SIZE
                   then Some (s\<lparr>fifo := fifo s @ b, slaves := (slaves s)[i := sl']\<rparr>) else None)
          else None)"

definition pipe_step :: "pipe_sys \<Rightarrow> pipe_sys \<Rightarrow> bool" where
  "pipe_step s t = (\<exists>a. pipe_act a s = Some t)"

definition pipe_init :: "slave list \<Rightarrow> pipe_sys" where
  "pipe_init sls = \<lparr>fifo = [], master = M_Open, printed = [], slaves = sls\<rparr>"

subsection \<open>What a slave reports\<close>

function reports_from :: "slave \<Rightarrow> int \<Rightarrow> string list" where
  "reports_from sl i =
     (if i < line_count sl then
        (case report_line (sl_pid sl) (sl_date sl i) of Cont b \<Rightarrow> b # reports_from sl (i + 1) | _ \<Rightarrow> [])
      else [])"
  by pat_completeness auto
termination by (relation "measure (\<lambda>(sl, i). nat (line_count sl - i))") auto

declare reports_from.simps [simp del]

definition slave_reports :: "slave \<Rightarrow> string list" where
  "slave_reports sl = (case pid_line (sl_pid sl) of Cont b \<Rightarrow> b # reports_from sl 0 | _ \<Rightarrow> [])"

definition reports_left :: "slave \<Rightarrow> string list" where
  "reports_left sl =
     (case sl_pc sl of S_Open \<Rightarrow> slave_reports sl | S_Pid \<Rightarrow> slave_reports sl | S_Loop i \<Rightarrow> reports_from sl i | _ \<Rightarrow> [])"

lemma reports_from_pc [simp]: "reports_from (sl\<lparr>sl_pc := pc\<rparr>) i = reports_from sl i"
  by (induction sl i rule: reports_from.induct) (subst (1 2) reports_from.simps, auto split: outcome.split)

lemma slave_reports_pc [simp]: "slave_reports (sl\<lparr>sl_pc := pc\<rparr>) = slave_reports sl"
  by (simp add: slave_reports_def split: outcome.split)

definition written :: "string option \<Rightarrow> string list" where
  "written w = (case w of None \<Rightarrow> [] | Some b \<Rightarrow> [b])"

lemma reports_step:
  "i < line_count sl \<Longrightarrow> report_line (sl_pid sl) (sl_date sl i) = Cont b \<Longrightarrow> reports_from sl i = b # reports_from sl (i + 1)"
  "i < line_count sl \<Longrightarrow> \<forall>b. report_line (sl_pid sl) (sl_date sl i) \<noteq> Cont b \<Longrightarrow> reports_from sl i = []"
  "\<not> i < line_count sl \<Longrightarrow> reports_from sl i = []"
  by (subst reports_from.simps, simp split: outcome.split)+

lemma slave_step_pc:
  assumes "slave_step sl = Some (w, sl')"
  shows "writing sl" and "sl_pc sl' \<noteq> S_Open" and "sl_pc sl' \<noteq> S_Sigpipe" and "\<exists>pc. sl' = sl\<lparr>sl_pc := pc\<rparr>"
  using assms by (auto simp: slave_step_def writing_def split: slave_pc.splits outcome.splits if_splits)

lemma slave_step_reports:
  assumes "slave_step sl = Some (w, sl')"
  shows "reports_left sl = written w @ reports_left sl'"
proof (cases "sl_pc sl")
  case S_Pid
  then show ?thesis using assms
    by (auto simp: slave_step_def reports_left_def slave_reports_def written_def split: outcome.splits)
next
  case (S_Loop i)
  then show ?thesis using assms
    by (auto simp: slave_step_def reports_left_def written_def reports_step split: outcome.splits if_splits)
qed (use assms in \<open>simp_all add: slave_step_def\<close>)

lemma slave_step_ready: "slave_step sl = None \<longleftrightarrow> \<not> writing sl"
  by (auto simp: slave_step_def writing_def split: slave_pc.splits outcome.splits)

lemma print_d_no_NUL: "NUL \<notin> set (print_d i)"
  using print_d_chars [of i] isdigit_cases [of NUL] by auto

lemma written_line:
  assumes "slave_step sl = Some (Some b, sl')"
  shows "length b < 1024" and "NUL \<notin> set b" and "b \<noteq> []"
  using assms print_d_no_NUL
  by (auto simp: slave_step_def pid_line_def report_line_def Let_def cstr_no_NUL
      split: slave_pc.splits outcome.splits if_splits)

subsection \<open>The invariant\<close>

text \<open>
  What has come out of the pipe and what is in it are the lines written so far, in some order that
  keeps the order of each slave; nobody writes into a pipe the master has left.
\<close>

definition of_slave :: "nat \<Rightarrow> (nat \<times> string) list \<Rightarrow> string list" where
  "of_slave i T = map snd (filter (\<lambda>(j, b). j = i) T)"

definition merged :: "slave list \<Rightarrow> pipe_sys \<Rightarrow> (nat \<times> string) list \<Rightarrow> bool" where
  "merged sls s T \<longleftrightarrow> concat (map snd T) = printed s @ fifo s \<and> (\<forall>(i, b) \<in> set T. i < length sls) \<and>
     (\<forall>i < length sls. of_slave i T @ reports_left (slaves s ! i) = slave_reports (sls ! i))"

definition pipe_ok :: "slave list \<Rightarrow> pipe_sys \<Rightarrow> bool" where
  "pipe_ok sls s \<longleftrightarrow> length (slaves s) = length sls \<and> NUL \<notin> set (fifo s) \<and>
     (\<forall>i < length sls. slave_reports (slaves s ! i) = slave_reports (sls ! i)) \<and>
     (master s = M_End \<longrightarrow> fifo s = [] \<and> (\<forall>sl \<in> set (slaves s). \<not> writing sl)) \<and>
     (master s = M_Open \<longrightarrow> (\<forall>sl \<in> set (slaves s). sl_pc sl = S_Open)) \<and>
     (\<forall>sl \<in> set (slaves s). sl_pc sl \<noteq> S_Sigpipe)"

lemmas [inv_defs] = merged_def pipe_ok_def

lemma of_slave_simps [simp]:
  "of_slave i [] = []" "of_slave i (T @ [(j, b)]) = of_slave i T @ (if j = i then [b] else [])"
  by (simp_all add: of_slave_def)

lemma pipe_init_ok: "\<forall>sl \<in> set sls. sl_pc sl = S_Open \<Longrightarrow> pipe_ok sls (pipe_init sls) \<and> merged sls (pipe_init sls) []"
  by (auto simp: pipe_init_def pipe_ok_def merged_def reports_left_def)

text \<open>The steps of the two programs.\<close>

lemma master_step_cases:
  assumes "master_step s = Some t"
  obtains "master s = M_Read" and "fifo s = []" and "\<forall>sl \<in> set (slaves s). \<not> writing sl" and "t = s\<lparr>master := M_End\<rparr>"
  | l r where "master s = M_Read" and "fifo s = l @ r" and "l \<noteq> []" and "t = s\<lparr>fifo := r, printed := printed s @ cstr l\<rparr>"
proof (cases "fgets BUF_LEN (fifo s)")
  case None
  then show ?thesis
    using assms that(1) by (auto simp: master_step_def fgets_returns_def fgets_def split: if_splits)
next
  case (Some lr)
  obtain l r where lr: "lr = (l, r)" by fastforce
  then have rl: "read_line (BUF_LEN - 1) (fifo s) = (l, r)" and ne: "fifo s \<noteq> []"
    using Some by (auto simp: fgets_def split: if_splits)
  have "l \<noteq> []" by (rule read_line_nonempty [OF rl _ ne]) simp
  then show ?thesis
    using assms that(2) [of l r] read_line_append [OF rl] Some lr
    by (auto simp: master_step_def split: if_splits)
qed

lemma slave_act_cases:
  assumes "pipe_act (Slave i) s = Some t"
  obtains "i < length (slaves s)" and "sl_pc (slaves s ! i) = S_Open" and "master s \<noteq> M_End"
      and "t = s\<lparr>master := M_Read, slaves := (slaves s)[i := (slaves s ! i)\<lparr>sl_pc := S_Pid\<rparr>]\<rparr>"
  | sl' where "i < length (slaves s)" and "slave_step (slaves s ! i) = Some (None, sl')" and "t = s\<lparr>slaves := (slaves s)[i := sl']\<rparr>"
  | b sl' where "i < length (slaves s)" and "slave_step (slaves s ! i) = Some (Some b, sl')" and "master s \<noteq> M_End"
      and "length (fifo s) + length b \<le> PIPE_SIZE" and "t = s\<lparr>fifo := fifo s @ b, slaves := (slaves s)[i := sl']\<rparr>"
  | b sl' where "i < length (slaves s)" and "slave_step (slaves s ! i) = Some (Some b, sl')" and "master s = M_End"
  using assms by (auto simp: pipe_act_def Let_def split: if_splits option.splits prod.splits)

lemma merged_slave:
  assumes "merged sls s T" and "length (slaves s) = length sls" and "i < length sls"
    and "reports_left (slaves s ! i) = written w @ reports_left sl'"
    and "printed t = printed s" and "fifo t = fifo s @ concat (written w)" and "slaves t = (slaves s)[i := sl']"
  shows "\<exists>T'. merged sls t T'"
proof (cases w)
  case None
  then have "merged sls t T"
    using assms by (auto simp: merged_def written_def nth_list_update)
  then show ?thesis by blast
next
  case (Some b)
  then have "merged sls t (T @ [(i, b)])"
    using assms by (auto simp: merged_def written_def nth_list_update)
  then show ?thesis by blast
qed

lemma pipe_ok_slave:
  assumes "pipe_ok sls s" and "i < length (slaves s)" and "slaves t = (slaves s)[i := sl']" and "master t = M_Read"
    and "sl_pc sl' \<noteq> S_Sigpipe" and "slave_reports sl' = slave_reports (slaves s ! i)" and "NUL \<notin> set (fifo t)"
  shows "pipe_ok sls t"
proof -
  have "\<forall>sl \<in> set (slaves s). sl_pc sl \<noteq> S_Sigpipe" using assms(1) by (simp add: pipe_ok_def)
  then have "\<forall>sl \<in> set (slaves t). sl_pc sl \<noteq> S_Sigpipe"
    using assms(3,5) by (auto dest!: subsetD [OF set_update_subset_insert])
  then show ?thesis using assms by (simp add: pipe_ok_def nth_list_update)
qed

lemma writing_master:
  assumes "pipe_ok sls s" and "i < length (slaves s)" and "writing (slaves s ! i)"
  shows "master s = M_Read"
proof -
  have "slaves s ! i \<in> set (slaves s)" using assms(2) by simp
  then show ?thesis using assms(1,3) by (cases "master s") (auto simp: pipe_ok_def writing_def)
qed

lemma pipe_step_inv:
  assumes "pipe_ok sls s" and "merged sls s T" and "pipe_act a s = Some t"
  shows "pipe_ok sls t \<and> (\<exists>T. merged sls t T)"
proof (cases a)
  case Master
  then have "master_step s = Some t" using assms(3) by (simp add: pipe_act_def)
  then show ?thesis
  proof (cases rule: master_step_cases)
    case 1
    then show ?thesis using assms(1,2) by (auto simp: pipe_ok_def merged_def)
  next
    case (2 l r)
    then have "NUL \<notin> set l" "NUL \<notin> set r" using assms(1) by (auto simp: pipe_ok_def)
    then show ?thesis using 2 assms(1,2) by (auto simp: pipe_ok_def merged_def)
  qed
next
  case (Slave i)
  have len: "length (slaves s) = length sls" using assms(1) by (simp add: pipe_ok_def)
  from assms(3) [unfolded Slave] show ?thesis
  proof (cases rule: slave_act_cases)
    case 1
    let ?sl = "(slaves s ! i)\<lparr>sl_pc := S_Pid\<rparr>"
    have "\<exists>T. merged sls t T"
      by (rule merged_slave [OF assms(2) len, of i None ?sl]) (use 1 len in \<open>auto simp: reports_left_def written_def\<close>)
    moreover have "pipe_ok sls t"
      by (rule pipe_ok_slave [OF assms(1) 1(1), of t ?sl]) (use 1 assms(1) in \<open>simp_all add: pipe_ok_def\<close>)
    ultimately show ?thesis by blast
  next
    case (2 sl')
    note st = slave_step_reports [OF 2(2)] slave_step_pc [OF 2(2)]
    have "\<exists>T. merged sls t T"
      by (rule merged_slave [OF assms(2) len, of i None sl']) (use 2 len st in \<open>auto simp: written_def\<close>)
    moreover have "pipe_ok sls t"
      by (rule pipe_ok_slave [OF assms(1) 2(1), of t sl'])
        (use 2 st writing_master [OF assms(1) 2(1)] assms(1) in \<open>auto simp: pipe_ok_def\<close>)
    ultimately show ?thesis by blast
  next
    case (3 b sl')
    note st = slave_step_reports [OF 3(2)] slave_step_pc [OF 3(2)]
    have "\<exists>T. merged sls t T"
      by (rule merged_slave [OF assms(2) len, of i "Some b" sl']) (use 3 len st in \<open>auto simp: written_def\<close>)
    moreover have "pipe_ok sls t"
      by (rule pipe_ok_slave [OF assms(1) 3(1), of t sl'])
        (use 3 st writing_master [OF assms(1) 3(1)] written_line [OF 3(2)] assms(1) in \<open>auto simp: pipe_ok_def\<close>)
    ultimately show ?thesis by blast
  next
    case (4 b sl')
    then show ?thesis using writing_master [OF assms(1) 4(1)] slave_step_pc [OF 4(2)] by auto
  qed
qed

subsection \<open>Every run ends\<close>

fun slave_weight :: "slave \<Rightarrow> nat" where
  "slave_weight sl =
     (case sl_pc sl of
        S_Open \<Rightarrow> nat (line_count sl) + 4
      | S_Pid \<Rightarrow> nat (line_count sl) + 3
      | S_Loop i \<Rightarrow> nat (line_count sl - i) + 1
      | _ \<Rightarrow> 0)"

definition pipe_left :: "pipe_sys \<Rightarrow> nat" where
  "pipe_left s = 1024 * total slave_weight (slaves s) + length (fifo s) + (if master s = M_End then 0 else 1)"

lemma slave_step_weight: "slave_step sl = Some (w, sl') \<Longrightarrow> slave_weight sl' < slave_weight sl"
  by (auto simp: slave_step_def split: slave_pc.splits outcome.splits if_splits)

lemma slave_update_weight:
  assumes "i < length sls" and "slave_weight sl' < slave_weight (sls ! i)"
  shows "total slave_weight (sls[i := sl']) < total slave_weight sls"
  using total_update [OF assms(1), of slave_weight sl'] assms(2) by simp

lemma pipe_act_left:
  assumes "pipe_ok sls s" and "pipe_act a s = Some t"
  shows "pipe_left t < pipe_left s"
proof (cases a)
  case Master
  then have "master_step s = Some t" using assms(2) by (simp add: pipe_act_def)
  then show ?thesis by (cases rule: master_step_cases) (auto simp: pipe_left_def)
next
  case (Slave i)
  from assms(2) [unfolded Slave] show ?thesis
  proof (cases rule: slave_act_cases)
    case 1
    then show ?thesis
      using slave_update_weight [of i "slaves s" "(slaves s ! i)\<lparr>sl_pc := S_Pid\<rparr>"] by (simp add: pipe_left_def)
  next
    case (2 sl')
    then show ?thesis
      using slave_update_weight [of i "slaves s" sl'] slave_step_weight by (simp add: pipe_left_def del: slave_weight.simps)
  next
    case (3 b sl')
    then show ?thesis
      using slave_update_weight [of i "slaves s" sl'] slave_step_weight written_line [OF 3(2)]
      by (simp add: pipe_left_def del: slave_weight.simps)
  next
    case (4 b sl')
    then show ?thesis using writing_master [OF assms(1) 4(1)] slave_step_pc [OF 4(2)] by auto
  qed
qed

interpretation report: terminating_system pipe_step "\<lambda>s. pipe_ok sls s \<and> (\<exists>T. merged sls s T)" pipe_left for sls
proof unfold_locales
  fix s t
  assume inv: "pipe_ok sls s \<and> (\<exists>T. merged sls s T)" and "pipe_step s t"
  then obtain a where a: "pipe_act a s = Some t" by (auto simp: pipe_step_def)
  show "pipe_ok sls t \<and> (\<exists>T. merged sls t T)" using inv a pipe_step_inv by blast
  show "pipe_left t < pipe_left s" using inv a pipe_act_left by blast
qed

subsection \<open>No run is stuck before the end\<close>

lemma pipe_progress:
  assumes "pipe_ok sls s" and stuck: "\<forall>t. \<not> pipe_step s t" and "sls \<noteq> []"
  shows "master s = M_End"
proof -
  have len: "length (slaves s) = length sls" using assms(1) by (simp add: pipe_ok_def)
  have none: "pipe_act a s = None" for a using stuck by (cases "pipe_act a s") (auto simp: pipe_step_def)
  have M: "\<not> fgets_returns s" if "master s = M_Read"
    using none [of Master] that by (auto simp: pipe_act_def master_step_def split: option.splits)
  have S: "PIPE_SIZE < length (fifo s) + 1023" if i: "i < length (slaves s)" "writing (slaves s ! i)" for i
  proof -
    obtain w sl' where st: "slave_step (slaves s ! i) = Some (w, sl')"
      using i(2) slave_step_ready by (cases "slave_step (slaves s ! i)") auto
    have "sl_pc (slaves s ! i) \<noteq> S_Open" using i(2) by (auto simp: writing_def)
    with none [of "Slave i"] i st writing_master [OF assms(1) i] obtain b where b: "w = Some b"
      "\<not> length (fifo s) + length b \<le> PIPE_SIZE"
      by (auto simp: pipe_act_def Let_def split: if_splits option.splits)
    then show ?thesis using written_line(1) st by fastforce
  qed
  show ?thesis
  proof (cases "master s")
    case M_Open
    have "slaves s ! 0 \<in> set (slaves s)" using assms(3) len by simp
    then have "sl_pc (slaves s ! 0) = S_Open" using M_Open assms(1) by (simp add: pipe_ok_def)
    then show ?thesis using none [of "Slave 0"] M_Open assms(3) len by (simp add: pipe_act_def Let_def)
  next
    case M_Read
    then have "\<not> fgets_returns s" by (rule M)
    then have "\<not> (\<forall>sl \<in> set (slaves s). \<not> writing sl)" and "length (fifo s) < BUF_LEN - 1"
      by (auto simp: fgets_returns_def)
    then obtain i where "i < length (slaves s)" "writing (slaves s ! i)" by (metis in_set_conv_nth)
    from S [OF this] show ?thesis using \<open>length (fifo s) < BUF_LEN - 1\<close> by simp
  qed
qed

subsection \<open>What is printed\<close>

text \<open>The lines of a slave whose process id and dates fit their buffers.\<close>

definition slave_lines :: "slave \<Rightarrow> string list" where
  "slave_lines sl =
     (print_d (sl_pid sl) @ [NL]) # map (\<lambda>i. print_d (sl_pid sl) @ '': '' @ sl_date sl i) [0..line_count sl - 1]"

definition slave_fits :: "slave \<Rightarrow> bool" where
  "slave_fits sl \<longleftrightarrow> 0 \<le> sl_pid sl \<and> sl_pid sl < 10 ^ 8 \<and> (\<forall>i. length (sl_date sl i) \<le> 1000 \<and> NUL \<notin> set (sl_date sl i))"

lemma pid_length: "0 \<le> pid \<Longrightarrow> pid < 10 ^ 8 \<Longrightarrow> length (print_d pid) \<le> 8"
  using print_u_length [of "nat pid" 8] by (simp add: print_d_def nat_less_iff)

lemma slave_fits_reports:
  assumes "slave_fits sl"
  shows "slave_reports sl = slave_lines sl"
proof -
  have p: "length (print_d (sl_pid sl)) \<le> 8" using assms pid_length by (simp add: slave_fits_def)
  have r: "report_line (sl_pid sl) (sl_date sl i) = Cont (print_d (sl_pid sl) @ '': '' @ sl_date sl i)" for i
  proof -
    have d: "length (sl_date sl i) \<le> 1000" "NUL \<notin> set (sl_date sl i)" using assms by (auto simp: slave_fits_def)
    then have "take 1024 (sl_date sl i) = sl_date sl i" by simp
    then show ?thesis using p d by (simp add: report_line_def Let_def)
  qed
  have "reports_from sl i = map (\<lambda>i. print_d (sl_pid sl) @ '': '' @ sl_date sl i) [i..line_count sl - 1]" for i
  proof (induction "nat (line_count sl - i)" arbitrary: i)
    case 0
    then show ?case by (subst reports_from.simps) simp
  next
    case (Suc n)
    then have "[i..line_count sl - 1] = i # [i + 1..line_count sl - 1]" by (simp add: upto.simps [of i])
    moreover have "n = nat (line_count sl - (i + 1))" using Suc(2) by linarith
    ultimately show ?case using Suc(1) [of "i + 1"] Suc(2) r [of i] by (subst reports_from.simps) simp
  qed
  then show ?thesis using p by (simp add: slave_reports_def pid_line_def Let_def slave_lines_def)
qed

lemma pipe_end_lines:
  assumes "pipe_ok sls s" and "merged sls s T" and "master s = M_End" and "i < length sls"
  shows "of_slave i T = (if sl_pc (slaves s ! i) = S_Open then [] else slave_reports (sls ! i))"
proof -
  have "slaves s ! i \<in> set (slaves s)" using assms(1,4) by (simp add: pipe_ok_def)
  then have "\<not> writing (slaves s ! i)" using assms(1,3) by (auto simp: pipe_ok_def)
  moreover have "of_slave i T @ reports_left (slaves s ! i) = slave_reports (sls ! i)"
    "slave_reports (slaves s ! i) = slave_reports (sls ! i)"
    using assms by (auto simp: pipe_ok_def merged_def)
  ultimately show ?thesis by (auto simp: writing_def reports_left_def split: slave_pc.splits if_splits)
qed


text \<open>A run of two slaves with one line each, the second of which comes too late.\<close>

fun pipe_run :: "pipe_event list \<Rightarrow> pipe_sys \<Rightarrow> pipe_sys option" where
  "pipe_run [] s = Some s"
| "pipe_run (a # as) s = (case pipe_act a s of None \<Rightarrow> None | Some t \<Rightarrow> pipe_run as t)"

lemma pipe_run_steps: "pipe_run as s = Some t \<Longrightarrow> pipe_step\<^sup>*\<^sup>* s t"
proof (induction as arbitrary: s)
  case (Cons a as)
  then obtain u where u: "pipe_act a s = Some u" "pipe_run as u = Some t" by (auto split: option.splits)
  then have "pipe_step s u" by (auto simp: pipe_step_def)
  then show ?case using Cons.IH [OF u(2)] by (rule converse_rtranclp_into_rtranclp)
qed simp

definition two_slaves :: "slave list" where
  "two_slaves =
     [\<lparr>sl_pc = S_Open, sl_pid = 41, line_count = 1, sl_date = \<lambda>i. ''Mon'' @ [NL]\<rparr>,
      \<lparr>sl_pc = S_Open, sl_pid = 42, line_count = 1, sl_date = \<lambda>i. ''Tue'' @ [NL]\<rparr>]"

lemma pipe_stuck:
  assumes "master s = M_End" and "\<forall>sl \<in> set (slaves s). \<not> writing sl"
  shows "\<not> pipe_step s t"
proof
  assume "pipe_step s t"
  then obtain a where a: "pipe_act a s = Some t" by (auto simp: pipe_step_def)
  then obtain i where "a = Slave i" using assms(1) by (cases a) (auto simp: pipe_act_def master_step_def)
  from a [unfolded this] show False
    by (cases rule: slave_act_cases) (use assms slave_step_pc(1) nth_mem in blast)+
qed


end
